theory Spec2Isabelle
  imports Complex_Main
begin

section \<open>Constants and machine integers\<close>

definition NA_INTEGER :: int where
  "NA_INTEGER = - 2147483648"

definition wrap32 :: "int \<Rightarrow> int" where
  "wrap32 x = (x + 2147483648) mod 4294967296 - 2147483648"

fun sqrt_down :: "nat \<Rightarrow> nat \<Rightarrow> nat" where
  "sqrt_down n 0 = 0"
| "sqrt_down n (Suc m) = (if Suc m * Suc m \<le> n then Suc m else sqrt_down n m)"

definition floor_sqrt :: "nat \<Rightarrow> nat" where
  "floor_sqrt n = sqrt_down n n"

section \<open>Cost and score tables\<close>

record costs =
  maxSep :: int
  gapCost :: "real list"
  sepCost :: "real list"

definition mk_costs :: "nat \<Rightarrow> real \<Rightarrow> real \<Rightarrow> costs" where
  "mk_costs L sC gC =
    \<lparr>maxSep = int (floor_sqrt L),
     gapCost = map (\<lambda>i. gC * sqrt (real i)) [0..<floor_sqrt L + 1],
     sepCost = map (\<lambda>i. sqrt (real i) * sC) [0..<floor_sqrt L + 1]\<rparr>"

function score_inner ::
  "real list \<Rightarrow> nat \<Rightarrow> nat \<Rightarrow> bool \<Rightarrow> nat \<Rightarrow> nat \<Rightarrow> nat \<Rightarrow> int \<Rightarrow> real list \<times> real list
     \<Rightarrow> real list \<times> real list" where
  "score_inner freqs size_a L ext c j p k tabs =
    (if j < L then
       (let (p', k') = (if j = p then (p + c, if k = int size_a - 1 then 0 else k + 1) else (p, k));
            (scores, addScores) = tabs
        in score_inner freqs size_a L ext c (j + 1) p' k'
             (scores[j := scores ! j + freqs ! nat k'],
              if ext then addScores[j := addScores ! j + freqs ! nat k'] else addScores))
     else tabs)"
  by pat_completeness auto
termination
  by (relation "measure (\<lambda>(freqs, size_a, L, ext, c, j, p, k, tabs). L - j)") auto

function score_outer ::
  "real list \<Rightarrow> nat \<Rightarrow> nat \<Rightarrow> int \<Rightarrow> nat \<Rightarrow> nat \<Rightarrow> real list \<times> real list
     \<Rightarrow> real list \<times> real list" where
  "score_outer freqs L K step i c tabs =
    (if i \<le> K then
       score_outer freqs L K step (i + 1) (c * length freqs)
         (score_inner freqs (length freqs) L (int i > int K - step) c 0 0 (- 1) tabs)
     else tabs)"
  by pat_completeness auto
termination
  by (relation "measure (\<lambda>(freqs, L, K, step, i, c, tabs). K + 1 - i)") auto

definition score_tables :: "real list \<Rightarrow> nat \<Rightarrow> nat \<Rightarrow> int \<Rightarrow> real list \<times> real list" where
  "score_tables freqs L K step =
     score_outer freqs L K step 1 1 (replicate L 0, replicate L 0)"

function offset_loop :: "int list \<Rightarrow> nat \<Rightarrow> nat \<Rightarrow> nat \<Rightarrow> int list \<Rightarrow> int list" where
  "offset_loop num L i k offset =
    (if i < L then offset_loop num L (i + 1) i (offset[i := offset ! k + num ! k]) else offset)"
  by pat_completeness auto
termination
  by (relation "measure (\<lambda>(num, L, i, k, offset). L - i)") auto

definition offsets :: "int list \<Rightarrow> int list" where
  "offsets num = offset_loop num (length num) 1 0 (replicate (length num) 0)"

declare score_inner.simps [simp del] score_outer.simps [simp del] offset_loop.simps [simp del]


section \<open>Per-query hit gathering\<close>

function width_loop :: "int list \<Rightarrow> int \<Rightarrow> nat \<Rightarrow> int \<Rightarrow> int \<Rightarrow> int" where
  "width_loop w K j k width =
    (if j < length w then
       (if w ! j \<noteq> NA_INTEGER
        then width_loop w K (j + 1) (int j) (if k = int j - 1 then width + 1 else width + K)
        else width_loop w K (j + 1) k width)
     else width)"
  by pat_completeness auto
termination
  by (relation "measure (\<lambda>(w, K, j, k, width). length w - j)") auto

definition query_width :: "int list \<Rightarrow> int \<Rightarrow> int" where
  "query_width w K = width_loop w K 0 (- 2) 0"

function count_loop ::
  "int list \<Rightarrow> int list \<Rightarrow> nat \<Rightarrow> int list \<Rightarrow> int \<Rightarrow> int list \<times> int \<times> bool" where
  "count_loop w num j counts s =
    (if j < length w then
       (if w ! j = NA_INTEGER then count_loop w num (j + 1) (counts @ [0]) s
        else
          (let cj = num ! nat (w ! j); s' = wrap32 (s + cj) in
           if s' < 0 then (counts @ [cj], s', True)
           else count_loop w num (j + 1) (counts @ [cj]) s'))
     else (counts, s, False))"
  by pat_completeness auto
termination
  by (relation "measure (\<lambda>(w, num, j, counts, s). length w - j)") auto

record raw_hits =
  rposQuery :: "int list"
  rposTarget :: "int list"
  rset :: "int list"
  rscore :: "real list"
  raddScore :: "real list"

function gather_inner ::
  "int list \<Rightarrow> int list \<Rightarrow> int \<Rightarrow> real \<Rightarrow> real \<Rightarrow> int \<Rightarrow> int \<Rightarrow> nat \<Rightarrow> raw_hits \<Rightarrow> raw_hits" where
  "gather_inner loc ind qp sc ad cnt k P r =
    (if k < cnt then
       gather_inner loc ind qp sc ad cnt (k + 1) (P + 1)
         (r\<lparr>rposQuery := rposQuery r @ [qp], rposTarget := rposTarget r @ [loc ! P],
            rset := rset r @ [ind ! P], rscore := rscore r @ [sc],
            raddScore := raddScore r @ [ad]\<rparr>)
     else r)"
  by pat_completeness auto
termination
  by (relation "measure (\<lambda>(loc, ind, qp, sc, ad, cnt, k, P, r). nat (cnt - k))") auto

function gather_loop ::
  "int list \<Rightarrow> int list \<Rightarrow> int list \<Rightarrow> int list \<Rightarrow> int list \<Rightarrow> real list \<Rightarrow> real list \<Rightarrow> nat
     \<Rightarrow> raw_hits \<Rightarrow> raw_hits" where
  "gather_loop w counts offset loc ind scores addScores j r =
    (if j < length w then
       gather_loop w counts offset loc ind scores addScores (j + 1)
         (if counts ! j > 0
          then gather_inner loc ind (int j + 1) (scores ! nat (w ! j)) (addScores ! nat (w ! j))
                 (counts ! j) 0 (nat (offset ! nat (w ! j))) r
          else r)
     else r)"
  by pat_completeness auto
termination
  by (relation "measure (\<lambda>(w, counts, offset, loc, ind, scores, addScores, j, r). length w - j)") auto

definition gather ::
  "int list \<Rightarrow> int list \<Rightarrow> int list \<Rightarrow> int list \<Rightarrow> int list \<Rightarrow> real list \<Rightarrow> real list \<Rightarrow> raw_hits" where
  "gather w counts offset loc ind scores addScores =
     gather_loop w counts offset loc ind scores addScores 0
       \<lparr>rposQuery = [], rposTarget = [], rset = [], rscore = [], raddScore = []\<rparr>"

declare width_loop.simps [simp del] count_loop.simps [simp del]
  gather_inner.simps [simp del] gather_loop.simps [simp del]

section \<open>Two-key merge sort\<close>

function cumulate :: "nat \<Rightarrow> nat \<Rightarrow> int list \<Rightarrow> int list" where
  "cumulate l j counts =
    (if j < l then cumulate l (j + 1) (counts[j := counts ! j + counts ! (j - 1)]) else counts)"
  by pat_completeness auto
termination
  by (relation "measure (\<lambda>(l, j, counts). l - j)") auto

function merge_loop ::
  "int list \<Rightarrow> int list \<Rightarrow> nat list \<Rightarrow> nat \<Rightarrow> nat \<Rightarrow> nat \<Rightarrow> nat \<Rightarrow> nat list \<Rightarrow> nat \<times> nat \<times> nat list" where
  "merge_loop st pt o2 hi1 hi2 j k o1 =
    (if j < hi1 \<and> k < hi2 then
       (if st ! (o2 ! j) = st ! (o2 ! k) then
          (if pt ! (o2 ! j) \<le> pt ! (o2 ! k)
           then merge_loop st pt o2 hi1 hi2 (j + 1) k (o1 @ [o2 ! j])
           else merge_loop st pt o2 hi1 hi2 j (k + 1) (o1 @ [o2 ! k]))
        else if st ! (o2 ! j) < st ! (o2 ! k)
        then merge_loop st pt o2 hi1 hi2 (j + 1) k (o1 @ [o2 ! j])
        else merge_loop st pt o2 hi1 hi2 j (k + 1) (o1 @ [o2 ! k]))
     else (j, k, o1))"
  by pat_completeness auto
termination
  by (relation "measure (\<lambda>(st, pt, o2, hi1, hi2, j, k, o1). (hi1 - j) + (hi2 - k))") auto

function copy_loop :: "nat list \<Rightarrow> nat \<Rightarrow> nat \<Rightarrow> nat list \<Rightarrow> nat \<times> nat list" where
  "copy_loop o2 hi j o1 =
    (if j < hi then copy_loop o2 hi (j + 1) (o1 @ [o2 ! j]) else (j, o1))"
  by pat_completeness auto
termination
  by (relation "measure (\<lambda>(o2, hi, j, o1). hi - j)") auto

function merge_pass ::
  "int list \<Rightarrow> int list \<Rightarrow> nat list \<Rightarrow> int list \<Rightarrow> nat \<Rightarrow> nat \<Rightarrow> nat \<Rightarrow> nat \<Rightarrow> nat list \<Rightarrow> nat list" where
  "merge_pass st pt o2 counts c group1 group2 j o1 =
    (if group2 < c then
       (let k = nat (counts ! group1);
            (j1, k1, o1a) = merge_loop st pt o2 (nat (counts ! group1)) (nat (counts ! group2)) j k o1;
            (j2, o1b) = copy_loop o2 (nat (counts ! group1)) j1 o1a;
            (k2, o1c) = copy_loop o2 (nat (counts ! group2)) k1 o1b
        in merge_pass st pt o2 counts c (group2 + 1) (group2 + 1 + 1) k2 o1c)
     else o1)"
  by pat_completeness auto
termination
  by (relation "measure (\<lambda>(st, pt, o2, counts, c, group1, group2, j, o1). c - group2)") auto

function pair_counts :: "int list \<Rightarrow> nat \<Rightarrow> nat \<Rightarrow> nat \<Rightarrow> int list \<times> nat \<times> nat" where
  "pair_counts counts c p k =
    (if int k < int c - 1
     then pair_counts (counts[p := counts ! (k + 2 - 1)]) c (p + 1) (k + 2)
     else (counts, p, k))"
  by pat_completeness auto
termination
  by (relation "measure (\<lambda>(counts, c, p, k). c - k)") auto

definition merge_counts :: "int list \<Rightarrow> nat \<Rightarrow> int list \<times> nat" where
  "merge_counts counts c =
    (let (counts1, p, k) = pair_counts counts c 0 0 in
     if k < c then (counts1[p := counts1 ! k], p + 1) else (counts1, p))"

declare cumulate.simps [simp del] merge_loop.simps [simp del] copy_loop.simps [simp del]
  merge_pass.simps [simp del] pair_counts.simps [simp del]


lemma pair_counts_result:
  "pair_counts counts c p k = (counts', p', k') \<Longrightarrow> k = 2 * p \<Longrightarrow> k \<le> c \<Longrightarrow>
   k' = 2 * p' \<and> k' \<le> c \<and> c \<le> k' + 1"
proof (induction counts c p k rule: pair_counts.induct)
  case (1 counts c p k)
  show ?case
  proof (cases "int k < int c - 1")
    case True
    then have "pair_counts (counts[p := counts ! (k + 2 - 1)]) c (p + 1) (k + 2) = (counts', p', k')"
      using "1.prems"(1) by (subst (asm) pair_counts.simps) simp
    from "1.IH" [OF True this] True "1.prems" show ?thesis by simp
  next
    case False
    then have "(counts, p, k) = (counts', p', k')"
      using "1.prems"(1) by (subst (asm) pair_counts.simps) simp
    with False "1.prems" show ?thesis by auto
  qed
qed

lemma merge_counts_c: "snd (merge_counts counts c) = (c + 1) div 2"
proof -
  obtain counts' p' k' where pc: "pair_counts counts c 0 0 = (counts', p', k')"
    by (cases "pair_counts counts c 0 0") auto
  from pair_counts_result [OF pc] have "k' = 2 * p'" "k' \<le> c" "c \<le> k' + 1" by simp_all
  then show ?thesis by (auto simp: merge_counts_def pc)
qed

function sort_loop ::
  "int list \<Rightarrow> int list \<Rightarrow> nat \<Rightarrow> int list \<Rightarrow> nat \<Rightarrow> nat list \<Rightarrow> nat list" where
  "sort_loop st pt s counts c o1 =
    (if c > 1 then
       (let o1a = merge_pass st pt o1 counts c 0 1 0 [];
            o1b = snd (copy_loop o1 s (length o1a) o1a);
            (counts', c') = merge_counts counts c
        in sort_loop st pt s counts' c' o1b)
     else o1)"
  by pat_completeness auto
termination
proof (relation "measure (\<lambda>(st, pt, s, counts, c, o1). c)", goal_cases)
  case 1
  show ?case by simp
next
  case (2 st pt s counts c o1 o1a o1b x counts' c')
  then have "c' = snd (merge_counts counts c)" by (metis snd_conv)
  with 2 show ?case by (simp add: merge_counts_c)
qed

definition merge_sort :: "int list \<Rightarrow> int list \<Rightarrow> int list \<Rightarrow> nat list" where
  "merge_sort st pt counts =
     sort_loop st pt (length st) (cumulate (length counts) 1 counts) (length counts)
       [0..<length st]"

definition reorder :: "nat list \<Rightarrow> raw_hits \<Rightarrow> raw_hits" where
  "reorder o1 r =
    \<lparr>rposQuery = map (\<lambda>j. rposQuery r ! j) o1, rposTarget = map (\<lambda>j. rposTarget r ! j) o1,
     rset = map (\<lambda>j. rset r ! j) o1, rscore = map (\<lambda>j. rscore r ! j) o1,
     raddScore = map (\<lambda>j. raddScore r ! j) o1\<rparr>"

declare sort_loop.simps [simp del]

section \<open>Collapsing adjacent hits\<close>

record col_state =
  col_k :: nat
  col_p :: int
  col_keep :: "bool list"
  col_origin :: "nat list"
  col_len :: "int list"
  col_score :: "real list"

function col_scan :: "raw_hits \<Rightarrow> int \<Rightarrow> nat \<Rightarrow> nat \<Rightarrow> col_state \<Rightarrow> col_state" where
  "col_scan r step c j st =
    (if j < c then
       (let deltaTarget = rposTarget r ! c - rposTarget r ! j in
        if deltaTarget > step then col_scan r step c (j + 1) (st\<lparr>col_k := j + 1\<rparr>)
        else if deltaTarget = step then
          (let deltaQuery = rposQuery r ! c - rposQuery r ! j in
           if deltaQuery = step then
             st\<lparr>col_p := col_p st - 1,
                col_keep := (col_keep st)[c := False],
                col_origin := (col_origin st)[c := col_origin st ! j],
                col_len := (col_len st)[col_origin st ! j := col_len st ! (col_origin st ! j) + step],
                col_score := (col_score st)[col_origin st ! j :=
                   col_score st ! (col_origin st ! j) + raddScore r ! c]\<rparr>
           else col_scan r step c (j + 1) st)
        else st)
     else st)"
  by pat_completeness auto
termination
  by (relation "measure (\<lambda>(r, step, c, j, st). c - j)") auto

function col_loop :: "raw_hits \<Rightarrow> int \<Rightarrow> nat \<Rightarrow> nat \<Rightarrow> col_state \<Rightarrow> col_state" where
  "col_loop r step s c st =
    (if int c < int s - 1 then
       col_loop r step s (c + 1)
         (if rset r ! col_k st = rset r ! (c + 1)
          then col_scan r step (c + 1) (col_k st) st
          else st\<lparr>col_k := c + 1\<rparr>)
     else st)"
  by pat_completeness auto
termination
  by (relation "measure (\<lambda>(r, step, s, c, st). s - c)") auto

definition collapse :: "raw_hits \<Rightarrow> int \<Rightarrow> int \<Rightarrow> col_state" where
  "collapse r K step =
    (let s = length (rset r) in
     col_loop r step s 0
       \<lparr>col_k = 0, col_p = int s, col_keep = replicate s True, col_origin = [0..<s],
        col_len = replicate s K, col_score = rscore r\<rparr>)"

declare col_scan.simps [simp del] col_loop.simps [simp del]

section \<open>Chaining\<close>

record hits =
  posQuery :: "int list"
  posTarget :: "int list"
  tset :: "int list"
  len :: "int list"
  score0 :: "real list"

definition resize :: "raw_hits \<Rightarrow> col_state \<Rightarrow> hits" where
  "resize r st =
    (let kept = filter (\<lambda>j. col_keep st ! j) [0..<length (rset r)] in
     \<lparr>posQuery = map (\<lambda>j. rposQuery r ! j) kept, posTarget = map (\<lambda>j. rposTarget r ! j) kept,
      tset = map (\<lambda>j. rset r ! j) kept, len = map (\<lambda>j. col_len st ! j) kept,
      score0 = map (\<lambda>j. col_score st ! j) kept\<rparr>)"

record dp_state =
  j_left :: nat
  score :: "real list"
  chain :: "nat list"
  origin :: "nat list"
  cov :: "int list"

definition dp_step :: "hits \<Rightarrow> costs \<Rightarrow> nat \<Rightarrow> real \<Rightarrow> nat \<Rightarrow> dp_state \<Rightarrow> dp_state" where
  "dp_step h cs k prevScore p st =
    (let deltaTarget = posTarget h ! k - posTarget h ! p - len h ! p in
     if deltaTarget > maxSep cs then st\<lparr>j_left := p\<rparr>
     else if deltaTarget \<ge> 0 then
       (let deltaQuery = posQuery h ! k - posQuery h ! p - len h ! p in
        if deltaQuery \<ge> 0 \<and> deltaQuery \<le> maxSep cs then
          (let tempScore = score st ! p + prevScore in
           if tempScore > score st ! k then
             (let (gap, sep) = (if deltaQuery > deltaTarget
                                then (deltaQuery - deltaTarget, deltaTarget)
                                else (deltaTarget - deltaQuery, deltaQuery));
                  tempScore = tempScore + gapCost cs ! nat gap;
                  tempScore = tempScore + sepCost cs ! nat sep in
              if tempScore > score st ! k then
                st\<lparr>score := (score st)[k := tempScore],
                   chain := (chain st)[k := p],
                   origin := (origin st)[k := origin st ! p],
                   cov := (cov st)[k := len h ! k - 1 + cov st ! p]\<rparr>
              else st)
           else st)
        else st)
     else st)"

function dp_inner :: "hits \<Rightarrow> costs \<Rightarrow> nat \<Rightarrow> real \<Rightarrow> nat \<Rightarrow> dp_state \<Rightarrow> dp_state" where
  "dp_inner h cs k prevScore p st =
    (if p < k then dp_inner h cs k prevScore (p + 1) (dp_step h cs k prevScore p st) else st)"
  by pat_completeness auto
termination
  by (relation "measure (\<lambda>(h, cs, k, prevScore, p, st). k - p)") auto

function dp_outer :: "hits \<Rightarrow> costs \<Rightarrow> nat \<Rightarrow> nat \<Rightarrow> dp_state \<Rightarrow> dp_state" where
  "dp_outer h cs s k st =
    (if k < s then
       dp_outer h cs s (k + 1)
         (if tset h ! k \<noteq> tset h ! j_left st then st\<lparr>j_left := k\<rparr>
          else dp_inner h cs k (score st ! k) (j_left st) st)
     else st)"
  by pat_completeness auto
termination
  by (relation "measure (\<lambda>(h, cs, s, k, st). s - k)") auto

definition dp_init :: "hits \<Rightarrow> dp_state" where
  "dp_init h = \<lparr>j_left = 0, score = score0 h, chain = [0..<length (tset h)],
     origin = [0..<length (tset h)], cov = map (\<lambda>l. l - 1) (len h)\<rparr>"

definition chainDP :: "hits \<Rightarrow> costs \<Rightarrow> dp_state" where
  "chainDP h cs = dp_outer h cs (length (tset h)) 1 (dp_init h)"


declare dp_inner.simps [simp del] dp_outer.simps [simp del]

definition correct_scores :: "hits \<Rightarrow> int list \<Rightarrow> int \<Rightarrow> int \<Rightarrow> dp_state \<Rightarrow> real list" where
  "correct_scores h pos step width st =
     map (\<lambda>j. score st ! j
               - ln (real_of_int (pos ! nat (tset h ! j - 1) - cov st ! j) / real_of_int step)
               - ln (real_of_int (width - cov st ! j)))
       [0..<length (tset h)]"


section \<open>Result selection\<close>

function maxOrigin_loop ::
  "nat list \<Rightarrow> real list \<Rightarrow> nat \<Rightarrow> int option list \<Rightarrow> int option list option" where
  "maxOrigin_loop org sc j mo =
    (if j < length org then
       (if org ! j = j then maxOrigin_loop org sc (j + 1) (mo[j := Some (int j)])
        else
          (case (if org ! j < length mo then mo ! (org ! j) else None) of
             None \<Rightarrow> None
           | Some m \<Rightarrow>
               if m < 0 \<or> int (length sc) \<le> m then None
               else if sc ! nat m < sc ! j
               then maxOrigin_loop org sc (j + 1)
                      (mo[org ! j := Some (int j), j := Some NA_INTEGER])
               else maxOrigin_loop org sc (j + 1) (mo[j := Some NA_INTEGER])))
     else Some mo)"
  by pat_completeness auto
termination
  by (relation "measure (\<lambda>(org, sc, j, mo). length org - j)") auto

function keep_loop ::
  "int option list \<Rightarrow> nat \<Rightarrow> bool list \<Rightarrow> int \<Rightarrow> (bool list \<times> int) option" where
  "keep_loop mo j keep c =
    (if j < length mo then
       (case mo ! j of
          None \<Rightarrow> None
        | Some m \<Rightarrow>
            if m \<noteq> NA_INTEGER then
              (if m < 0 \<or> int (length keep) \<le> m then None
               else keep_loop mo (j + 1) (keep[nat m := True]) (c + 1))
            else keep_loop mo (j + 1) keep c)
     else Some (keep, c))"
  by pat_completeness auto
termination
  by (relation "measure (\<lambda>(mo, j, keep, c). length mo - j)") auto

definition all_hits :: "nat list \<Rightarrow> real list \<Rightarrow> (nat list \<times> int) option" where
  "all_hits org sc =
    (let s = length org in
     case maxOrigin_loop org sc 0 (replicate s None) of
       None \<Rightarrow> None
     | Some mo \<Rightarrow>
         (case keep_loop mo 0 (replicate s False) 0 of
            None \<Rightarrow> None
          | Some (keep, c) \<Rightarrow> Some (filter (\<lambda>j. keep ! j) [0..<s], c)))"

function target_loop ::
  "int list \<Rightarrow> real list \<Rightarrow> nat \<Rightarrow> int \<Rightarrow> nat \<Rightarrow> bool list \<Rightarrow> int \<Rightarrow> bool list \<times> int" where
  "target_loop st sc j p k keep c =
    (if j < length st then
       (if p \<noteq> st ! j then target_loop st sc (j + 1) (st ! j) j (keep[j := True]) (c + 1)
        else if sc ! j > sc ! k
        then target_loop st sc (j + 1) p j (keep[k := False, j := True]) c
        else target_loop st sc (j + 1) p k keep c)
     else (keep, c))"
  by pat_completeness auto
termination
  by (relation "measure (\<lambda>(st, sc, j, p, k, keep, c). length st - j)") auto

definition hit_per_target :: "int list \<Rightarrow> real list \<Rightarrow> nat list \<times> int" where
  "hit_per_target st sc =
    (let s = length st; (keep, c) = target_loop st sc 0 NA_INTEGER 0 (replicate s False) 0
     in (filter (\<lambda>j. keep ! j) [0..<s], c))"

function top_loop :: "real list \<Rightarrow> nat \<Rightarrow> nat \<Rightarrow> nat" where
  "top_loop sc j best =
    (if j < length sc then top_loop sc (j + 1) (if sc ! j > sc ! best then j else best)
     else best)"
  by pat_completeness auto
termination
  by (relation "measure (\<lambda>(sc, j, best). length sc - j)") auto

definition top_hit :: "real list \<Rightarrow> nat list \<times> int" where
  "top_hit sc = ([top_loop sc 1 0], 1)"

definition candidates ::
  "int \<Rightarrow> int list \<Rightarrow> real list \<Rightarrow> nat list \<Rightarrow> (nat list \<times> int) option" where
  "candidates otype st sc org =
    (if otype = 1 then all_hits org sc
     else if otype = 2 then Some (hit_per_target st sc)
     else Some (top_hit sc))"

definition min_filter ::
  "real option \<Rightarrow> real \<Rightarrow> int list \<Rightarrow> int \<Rightarrow> int list \<Rightarrow> real list \<Rightarrow> nat list \<Rightarrow> int \<Rightarrow> nat list" where
  "min_filter minS tot pos step st sc res c =
    filter (\<lambda>r. case minS of
                  None \<Rightarrow> sc ! r \<ge> ln ((tot - real_of_int (pos ! nat (st ! r - 1))) / real_of_int step)
                | Some m \<Rightarrow> sc ! r \<ge> m)
      (take (nat c) res)"

declare maxOrigin_loop.simps [simp del] keep_loop.simps [simp del]
  target_loop.simps [simp del] top_loop.simps [simp del]

section \<open>Anchor traceback\<close>

partial_function (option) chain_length :: "nat list \<Rightarrow> nat \<Rightarrow> int \<Rightarrow> int option" where
  "chain_length chn p k =
    (if p \<noteq> chn ! p then chain_length chn (chn ! p) (k + 1) else Some k)"

definition quad :: "hits \<Rightarrow> nat \<Rightarrow> int list" where
  "quad h p = [posQuery h ! p, posQuery h ! p + len h ! p - 1,
               posTarget h ! p, posTarget h ! p + len h ! p - 1]"

partial_function (option) anchor_loop :: "hits \<Rightarrow> nat list \<Rightarrow> nat \<Rightarrow> int list \<Rightarrow> int list option" where
  "anchor_loop h chn p anchor =
    (if p \<noteq> chn ! p then anchor_loop h chn (chn ! p) (anchor @ quad h (chn ! p))
     else Some anchor)"

declare chain_length.simps [code] anchor_loop.simps [code]

definition anchor_of :: "hits \<Rightarrow> nat list \<Rightarrow> nat \<Rightarrow> int list option" where
  "anchor_of h chn r =
    (case chain_length chn r 1 of
       None \<Rightarrow> None
     | Some k \<Rightarrow> anchor_loop h chn r (k # quad h r))"

function reverse_anchor :: "int list \<Rightarrow> int \<Rightarrow> int list \<Rightarrow> int list" where
  "reverse_anchor anchor c rans =
    (if c > 0 then
       reverse_anchor anchor (c - 1)
         (rans @ [anchor ! nat (4 * c - 3), anchor ! nat (4 * c - 2),
                  anchor ! nat (4 * c - 1), anchor ! nat (4 * c)])
     else rans)"
  by pat_completeness auto
termination
  by (relation "measure (\<lambda>(anchor, c, rans). nat c)") auto

definition anchor_matrix :: "int list \<Rightarrow> int list" where
  "anchor_matrix anchor = reverse_anchor anchor (anchor ! 0) []"

declare reverse_anchor.simps [simp del]

section \<open>The per-query pipeline and the driver\<close>

datatype query_out = Overflow | NoHits | Result "int list" "real list" "int list list"

record index =
  ix_num :: "int list"
  ix_loc :: "int list"
  ix_ind :: "int list"
  ix_pos :: "int list"

record params =
  p_wordSize :: int
  p_stepSize :: int
  p_logFreqs :: "real list"
  p_sepC :: real
  p_gapC :: real
  p_out_type :: int
  p_total :: real
  p_minScore :: "real option"
  p_scoreOnly :: int

definition query_hits :: "params \<Rightarrow> index \<Rightarrow> int list \<Rightarrow> int list \<Rightarrow> hits" where
  "query_hits pr ix counts w =
    (let L = length (ix_num ix);
         (scores, addScores) = score_tables (p_logFreqs pr) L (nat (p_wordSize pr)) (p_stepSize pr);
         r0 = gather w counts (offsets (ix_num ix)) (ix_loc ix) (ix_ind ix) scores addScores;
         o1 = merge_sort (rset r0) (rposTarget r0) counts;
         r = reorder o1 r0
     in resize r (collapse r (p_wordSize pr) (p_stepSize pr)))"

definition perQuery :: "params \<Rightarrow> index \<Rightarrow> int list \<Rightarrow> query_out option" where
  "perQuery pr ix w =
    (let width = query_width w (p_wordSize pr);
         (counts, s, abort) = count_loop w (ix_num ix) 0 [] 0
     in if abort then Some Overflow
        else if width = 0 \<or> s = 0 then Some NoHits
        else
          (let h = query_hits pr ix counts w;
               st = chainDP h (mk_costs (length (ix_num ix)) (p_sepC pr) (p_gapC pr));
               sc = correct_scores h (ix_pos ix) (p_stepSize pr) width st
           in case candidates (p_out_type pr) (tset h) sc (origin st) of
                None \<Rightarrow> None
              | Some (res, c) \<Rightarrow>
                  (let res' = min_filter (p_minScore pr) (p_total pr) (ix_pos ix) (p_stepSize pr)
                                (tset h) sc res c;
                       set2 = map (\<lambda>r. tset h ! r) res';
                       score2 = map (\<lambda>r. sc ! r) res'
                   in if p_scoreOnly pr = 0
                      then (case those (map (anchor_of h (chain st)) res') of
                              None \<Rightarrow> None
                            | Some anchors \<Rightarrow> Some (Result set2 score2 anchors))
                      else Some (Result set2 score2 []))))"

datatype search_error = UserInterrupt | TooManyHits int

record search_out =
  queryId :: "int list"
  targetId :: "int list"
  out_score :: "real list"
  out_anchors :: "int list list"

text \<open>The loop over the queries as one thread runs it, which is how the code is compiled
  without OpenMP.  \<open>poll i\<close> tells whether the timer has run out when query \<open>i\<close> is done and, if
  so, what \<open>checkInterrupt\<close> returns.\<close>

function search_loop ::
  "(nat \<Rightarrow> int option) \<Rightarrow> params \<Rightarrow> index \<Rightarrow> int list list \<Rightarrow> nat \<Rightarrow> int \<Rightarrow> search_out
     \<Rightarrow> (int \<times> search_out) option" where
  "search_loop poll pr ix query i abort out =
    (if i < length query then
       (if abort = 0 then
          (case perQuery pr ix (query ! i) of
             None \<Rightarrow> None
           | Some Overflow \<Rightarrow> search_loop poll pr ix query (i + 1) (int i + 1) out
           | Some NoHits \<Rightarrow> search_loop poll pr ix query (i + 1) abort out
           | Some (Result set2 score2 anchors) \<Rightarrow>
               search_loop poll pr ix query (i + 1)
                 (case poll i of None \<Rightarrow> abort | Some a \<Rightarrow> a)
                 (out\<lparr>queryId := queryId out @ replicate (length set2) (int i + 1),
                      targetId := targetId out @ set2,
                      out_score := out_score out @ score2,
                      out_anchors := out_anchors out @ map anchor_matrix anchors\<rparr>))
        else search_loop poll pr ix query (i + 1) abort out)
     else Some (abort, out))"
  by pat_completeness auto
termination
  by (relation "measure (\<lambda>(poll, pr, ix, query, i, abort, out). length query - i)") auto

definition searchIndex ::
  "(nat \<Rightarrow> int option) \<Rightarrow> params \<Rightarrow> index \<Rightarrow> int list list \<Rightarrow> (search_error + search_out) option" where
  "searchIndex poll pr ix query =
    (case search_loop poll pr ix query 0 0
            \<lparr>queryId = [], targetId = [], out_score = [], out_anchors = []\<rparr> of
       None \<Rightarrow> None
     | Some (abort, out) \<Rightarrow>
         if abort \<noteq> 0
         then Some (Inl (if abort < 0 then UserInterrupt else TooManyHits abort))
         else Some (Inr out))"

declare search_loop.simps [simp del]

text \<open>The same loop as OpenMP runs it on several threads with \<open>schedule(dynamic)\<close>.  A thread
  takes the next iteration and reads the shared flag \<open>abort\<close>; later it ends the iteration: on
  overflow it stores \<open>abort = i + 1\<close>, otherwise it stores its results, after which the master
  thread (thread 0) stores \<open>abort = checkInterrupt()\<close> when its timer has run out.  An execution
  is the order in which the threads take these two steps; the result arrays are assembled
  from the per-query slots once all iterations have ended.\<close>

datatype par_event = Take nat | Done nat

record par_state =
  ps_abort :: int
  ps_next :: nat
  ps_busy :: "nat option list"
  ps_slot :: "query_out list"

definition par_step ::
  "(nat \<Rightarrow> int option) \<Rightarrow> params \<Rightarrow> index \<Rightarrow> int list list \<Rightarrow> par_event \<Rightarrow> par_state
     \<Rightarrow> par_state option" where
  "par_step poll pr ix query ev st =
    (case ev of
       Take t \<Rightarrow>
         if t < length (ps_busy st) \<and> ps_busy st ! t = None \<and> ps_next st < length query
         then Some (if ps_abort st = 0
                    then st\<lparr>ps_next := ps_next st + 1,
                            ps_busy := (ps_busy st)[t := Some (ps_next st)]\<rparr>
                    else st\<lparr>ps_next := ps_next st + 1,
                            ps_slot := (ps_slot st)[ps_next st := NoHits]\<rparr>)
         else None
     | Done t \<Rightarrow>
         if t < length (ps_busy st) then
           (case ps_busy st ! t of
              None \<Rightarrow> None
            | Some i \<Rightarrow>
                (case perQuery pr ix (query ! i) of
                   None \<Rightarrow> None
                 | Some Overflow \<Rightarrow>
                     Some (st\<lparr>ps_abort := int i + 1, ps_busy := (ps_busy st)[t := None],
                              ps_slot := (ps_slot st)[i := NoHits]\<rparr>)
                 | Some NoHits \<Rightarrow>
                     Some (st\<lparr>ps_busy := (ps_busy st)[t := None],
                              ps_slot := (ps_slot st)[i := NoHits]\<rparr>)
                 | Some (Result set2 score2 anchors) \<Rightarrow>
                     Some (st\<lparr>ps_abort :=
                                (if t = 0 then (case poll i of None \<Rightarrow> ps_abort st | Some a \<Rightarrow> a)
                                 else ps_abort st),
                              ps_busy := (ps_busy st)[t := None],
                              ps_slot := (ps_slot st)[i := Result set2 score2 anchors]\<rparr>)))
         else None)"

fun par_run ::
  "(nat \<Rightarrow> int option) \<Rightarrow> params \<Rightarrow> index \<Rightarrow> int list list \<Rightarrow> par_event list \<Rightarrow> par_state
     \<Rightarrow> par_state option" where
  "par_run poll pr ix query [] st = Some st"
| "par_run poll pr ix query (ev # evs) st =
    (case par_step poll pr ix query ev st of
       None \<Rightarrow> None
     | Some st' \<Rightarrow> par_run poll pr ix query evs st')"

fun collect :: "query_out list \<Rightarrow> nat \<Rightarrow> search_out \<Rightarrow> search_out" where
  "collect [] i out = out"
| "collect (r # rs) i out =
    collect rs (i + 1)
      (case r of
         Result set2 score2 anchors \<Rightarrow>
           out\<lparr>queryId := queryId out @ replicate (length set2) (int i + 1),
               targetId := targetId out @ set2,
               out_score := out_score out @ score2,
               out_anchors := out_anchors out @ map anchor_matrix anchors\<rparr>
       | _ \<Rightarrow> out)"

definition searchIndex_par ::
  "nat \<Rightarrow> (nat \<Rightarrow> int option) \<Rightarrow> params \<Rightarrow> index \<Rightarrow> int list list \<Rightarrow> par_event list
     \<Rightarrow> (search_error + search_out) option" where
  "searchIndex_par nthreads poll pr ix query evs =
    (case par_run poll pr ix query evs
            \<lparr>ps_abort = 0, ps_next = 0, ps_busy = replicate nthreads None,
             ps_slot = replicate (length query) NoHits\<rparr> of
       None \<Rightarrow> None
     | Some st \<Rightarrow>
         if ps_next st = length query \<and> list_all (\<lambda>b. b = None) (ps_busy st)
         then (if ps_abort st \<noteq> 0
               then Some (Inl (if ps_abort st < 0 then UserInterrupt else TooManyHits (ps_abort st)))
               else Some (Inr (collect (ps_slot st) 0
                      \<lparr>queryId = [], targetId = [], out_score = [], out_anchors = []\<rparr>)))
         else None)"


section \<open>Building the inverted index\<close>

datatype build_error = IncorrectContext | Interrupted

text \<open>The counts are C \<open>int\<close>s: \<open>rans[kmers[j]]++\<close> and \<open>j += s\<close> wrap at 32 bits; reading
  \<open>kmers\<close> at a negative index is undefined.\<close>

partial_function (option) count_seq :: "int list \<Rightarrow> int \<Rightarrow> int \<Rightarrow> int list \<Rightarrow> int list option" where
  "count_seq kmers s j rans =
    (if j < int (length kmers) then
       (if j < 0 then None
        else if kmers ! nat j \<noteq> NA_INTEGER
        then count_seq kmers s (wrap32 (j + s))
               (rans[nat (kmers ! nat j) := wrap32 (rans ! nat (kmers ! nat j) + 1)])
        else count_seq kmers s (wrap32 (j + s)) rans)
     else Some rans)"

function count_seqs ::
  "(nat \<Rightarrow> int option) \<Rightarrow> int list list \<Rightarrow> int \<Rightarrow> nat \<Rightarrow> int list
     \<Rightarrow> (build_error + int list) option" where
  "count_seqs poll query s i rans =
    (if i < length query then
       (case count_seq (query ! i) s 0 rans of
          None \<Rightarrow> None
        | Some rans' \<Rightarrow>
            (case poll i of
               None \<Rightarrow> count_seqs poll query s (i + 1) rans'
             | Some abort \<Rightarrow>
                 if abort \<noteq> 0 then Some (Inl Interrupted)
                 else count_seqs poll query s (i + 1) rans'))
     else Some (Inr rans))"
  by pat_completeness auto
termination
  by (relation "measure (\<lambda>(poll, query, s, i, rans). length query - i)") auto

definition countIndex ::
  "bool \<Rightarrow> (nat \<Rightarrow> int option) \<Rightarrow> int list \<Rightarrow> int list list \<Rightarrow> int
     \<Rightarrow> (build_error + int list) option" where
  "countIndex shared poll num0 query step =
    (if shared then Some (Inl IncorrectContext) else count_seqs poll query step 0 num0)"

record build_state =
  b_off :: "int list"
  b_loc :: "int list"
  b_ind :: "int list"
  b_pos :: "int list"

function positions_loop :: "int list \<Rightarrow> int \<Rightarrow> int \<Rightarrow> nat \<Rightarrow> int \<Rightarrow> int \<Rightarrow> int" where
  "positions_loop kmers K s j k acc =
    (if j < length kmers then
       (if kmers ! j \<noteq> NA_INTEGER
        then positions_loop kmers K s (j + 1) (int j)
               (if k = int j - s then wrap32 (acc + s) else wrap32 (acc + K))
        else positions_loop kmers K s (j + 1) k acc)
     else acc)"
  by pat_completeness auto
termination
  by (relation "measure (\<lambda>(kmers, K, s, j, k, acc). length kmers - j)") auto

text \<open>The offsets are doubles holding integers.  \<open>off[k]++\<close> is exact below \<open>2\<^sup>5\<^sup>3\<close>; from
  there on the sum is rounded to the nearest double, ties to the even significand.\<close>

definition dbl_succ :: "int \<Rightarrow> int" where
  "dbl_succ x =
    (if - 9007199254740992 \<le> x \<and> x < 9007199254740992 then x + 1
     else if \<bar>x\<bar> \<le> 18014398509481984 \<and> odd (x div 2) then x + 2 else x)"

partial_function (option) update_seq ::
  "int list \<Rightarrow> int \<Rightarrow> int \<Rightarrow> int \<Rightarrow> build_state \<Rightarrow> build_state option" where
  "update_seq kmers s c j b =
    (if j < int (length kmers) then
       (if j < 0 then None
        else
          (let k = kmers ! nat j in
           if k \<noteq> NA_INTEGER
           then update_seq kmers s c (wrap32 (j + s))
                  (b\<lparr>b_ind := (b_ind b)[nat (b_off b ! nat k) := c],
                     b_loc := (b_loc b)[nat (b_off b ! nat k) := j + 1],
                     b_off := (b_off b)[nat k := dbl_succ (b_off b ! nat k)]\<rparr>)
           else update_seq kmers s c (wrap32 (j + s)) b))
     else Some b)"

text \<open>\<open>c0\<close> is the count the call starts from (the \<open>positions\<close> array is read from there on),
  \<open>c\<close> the running target id, a C \<open>int\<close> incremented once per sequence.\<close>

function update_seqs ::
  "(nat \<Rightarrow> int option) \<Rightarrow> int list list \<Rightarrow> int \<Rightarrow> int \<Rightarrow> int \<Rightarrow> int \<Rightarrow> nat \<Rightarrow> build_state
     \<Rightarrow> (build_error + build_state) option" where
  "update_seqs poll query K s c0 c i b =
    (if i < length query then
       (let c1 = wrap32 (c + 1);
            kmers = query ! i;
            b1 = b\<lparr>b_pos := (b_pos b)[nat (c0 + int i) :=
                    positions_loop kmers K s 0 (- 1 * s - 1) (b_pos b ! nat (c0 + int i))]\<rparr>
        in case update_seq kmers s c1 0 b1 of
             None \<Rightarrow> None
           | Some b2 \<Rightarrow>
               (case poll i of
                  None \<Rightarrow> update_seqs poll query K s c0 c1 (i + 1) b2
                | Some abort \<Rightarrow>
                    if abort \<noteq> 0 then Some (Inl Interrupted)
                    else update_seqs poll query K s c0 c1 (i + 1) b2))
     else Some (Inr b))"
  by pat_completeness auto
termination
  by (relation "measure (\<lambda>(poll, query, K, s, c0, c, i, b). length query - i)") auto

definition updateIndex ::
  "bool \<Rightarrow> (nat \<Rightarrow> int option) \<Rightarrow> build_state \<Rightarrow> int list list \<Rightarrow> int \<Rightarrow> int \<Rightarrow> int
     \<Rightarrow> (build_error + build_state) option" where
  "updateIndex shared poll b query wordSize step count =
    (if shared then Some (Inl IncorrectContext)
     else update_seqs poll query wordSize step count count 0 b)"

declare count_seq.simps [code] update_seq.simps [code]
declare count_seqs.simps [simp del] positions_loop.simps [simp del] update_seqs.simps [simp del]

definition spec_dp_step :: "hits \<Rightarrow> costs \<Rightarrow> nat \<Rightarrow> nat \<Rightarrow> dp_state \<Rightarrow> dp_state" where
  "spec_dp_step h cs k p st =
    (let deltaT = posTarget h ! k - posTarget h ! p - len h ! p in
     if deltaT > maxSep cs then st\<lparr>j_left := p\<rparr>
     else if deltaT \<ge> 0 then
       (let deltaQ = posQuery h ! k - posQuery h ! p - len h ! p in
        if deltaQ \<ge> 0 \<and> deltaQ \<le> maxSep cs then
          (let cand = score st ! p + score st ! k + gapCost cs ! nat \<bar>deltaQ - deltaT\<bar>
                        + sepCost cs ! nat (min deltaQ deltaT) in
           if cand > score st ! k then
             st\<lparr>score := (score st)[k := cand],
                chain := (chain st)[k := p],
                origin := (origin st)[k := origin st ! p],
                cov := (cov st)[k := len h ! k - 1 + cov st ! p]\<rparr>
           else st)
        else st)
     else st)"

function spec_dp_inner :: "hits \<Rightarrow> costs \<Rightarrow> nat \<Rightarrow> nat \<Rightarrow> dp_state \<Rightarrow> dp_state" where
  "spec_dp_inner h cs k p st =
    (if p < k then spec_dp_inner h cs k (p + 1) (spec_dp_step h cs k p st) else st)"
  by pat_completeness auto
termination
  by (relation "measure (\<lambda>(h, cs, k, p, st). k - p)") auto

function spec_dp_outer :: "hits \<Rightarrow> costs \<Rightarrow> nat \<Rightarrow> nat \<Rightarrow> dp_state \<Rightarrow> dp_state" where
  "spec_dp_outer h cs s k st =
    (if k < s then
       spec_dp_outer h cs s (k + 1)
         (if tset h ! k \<noteq> tset h ! j_left st then st\<lparr>j_left := k\<rparr>
          else spec_dp_inner h cs k (j_left st) st)
     else st)"
  by pat_completeness auto
termination
  by (relation "measure (\<lambda>(h, cs, s, k, st). s - k)") auto

definition spec_chainDP :: "hits \<Rightarrow> costs \<Rightarrow> dp_state" where
  "spec_chainDP h cs = spec_dp_outer h cs (length (tset h)) 1 (dp_init h)"

declare spec_dp_inner.simps [simp del] spec_dp_outer.simps [simp del]

definition dp_cand :: "hits \<Rightarrow> costs \<Rightarrow> nat \<Rightarrow> real \<Rightarrow> nat \<Rightarrow> dp_state \<Rightarrow> real" where
  "dp_cand h cs k prevScore p st =
    (let dT = posTarget h ! k - posTarget h ! p - len h ! p;
         dQ = posQuery h ! k - posQuery h ! p - len h ! p in
     score st ! p + prevScore + gapCost cs ! nat \<bar>dQ - dT\<bar> + sepCost cs ! nat (min dQ dT))"

definition dp_eligible :: "hits \<Rightarrow> costs \<Rightarrow> nat \<Rightarrow> nat \<Rightarrow> bool" where
  "dp_eligible h cs k p =
    (let dT = posTarget h ! k - posTarget h ! p - len h ! p;
         dQ = posQuery h ! k - posQuery h ! p - len h ! p in
     0 \<le> dT \<and> dT \<le> maxSep cs \<and> 0 \<le> dQ \<and> dQ \<le> maxSep cs)"

definition dp_link :: "hits \<Rightarrow> real \<Rightarrow> nat \<Rightarrow> nat \<Rightarrow> dp_state \<Rightarrow> dp_state" where
  "dp_link h c k p st =
     st\<lparr>score := (score st)[k := c], chain := (chain st)[k := p],
        origin := (origin st)[k := origin st ! p],
        cov := (cov st)[k := len h ! k - 1 + cov st ! p]\<rparr>"


lemma gap_sep_eq:
  "(if (dQ::int) > dT then (dQ - dT, dT) else (dT - dQ, dQ)) = (\<bar>dQ - dT\<bar>, min dQ dT)"
  by auto

lemma dp_step_cases:
  "dp_step h cs k prevScore p st =
    (if dp_eligible h cs k p \<and> score st ! k < score st ! p + prevScore
        \<and> score st ! k < dp_cand h cs k prevScore p st
     then dp_link h (dp_cand h cs k prevScore p st) k p st
     else if maxSep cs < posTarget h ! k - posTarget h ! p - len h ! p
     then st\<lparr>j_left := p\<rparr> else st)"
  unfolding dp_step_def dp_eligible_def dp_cand_def dp_link_def Let_def gap_sep_eq prod.case
  by auto


definition link_ok :: "hits \<Rightarrow> costs \<Rightarrow> dp_state \<Rightarrow> nat \<Rightarrow> bool" where
  "link_ok h cs st i =
    (if chain st ! i = i
     then score st ! i = score0 h ! i \<and> origin st ! i = i \<and> cov st ! i = len h ! i - 1
     else chain st ! i < i \<and> dp_eligible h cs i (chain st ! i) \<and>
          score st ! i = dp_cand h cs i (score0 h ! i) (chain st ! i) st \<and>
          score0 h ! i < score st ! i \<and>
          origin st ! i = origin st ! (chain st ! i) \<and>
          cov st ! i = len h ! i - 1 + cov st ! (chain st ! i))"

definition dp_inv :: "hits \<Rightarrow> costs \<Rightarrow> dp_state \<Rightarrow> nat \<Rightarrow> bool" where
  "dp_inv h cs st k =
    (let s = length (tset h) in
     length (score st) = s \<and> length (chain st) = s \<and> length (origin st) = s \<and>
     length (cov st) = s \<and>
     (\<forall>i<s. link_ok h cs st i) \<and>
     (\<forall>i<s. k < i \<longrightarrow> chain st ! i = i) \<and>
     (\<forall>i<s. origin st ! i \<le> i \<and> origin st ! (origin st ! i) = origin st ! i))"

lemma link_ok_j_left [simp]: "link_ok h cs (st\<lparr>j_left := p\<rparr>) i = link_ok h cs st i"
  by (simp add: link_ok_def dp_cand_def)

lemma dp_inv_j_left [simp]: "dp_inv h cs (st\<lparr>j_left := p\<rparr>) k = dp_inv h cs st k"
  by (simp add: dp_inv_def)

lemma dp_inv_chain_le:
  assumes "dp_inv h cs st k" "i < length (tset h)"
  shows "chain st ! i \<le> i"
proof -
  from assms have "link_ok h cs st i" by (simp add: dp_inv_def Let_def)
  then show ?thesis by (cases "chain st ! i = i") (simp_all add: link_ok_def)
qed

lemma dp_inv_score_ge:
  assumes "dp_inv h cs st k" "i < length (tset h)"
  shows "score0 h ! i \<le> score st ! i"
proof -
  from assms have "link_ok h cs st i" by (simp add: dp_inv_def Let_def)
  then show ?thesis by (cases "chain st ! i = i") (simp_all add: link_ok_def)
qed

lemma dp_link_sel [simp]:
  "score (dp_link h c k p st) = (score st)[k := c]"
  "chain (dp_link h c k p st) = (chain st)[k := p]"
  "origin (dp_link h c k p st) = (origin st)[k := origin st ! p]"
  "cov (dp_link h c k p st) = (cov st)[k := len h ! k - 1 + cov st ! p]"
  by (simp_all add: dp_link_def)

lemma dp_cand_link_other:
  "q \<noteq> k \<Longrightarrow> dp_cand h cs i ps q (dp_link h c k p st) = dp_cand h cs i ps q st"
  by (simp add: dp_cand_def)

lemma link_ok_other:
  assumes ok: "link_ok h cs st i" and ik: "i \<noteq> k" and ck: "chain st ! i \<noteq> k"
  shows "link_ok h cs (dp_link h c k p st) i"
  using ok ik ck
  by (cases "chain st ! i = i") (simp_all add: link_ok_def dp_cand_link_other)

lemma dp_link_inv:
  assumes inv: "dp_inv h cs st k" and pk: "p < k" and ks: "k < length (tset h)"
    and el: "dp_eligible h cs k p"
    and gt: "score st ! k < dp_cand h cs k (score0 h ! k) p st"
  shows "dp_inv h cs (dp_link h (dp_cand h cs k (score0 h ! k) p st) k p st) k"
proof -
  let ?s = "length (tset h)"
  let ?c = "dp_cand h cs k (score0 h ! k) p st"
  let ?st = "dp_link h ?c k p st"
  from inv have lens: "length (score st) = ?s" "length (chain st) = ?s"
      "length (origin st) = ?s" "length (cov st) = ?s"
    and oks: "\<And>i. i < ?s \<Longrightarrow> link_ok h cs st i"
    and fresh: "\<And>i. i < ?s \<Longrightarrow> k < i \<Longrightarrow> chain st ! i = i"
    and org: "\<And>i. i < ?s \<Longrightarrow> origin st ! i \<le> i \<and> origin st ! (origin st ! i) = origin st ! i"
    by (simp_all add: dp_inv_def Let_def)
  have ps: "p < ?s" using pk ks by simp
  have chain_ne: "chain st ! i \<noteq> k" if "i < ?s" "i \<noteq> k" for i
  proof (cases "i < k")
    case True
    with dp_inv_chain_le [OF inv that(1)] show ?thesis by simp
  next
    case False
    with that have "k < i" by simp
    with fresh that show ?thesis by simp
  qed
  have org_ne: "origin st ! i \<noteq> k" if "i < ?s" "i \<noteq> k" for i
  proof (cases "i < k")
    case True
    with org [OF that(1)] show ?thesis by simp
  next
    case False
    with that have ki: "k < i" by simp
    with fresh that have "chain st ! i = i" by simp
    with oks [OF that(1)] have "origin st ! i = i" by (simp add: link_ok_def)
    with that show ?thesis by simp
  qed
  have ge: "score0 h ! k \<le> score st ! k" by (rule dp_inv_score_ge [OF inv ks])
  have okk: "link_ok h cs ?st k"
    using pk ks ps el gt ge lens
    by (simp add: link_ok_def dp_cand_link_other)
  have ok': "link_ok h cs ?st i" if "i < ?s" for i
  proof (cases "i = k")
    case True
    with okk show ?thesis by simp
  next
    case False
    from link_ok_other [OF oks [OF that] False chain_ne [OF that False]]
    show ?thesis .
  qed
  have fresh': "chain ?st ! i = i" if "i < ?s" "k < i" for i
    using fresh [OF that] that by simp
  have org': "origin ?st ! i \<le> i \<and> origin ?st ! (origin ?st ! i) = origin ?st ! i"
    if "i < ?s" for i
  proof (cases "i = k")
    case True
    have "origin st ! p \<le> p" and "origin st ! (origin st ! p) = origin st ! p"
      using org [OF ps] by simp_all
    then show ?thesis using True pk ks lens by simp
  next
    case False
    have "origin st ! i \<noteq> k" by (rule org_ne [OF that False])
    then show ?thesis using False org [OF that] by simp
  qed
  show ?thesis
    unfolding dp_inv_def Let_def
    using ok' fresh' org' lens by simp
qed

lemma dp_step_inv:
  assumes "dp_inv h cs st k" "p < k" "k < length (tset h)"
  shows "dp_inv h cs (dp_step h cs k (score0 h ! k) p st) k"
  using assms by (simp add: dp_step_cases dp_link_inv)

lemma dp_inner_inv:
  "dp_inv h cs st k \<Longrightarrow> k < length (tset h) \<Longrightarrow>
   dp_inv h cs (dp_inner h cs k (score0 h ! k) p st) k"
proof (induction h cs k "score0 h ! k" p st rule: dp_inner.induct)
  case (1 h cs k p st)
  show ?case
  proof (cases "p < k")
    case True
    then show ?thesis
      using 1 by (subst dp_inner.simps) (simp add: dp_step_inv)
  next
    case False
    then show ?thesis using 1 by (subst dp_inner.simps) simp
  qed
qed

lemma dp_inv_mono: "dp_inv h cs st k \<Longrightarrow> k \<le> k' \<Longrightarrow> dp_inv h cs st k'"
  by (auto simp: dp_inv_def Let_def)

lemma dp_inv_fresh_score:
  assumes "dp_inv h cs st k" "k < i" "i < length (tset h)"
  shows "score st ! i = score0 h ! i"
proof -
  from assms have "link_ok h cs st i" "chain st ! i = i" by (simp_all add: dp_inv_def Let_def)
  then show ?thesis by (simp add: link_ok_def)
qed

lemma dp_outer_inv:
  "dp_inv h cs st (k - 1) \<Longrightarrow> s = length (tset h) \<Longrightarrow> dp_inv h cs (dp_outer h cs s k st) (s - 1)"
proof (induction h cs s k st rule: dp_outer.induct)
  case (1 h cs s k st)
  show ?case
  proof (cases "k < s")
    case False
    then have "dp_outer h cs s k st = st" by (subst dp_outer.simps) simp
    moreover have "dp_inv h cs st (s - 1)"
      using False "1.prems" by (auto simp: dp_inv_def Let_def)
    ultimately show ?thesis by simp
  next
    case True
    let ?st = "if tset h ! k \<noteq> tset h ! j_left st then st\<lparr>j_left := k\<rparr>
               else dp_inner h cs k (score st ! k) (j_left st) st"
    have invk: "dp_inv h cs st k" using "1.prems"(1) by (rule dp_inv_mono) simp
    have "dp_inv h cs ?st k"
    proof (cases "tset h ! k \<noteq> tset h ! j_left st")
      case True
      then show ?thesis using invk by simp
    next
      case False
      have sc: "score st ! k = score0 h ! k"
      proof (cases "k = 0")
        case True
        have "link_ok h cs st 0" "chain st ! 0 \<le> 0"
          using invk \<open>k < s\<close> True "1.prems"(2) dp_inv_chain_le [OF invk, of 0]
          by (simp_all add: dp_inv_def Let_def)
        then show ?thesis using True by (simp add: link_ok_def)
      next
        case False
        then have "k - 1 < k" by simp
        from dp_inv_fresh_score [OF "1.prems"(1) this] \<open>k < s\<close> "1.prems"(2)
        show ?thesis by simp
      qed
      from False show ?thesis
        using dp_inner_inv [OF invk, of "j_left st"] \<open>k < s\<close> "1.prems"(2) sc by simp
    qed
    then have "dp_inv h cs ?st (k + 1 - 1)" by simp
    from "1.IH" [OF True this "1.prems"(2)]
    show ?thesis using True by (subst dp_outer.simps) simp
  qed
qed

lemma dp_init_inv: "length (len h) = length (tset h) \<Longrightarrow> length (score0 h) = length (tset h) \<Longrightarrow>
  dp_inv h cs (dp_init h) 0"
  by (simp add: dp_inv_def dp_init_def link_ok_def)

lemma chainDP_inv:
  assumes "length (len h) = length (tset h)" "length (score0 h) = length (tset h)"
  shows "dp_inv h cs (chainDP h cs) (length (tset h) - 1)"
  unfolding chainDP_def
  using dp_outer_inv [of h cs "dp_init h" 1 "length (tset h)"] dp_init_inv [OF assms]
  by simp


definition wf_hits :: "hits \<Rightarrow> bool" where
  "wf_hits h = (length (posQuery h) = length (tset h) \<and> length (posTarget h) = length (tset h) \<and>
     length (len h) = length (tset h) \<and> length (score0 h) = length (tset h))"

lemma chainDP_inv':
  "wf_hits h \<Longrightarrow> dp_inv h cs (chainDP h cs) (length (tset h) - 1)"
  using chainDP_inv [of h cs] by (simp add: wf_hits_def)

lemma chainDP_link_ok:
  "wf_hits h \<Longrightarrow> i < length (tset h) \<Longrightarrow> link_ok h cs (chainDP h cs) i"
  using chainDP_inv' [of h cs] by (simp add: dp_inv_def Let_def)

lemma chainDP_lengths:
  assumes "wf_hits h"
  shows "length (score (chainDP h cs)) = length (tset h)"
    "length (chain (chainDP h cs)) = length (tset h)"
    "length (origin (chainDP h cs)) = length (tset h)"
    "length (cov (chainDP h cs)) = length (tset h)"
  using chainDP_inv' [OF assms, of cs] by (simp_all add: dp_inv_def Let_def)

lemma chainDP_origin:
  "wf_hits h \<Longrightarrow> i < length (tset h) \<Longrightarrow>
   origin (chainDP h cs) ! i \<le> i \<and>
   origin (chainDP h cs) ! (origin (chainDP h cs) ! i) = origin (chainDP h cs) ! i"
  using chainDP_inv' [of h cs] by (simp add: dp_inv_def Let_def)


definition c1_hits :: hits where
  "c1_hits = \<lparr>posQuery = [1, 5, 9], posTarget = [1, 5, 9], tset = [1, 1, 1],
     len = [3, 3, 3], score0 = [5, 5, 5]\<rparr>"

definition c1_costs :: costs where
  "c1_costs = \<lparr>maxSep = 8, gapCost = [0, 0, 0, 0, 0, 0, 0, 0, 0],
     sepCost = [0, 0, 0, 0, 0, 0, 0, 0, 0]\<rparr>"

lemma c1_chainDP:
  "chainDP c1_hits c1_costs =
     \<lparr>j_left = 0, score = [5, 10, 15], chain = [0, 0, 1], origin = [0, 0, 0], cov = [2, 4, 6]\<rparr>"
  by (simp add: chainDP_def dp_init_def c1_hits_def c1_costs_def dp_outer.simps dp_inner.simps
      dp_step_def)

text \<open>
  Claim C1, read as the specification words it: the candidate adds the array entry
  \<open>score[k]\<close> as it stands when \<open>p\<close> is examined. On three co-linear hits of one
  target the program ends with \<open>score[2] = 15\<close>, whereas that reading gives \<open>20\<close>:
  the program adds \<open>prevScore\<close>, the score hit \<open>k\<close> had before its predecessors were
  scanned.
\<close>

theorem dp_candidate_counterexample:
  "score (chainDP c1_hits c1_costs) ! 2 = 15 \<and> score (spec_chainDP c1_hits c1_costs) ! 2 = 20"
  by (simp add: c1_chainDP)
    (simp add: spec_chainDP_def dp_init_def c1_hits_def c1_costs_def spec_dp_outer.simps
      spec_dp_inner.simps spec_dp_step_def)

text \<open>
  Claim C1, amended. One examination of a predecessor \<open>p\<close> for hit \<open>k\<close> links the two
  exactly when both gaps \<open>deltaT\<close> and \<open>deltaQ\<close> lie in \<open>0..maxSep\<close>, the sum
  \<open>score[p] + prevScore\<close> exceeds the current \<open>score[k]\<close>, and the candidate
  \<open>score[p] + prevScore + gapCost[|deltaQ - deltaT|] + sepCost[min(deltaQ, deltaT)]\<close> exceeds
  it too; the link stores the candidate in \<open>score[k]\<close>, \<open>p\<close> in \<open>prev[k]\<close>,
  \<open>origin[p]\<close> in \<open>origin[k]\<close> and \<open>len[k] - 1 + cov[p]\<close> in \<open>cov[k]\<close>. Otherwise
  nothing but the left pointer changes. In the finished run every hit is either unlinked
  with its entry values or linked to an eligible earlier hit with exactly these values,
  where \<open>prevScore\<close> is the hit's score on entry to the chaining.
\<close>

theorem dp_link_rule:
  "dp_step h cs k prevScore p st =
     (if dp_eligible h cs k p \<and> score st ! k < score st ! p + prevScore
         \<and> score st ! k < dp_cand h cs k prevScore p st
      then st\<lparr>score := (score st)[k := dp_cand h cs k prevScore p st],
              chain := (chain st)[k := p],
              origin := (origin st)[k := origin st ! p],
              cov := (cov st)[k := len h ! k - 1 + cov st ! p]\<rparr>
      else if maxSep cs < posTarget h ! k - posTarget h ! p - len h ! p
      then st\<lparr>j_left := p\<rparr> else st)
   \<and> (wf_hits h \<and> k < length (tset h) \<longrightarrow> link_ok h cs (chainDP h cs) k)"
  by (simp add: dp_step_cases dp_link_def chainDP_link_ok)

theorem dp_link_rule_witness:
  "wf_hits c1_hits \<and> 2 < length (tset c1_hits) \<and>
   link_ok c1_hits c1_costs (chainDP c1_hits c1_costs) 2 \<and>
   chain (chainDP c1_hits c1_costs) ! 2 = 1 \<and>
   dp_step c1_hits c1_costs 2 5 1
     \<lparr>j_left = 0, score = [5, 10, 10], chain = [0, 0, 0], origin = [0, 0, 0], cov = [2, 4, 4]\<rparr>
   = \<lparr>j_left = 0, score = [5, 10, 15], chain = [0, 0, 1], origin = [0, 0, 0], cov = [2, 4, 6]\<rparr>"
proof -
  have wf: "wf_hits c1_hits" by (simp add: wf_hits_def c1_hits_def)
  have k: "2 < length (tset c1_hits)" by (simp add: c1_hits_def)
  note r = dp_link_rule [of c1_hits c1_costs 2 5 1
      "\<lparr>j_left = 0, score = [5, 10, 10], chain = [0, 0, 0], origin = [0, 0, 0], cov = [2, 4, 4]\<rparr>"]
  from r wf k have "link_ok c1_hits c1_costs (chainDP c1_hits c1_costs) 2" by blast
  moreover have "dp_step c1_hits c1_costs 2 5 1
     \<lparr>j_left = 0, score = [5, 10, 10], chain = [0, 0, 0], origin = [0, 0, 0], cov = [2, 4, 4]\<rparr>
   = \<lparr>j_left = 0, score = [5, 10, 15], chain = [0, 0, 1], origin = [0, 0, 0], cov = [2, 4, 6]\<rparr>"
    using conjunct1 [OF r] by (simp add: dp_eligible_def dp_cand_def c1_hits_def c1_costs_def)
  ultimately show ?thesis using wf k by (simp add: c1_chainDP)
qed

lemma floor_sqrt_table_nonneg:
  assumes "0 \<le> c" "i \<le> floor_sqrt L"
  shows "0 \<le> gapCost (mk_costs L sC c) ! i" "0 \<le> sepCost (mk_costs L c gC) ! i"
proof -
  have "i < length [0..<floor_sqrt L + 1]" using assms by simp
  then have "map f [0..<floor_sqrt L + 1] ! i = f i" for f :: "nat \<Rightarrow> real"
    by (simp del: upt_Suc)
  then show "0 \<le> gapCost (mk_costs L sC c) ! i" "0 \<le> sepCost (mk_costs L c gC) ! i"
    using assms by (simp_all add: mk_costs_def del: upt_Suc)
qed

text \<open>
  Claim C7. When every hit enters the chaining with a positive score (as sums of
  \<open>-log\<close> of letter frequencies below one are) and the cost tables are built from
  non-negative coefficients \<open>sepC\<close> and \<open>gapC\<close>, the score of every linked hit is
  strictly greater than the score of its predecessor: scores strictly increase along the
  \<open>prev\<close> links from the origin to the head of a chain.
\<close>

theorem chain_scores_increase:
  assumes wf: "wf_hits h"
    and pos: "\<forall>i<length (tset h). 0 < score0 h ! i"
    and sC: "0 \<le> sC" and gC: "0 \<le> gC"
    and k: "k < length (tset h)"
    and linked: "chain (chainDP h (mk_costs L sC gC)) ! k \<noteq> k"
  shows "score (chainDP h (mk_costs L sC gC)) ! (chain (chainDP h (mk_costs L sC gC)) ! k)
         < score (chainDP h (mk_costs L sC gC)) ! k"
proof -
  let ?cs = "mk_costs L sC gC"
  let ?st = "chainDP h ?cs"
  let ?p = "chain ?st ! k"
  let ?dT = "posTarget h ! k - posTarget h ! ?p - len h ! ?p"
  let ?dQ = "posQuery h ! k - posQuery h ! ?p - len h ! ?p"
  from chainDP_link_ok [OF wf k, of ?cs] linked
  have el: "dp_eligible h ?cs k ?p"
    and sc: "score ?st ! k = dp_cand h ?cs k (score0 h ! k) ?p ?st"
    by (simp_all add: link_ok_def)
  from el have b: "0 \<le> ?dT" "?dT \<le> int (floor_sqrt L)" "0 \<le> ?dQ" "?dQ \<le> int (floor_sqrt L)"
    by (simp_all add: dp_eligible_def Let_def mk_costs_def)
  then have "nat \<bar>?dQ - ?dT\<bar> \<le> floor_sqrt L" "nat (min ?dQ ?dT) \<le> floor_sqrt L"
    by linarith+
  then have "0 \<le> gapCost ?cs ! nat \<bar>?dQ - ?dT\<bar>" "0 \<le> sepCost ?cs ! nat (min ?dQ ?dT)"
    using floor_sqrt_table_nonneg sC gC by blast+
  moreover have "0 < score0 h ! k" using pos k by simp
  ultimately show ?thesis using sc by (simp add: dp_cand_def Let_def)
qed


lemma mk_costs_16: "mk_costs 16 0 0 = \<lparr>maxSep = 4, gapCost = [0, 0, 0, 0, 0], sepCost = [0, 0, 0, 0, 0]\<rparr>"
proof -
  have "floor_sqrt 16 = 4" by code_simp
  moreover have "[0..<5] = [0, 1, 2, 3, 4]" by code_simp
  ultimately show ?thesis by (simp add: mk_costs_def)
qed

lemma c1_chainDP_16:
  "chainDP c1_hits (mk_costs 16 0 0) =
     \<lparr>j_left = 0, score = [5, 10, 15], chain = [0, 0, 1], origin = [0, 0, 0], cov = [2, 4, 6]\<rparr>"
  by (simp add: mk_costs_16 chainDP_def dp_init_def c1_hits_def dp_outer.simps dp_inner.simps
      dp_step_def)

theorem chain_scores_increase_witness:
  "wf_hits c1_hits \<and> (2::nat) < length (tset c1_hits) \<and>
   chain (chainDP c1_hits (mk_costs 16 0 0)) ! 2 = 1 \<and>
   score (chainDP c1_hits (mk_costs 16 0 0)) ! 1 < score (chainDP c1_hits (mk_costs 16 0 0)) ! 2"
proof -
  have wf: "wf_hits c1_hits" by (simp add: wf_hits_def c1_hits_def)
  have pos: "\<forall>i<length (tset c1_hits). 0 < score0 c1_hits ! i"
    by (simp add: c1_hits_def less_Suc_eq numeral_3_eq_3)
  have k: "2 < length (tset c1_hits)" by (simp add: c1_hits_def)
  have l: "chain (chainDP c1_hits (mk_costs 16 0 0)) ! 2 \<noteq> 2" by (simp add: c1_chainDP_16)
  from chain_scores_increase [OF wf pos _ _ k l] wf k show ?thesis
    by (simp add: c1_chainDP_16)
qed

definition origin_ok :: "nat list \<Rightarrow> bool" where
  "origin_ok org = (\<forall>j<length org. org ! j \<le> j \<and> org ! (org ! j) = org ! j)"

definition earliest_best :: "nat list \<Rightarrow> real list \<Rightarrow> nat \<Rightarrow> nat \<Rightarrow> bool" where
  "earliest_best org sc n r =
    (r < n \<and> (\<forall>j<n. org ! j = org ! r \<longrightarrow> sc ! j < sc ! r \<or> (sc ! j = sc ! r \<and> r \<le> j)))"

definition latest_best :: "nat list \<Rightarrow> real list \<Rightarrow> nat \<Rightarrow> nat \<Rightarrow> bool" where
  "latest_best org sc n r =
    (r < n \<and> (\<forall>j<n. org ! j = org ! r \<longrightarrow> sc ! j < sc ! r \<or> (sc ! j = sc ! r \<and> j \<le> r)))"

definition mo_inv :: "nat list \<Rightarrow> real list \<Rightarrow> nat \<Rightarrow> int option list \<Rightarrow> bool" where
  "mo_inv org sc j mo =
    (length mo = length org \<and>
     (\<forall>i<j. if org ! i = i
            then (\<exists>r. mo ! i = Some (int r) \<and> earliest_best org sc j r \<and> org ! r = i)
            else mo ! i = Some NA_INTEGER))"

lemma NA_INTEGER_neg [simp]: "NA_INTEGER \<noteq> int r" "int r \<noteq> NA_INTEGER"
  by (simp_all add: NA_INTEGER_def)

lemma earliest_best_unique:
  "earliest_best org sc n r \<Longrightarrow> earliest_best org sc n r' \<Longrightarrow> org ! r = org ! r' \<Longrightarrow> r = r'"
  unfolding earliest_best_def by (metis less_irrefl order_antisym less_asym)

lemma mo_inv_root:
  assumes inv: "mo_inv org sc j mo" and ok: "origin_ok org" and j: "j < length org"
    and root: "org ! j = j"
  shows "mo_inv org sc (j + 1) (mo[j := Some (int j)])"
proof -
  have len: "length mo = length org" using inv by (simp add: mo_inv_def)
  have below: "org ! i \<noteq> j" if "i < j" for i
    using ok that j by (auto simp: origin_ok_def dest!: spec [of _ i])
  have "if org ! i = i
        then (\<exists>r. mo[j := Some (int j)] ! i = Some (int r) \<and> earliest_best org sc (j + 1) r \<and> org ! r = i)
        else mo[j := Some (int j)] ! i = Some NA_INTEGER" if i: "i < j + 1" for i
  proof (cases "i = j")
    case True
    have "earliest_best org sc (j + 1) j"
      unfolding earliest_best_def using below root by (auto simp: less_Suc_eq)
    then show ?thesis using True root len j by auto
  next
    case False
    with i have ij: "i < j" by simp
    show ?thesis
    proof (cases "org ! i = i")
      case True
      with inv ij obtain r where r: "mo ! i = Some (int r)" "earliest_best org sc j r" "org ! r = i"
        by (auto simp: mo_inv_def dest!: spec [of _ i])
      have "earliest_best org sc (j + 1) r"
        using r(2,3) root ij unfolding earliest_best_def by (auto simp: less_Suc_eq)
      with r True False show ?thesis by auto
    next
      case False
      with inv ij have "mo ! i = Some NA_INTEGER" by (auto simp: mo_inv_def dest!: spec [of _ i])
      with False \<open>i \<noteq> j\<close> show ?thesis by simp
    qed
  qed
  with len show ?thesis unfolding mo_inv_def by (intro conjI allI impI) (simp, blast)
qed

lemma mo_inv_read:
  assumes inv: "mo_inv org sc j mo" and ok: "origin_ok org" and j: "j < length org"
    and nroot: "org ! j \<noteq> j"
  obtains r where "org ! j < length mo" "mo ! (org ! j) = Some (int r)"
    "earliest_best org sc j r" "org ! r = org ! j" "r < j"
proof -
  from ok j nroot have o: "org ! j < j" "org ! (org ! j) = org ! j"
    by (auto simp: origin_ok_def dest!: spec [of _ j])
  with inv obtain r where r: "mo ! (org ! j) = Some (int r)" "earliest_best org sc j r"
      "org ! r = org ! j"
    by (auto simp: mo_inv_def dest!: spec [of _ "org ! j"])
  moreover have "org ! j < length mo" using inv o j by (simp add: mo_inv_def)
  moreover have "r < j" using r(2) by (simp add: earliest_best_def)
  ultimately show ?thesis using that by blast
qed

lemma mo_inv_replace:
  assumes inv: "mo_inv org sc j mo" and ok: "origin_ok org" and j: "j < length org"
    and nroot: "org ! j \<noteq> j"
    and r: "mo ! (org ! j) = Some (int r)" "earliest_best org sc j r" "org ! r = org ! j"
    and lt: "sc ! r < sc ! j"
  shows "mo_inv org sc (j + 1) (mo[org ! j := Some (int j), j := Some NA_INTEGER])"
proof -
  let ?mo = "mo[org ! j := Some (int j), j := Some NA_INTEGER]"
  have len: "length mo = length org" using inv by (simp add: mo_inv_def)
  from ok j nroot have o: "org ! j < j" "org ! (org ! j) = org ! j"
    by (auto simp: origin_ok_def dest!: spec [of _ j])
  have best_j: "earliest_best org sc (j + 1) j"
    unfolding earliest_best_def
  proof (intro conjI allI impI)
    show "j < j + 1" by simp
  next
    fix i assume i: "i < j + 1" "org ! i = org ! j"
    show "sc ! i < sc ! j \<or> sc ! i = sc ! j \<and> j \<le> i"
    proof (cases "i = j")
      case True then show ?thesis by simp
    next
      case False
      with i have "i < j" by simp
      with r(2,3) i(2) have "sc ! i \<le> sc ! r" by (auto simp: earliest_best_def)
      with lt show ?thesis by simp
    qed
  qed
  have "if org ! i = i
        then (\<exists>r. ?mo ! i = Some (int r) \<and> earliest_best org sc (j + 1) r \<and> org ! r = i)
        else ?mo ! i = Some NA_INTEGER" if i: "i < j + 1" for i
  proof (cases "i = j")
    case True
    with nroot len j show ?thesis by simp
  next
    case False
    with i have ij: "i < j" by simp
    show ?thesis
    proof (cases "org ! i = i")
      case True
      show ?thesis
      proof (cases "i = org ! j")
        case True
        with best_j o len j \<open>i \<noteq> j\<close> \<open>org ! i = i\<close> show ?thesis by auto
      next
        case ne: False
        from inv ij True obtain r' where r': "mo ! i = Some (int r')" "earliest_best org sc j r'"
            "org ! r' = i"
          by (auto simp: mo_inv_def dest!: spec [of _ i])
        have "earliest_best org sc (j + 1) r'"
          using r'(2,3) ne unfolding earliest_best_def by (auto simp: less_Suc_eq)
        with r' True ne \<open>i \<noteq> j\<close> show ?thesis by auto
      qed
    next
      case False
      with inv ij have "mo ! i = Some NA_INTEGER" by (auto simp: mo_inv_def dest!: spec [of _ i])
      moreover have "i \<noteq> org ! j" using False o by auto
      ultimately show ?thesis using False \<open>i \<noteq> j\<close> by simp
    qed
  qed
  with len show ?thesis unfolding mo_inv_def by (intro conjI allI impI) (simp, blast)
qed

lemma mo_inv_retain:
  assumes inv: "mo_inv org sc j mo" and ok: "origin_ok org" and j: "j < length org"
    and nroot: "org ! j \<noteq> j"
    and r: "mo ! (org ! j) = Some (int r)" "earliest_best org sc j r" "org ! r = org ! j"
    and ge: "\<not> sc ! r < sc ! j"
  shows "mo_inv org sc (j + 1) (mo[j := Some NA_INTEGER])"
proof -
  let ?mo = "mo[j := Some NA_INTEGER]"
  have len: "length mo = length org" using inv by (simp add: mo_inv_def)
  from ok j nroot have o: "org ! j < j" "org ! (org ! j) = org ! j"
    by (auto simp: origin_ok_def dest!: spec [of _ j])
  have rj: "r < j" using r(2) by (simp add: earliest_best_def)
  have "if org ! i = i
        then (\<exists>r. ?mo ! i = Some (int r) \<and> earliest_best org sc (j + 1) r \<and> org ! r = i)
        else ?mo ! i = Some NA_INTEGER" if i: "i < j + 1" for i
  proof (cases "i = j")
    case True
    with nroot len j show ?thesis by simp
  next
    case False
    with i have ij: "i < j" by simp
    show ?thesis
    proof (cases "org ! i = i")
      case True
      from inv ij True obtain r' where r': "mo ! i = Some (int r')" "earliest_best org sc j r'"
          "org ! r' = i"
        by (auto simp: mo_inv_def dest!: spec [of _ i])
      have "earliest_best org sc (j + 1) r'"
      proof (cases "i = org ! j")
        case True
        with r r' have "r' = r" by simp
        with r(2,3) ge rj show ?thesis
          unfolding earliest_best_def by (auto simp: less_Suc_eq)
      next
        case False
        with r'(2,3) show ?thesis unfolding earliest_best_def by (auto simp: less_Suc_eq)
      qed
      with r' True \<open>i \<noteq> j\<close> show ?thesis by auto
    next
      case False
      with inv ij have "mo ! i = Some NA_INTEGER" by (auto simp: mo_inv_def dest!: spec [of _ i])
      with False \<open>i \<noteq> j\<close> show ?thesis by simp
    qed
  qed
  with len show ?thesis unfolding mo_inv_def by (intro conjI allI impI) (simp, blast)
qed

lemma maxOrigin_loop_inv:
  "mo_inv org sc j mo \<Longrightarrow> origin_ok org \<Longrightarrow> length sc = length org \<Longrightarrow> j \<le> length org \<Longrightarrow>
   \<exists>mo'. maxOrigin_loop org sc j mo = Some mo' \<and> mo_inv org sc (length org) mo'"
proof (induction org sc j mo rule: maxOrigin_loop.induct)
  case (1 org sc j mo)
  show ?case
  proof (cases "j < length org")
    case False
    with "1.prems" have "j = length org" by simp
    with "1.prems" show ?thesis by (subst maxOrigin_loop.simps) simp
  next
    case j: True
    show ?thesis
    proof (cases "org ! j = j")
      case True
      from mo_inv_root [OF "1.prems"(1,2) j True]
      have "mo_inv org sc (j + 1) (mo[j := Some (int j)])" .
      from "1.IH"(1) [OF j True this "1.prems"(2,3)] j True
      show ?thesis by (subst maxOrigin_loop.simps) simp
    next
      case False
      from mo_inv_read [OF "1.prems"(1,2) j False]
      obtain r where r: "org ! j < length mo" "mo ! (org ! j) = Some (int r)"
        "earliest_best org sc j r" "org ! r = org ! j" "r < j" by blast
      have rng: "\<not> (int r < 0 \<or> int (length sc) \<le> int r)" using r(5) j "1.prems"(3) by simp
      have rd: "(if org ! j < length mo then mo ! (org ! j) else None) = Some (int r)"
        using r by simp
      show ?thesis
      proof (cases "sc ! r < sc ! j")
        case True
        from mo_inv_replace [OF "1.prems"(1,2) j False r(2,3,4) True]
        have "mo_inv org sc (j + 1) (mo[org ! j := Some (int j), j := Some NA_INTEGER])" .
        from "1.IH"(2) [OF j False rd rng _ this "1.prems"(2,3)] True j False rd rng
        show ?thesis by (subst maxOrigin_loop.simps) simp
      next
        case lt: False
        from mo_inv_retain [OF "1.prems"(1,2) j False r(2,3,4) lt]
        have "mo_inv org sc (j + 1) (mo[j := Some NA_INTEGER])" .
        from "1.IH"(3) [OF j False rd rng _ this "1.prems"(2,3)] lt j False rd rng
        show ?thesis by (subst maxOrigin_loop.simps) simp
      qed
    qed
  qed
qed


definition keep_inv :: "nat list \<Rightarrow> int option list \<Rightarrow> nat \<Rightarrow> bool list \<Rightarrow> int \<Rightarrow> bool" where
  "keep_inv org mo j keep c =
    (length keep = length org \<and>
     (\<forall>x<length org. keep ! x = (\<exists>i<j. org ! i = i \<and> mo ! i = Some (int x))) \<and>
     c = int (card {x. x < length org \<and> keep ! x}))"

lemma keep_inv_step_root:
  assumes inv: "keep_inv org mo j keep c" and mo: "mo_inv org sc (length org) mo"
    and j: "j < length org" and root: "org ! j = j" and r: "mo ! j = Some (int r)"
  shows "r < length org" "keep_inv org mo (j + 1) (keep[r := True]) (c + 1)"
proof -
  from mo j root r have rb: "earliest_best org sc (length org) r" "org ! r = j"
    by (auto simp: mo_inv_def dest!: spec [of _ j])
  then show rs: "r < length org" by (simp add: earliest_best_def)
  have len: "length keep = length org" using inv by (simp add: keep_inv_def)
  have old: "keep ! x = (\<exists>i<j. org ! i = i \<and> mo ! i = Some (int x))" if "x < length org" for x
    using inv that by (simp add: keep_inv_def)
  have notr: "\<not> keep ! r"
  proof
    assume "keep ! r"
    with old [OF rs] obtain i where i: "i < j" "org ! i = i" "mo ! i = Some (int r)" by blast
    with mo j have "org ! r = i" by (auto simp: mo_inv_def dest!: spec [of _ i])
    with rb i show False by simp
  qed
  have new: "(keep[r := True]) ! x = (\<exists>i<j + 1. org ! i = i \<and> mo ! i = Some (int x))"
    if x: "x < length org" for x
  proof (cases "x = r")
    case True
    then show ?thesis using rs len root r by auto
  next
    case False
    have "(\<exists>i<j + 1. org ! i = i \<and> mo ! i = Some (int x)) =
          (\<exists>i<j. org ! i = i \<and> mo ! i = Some (int x))"
      using False r by (auto simp: less_Suc_eq)
    with old [OF x] False show ?thesis by simp
  qed
  have "{x. x < length org \<and> (keep[r := True]) ! x} = insert r {x. x < length org \<and> keep ! x}"
    using rs len by (auto simp: nth_list_update)
  moreover have "r \<notin> {x. x < length org \<and> keep ! x}" using notr by simp
  moreover have "finite {x. x < length org \<and> keep ! x}" by simp
  ultimately have "card {x. x < length org \<and> (keep[r := True]) ! x}
      = card {x. x < length org \<and> keep ! x} + 1"
    by simp
  moreover have "c = int (card {x. x < length org \<and> keep ! x})" using inv by (simp add: keep_inv_def)
  ultimately show "keep_inv org mo (j + 1) (keep[r := True]) (c + 1)"
    unfolding keep_inv_def using len new by simp
qed

lemma keep_inv_step_other:
  assumes inv: "keep_inv org mo j keep c" and nroot: "org ! j \<noteq> j"
  shows "keep_inv org mo (j + 1) keep c"
proof -
  have "(\<exists>i<j + 1. org ! i = i \<and> mo ! i = Some (int x)) =
        (\<exists>i<j. org ! i = i \<and> mo ! i = Some (int x))" for x
    using nroot by (auto simp: less_Suc_eq)
  with inv show ?thesis by (simp add: keep_inv_def)
qed

lemma keep_loop_inv:
  "keep_inv org mo j keep c \<Longrightarrow> mo_inv org sc (length org) mo \<Longrightarrow> j \<le> length org \<Longrightarrow>
   \<exists>keep' c'. keep_loop mo j keep c = Some (keep', c') \<and> keep_inv org mo (length org) keep' c'"
proof (induction mo j keep c rule: keep_loop.induct)
  case (1 mo j keep c)
  have lmo: "length mo = length org" using "1.prems"(2) by (simp add: mo_inv_def)
  show ?case
  proof (cases "j < length mo")
    case False
    with "1.prems" lmo have "j = length org" by simp
    with "1.prems" lmo show ?thesis by (subst keep_loop.simps) simp
  next
    case j: True
    then have j': "j < length org" using lmo by simp
    show ?thesis
    proof (cases "org ! j = j")
      case True
      with "1.prems"(2) j' obtain r where r: "mo ! j = Some (int r)"
        by (auto simp: mo_inv_def dest!: spec [of _ j])
      from keep_inv_step_root [OF "1.prems"(1,2) j' True r]
      have rs: "r < length org" and inv': "keep_inv org mo (j + 1) (keep[r := True]) (c + 1)"
        by simp_all
      have lk: "length keep = length org" using "1.prems"(1) by (simp add: keep_inv_def)
      have rng: "\<not> (int r < 0 \<or> int (length keep) \<le> int r)" using rs lk by simp
      from "1.IH"(1) [OF j r _ rng] inv' "1.prems"(2) j'
      have "\<exists>keep' c'. keep_loop mo (j + 1) (keep[nat (int r) := True]) (c + 1) = Some (keep', c')
              \<and> keep_inv org mo (length org) keep' c'"
        by simp
      then show ?thesis using j r rng by (subst keep_loop.simps) simp
    next
      case False
      with "1.prems"(2) j' have na: "mo ! j = Some NA_INTEGER"
        by (auto simp: mo_inv_def dest!: spec [of _ j])
      from keep_inv_step_other [OF "1.prems"(1) False]
      have inv': "keep_inv org mo (j + 1) keep c" .
      from "1.IH"(2) [OF j na _ inv' "1.prems"(2)] j'
      have "\<exists>keep' c'. keep_loop mo (j + 1) keep c = Some (keep', c')
              \<and> keep_inv org mo (length org) keep' c'"
        by simp
      then show ?thesis using j na by (subst keep_loop.simps) simp
    qed
  qed
qed

lemma mo_inv_init: "mo_inv org sc 0 (replicate (length org) None)"
  by (simp add: mo_inv_def)

lemma keep_inv_init: "keep_inv org mo 0 (replicate (length org) False) 0"
  by (simp add: keep_inv_def)

lemma best_exists:
  assumes mo: "mo_inv org sc (length org) mo" and ok: "origin_ok org" and j: "j < length org"
  shows "\<exists>r. mo ! (org ! j) = Some (int r) \<and> earliest_best org sc (length org) r \<and> org ! r = org ! j"
proof -
  from ok j have "org ! j < length org" "org ! (org ! j) = org ! j"
    by (auto simp: origin_ok_def dest!: spec [of _ j])
  with mo show ?thesis by (auto simp: mo_inv_def dest!: spec [of _ "org ! j"])
qed

lemma all_hits_result:
  assumes ok: "origin_ok org" and len: "length sc = length org"
  shows "all_hits org sc =
    Some (filter (earliest_best org sc (length org)) [0..<length org],
          int (length (filter (earliest_best org sc (length org)) [0..<length org])))"
proof -
  let ?s = "length org"
  from maxOrigin_loop_inv [OF mo_inv_init ok len]
  obtain mo where mo: "maxOrigin_loop org sc 0 (replicate ?s None) = Some mo"
    "mo_inv org sc ?s mo" by auto
  from keep_loop_inv [OF keep_inv_init mo(2)]
  obtain keep c where kp: "keep_loop mo 0 (replicate ?s False) 0 = Some (keep, c)"
    "keep_inv org mo ?s keep c" by auto
  have iff: "keep ! x = earliest_best org sc ?s x" if x: "x < ?s" for x
  proof
    assume "keep ! x"
    with kp(2) x obtain i where "i < ?s" "org ! i = i" "mo ! i = Some (int x)"
      by (auto simp: keep_inv_def)
    with mo(2) show "earliest_best org sc ?s x"
      by (auto simp: mo_inv_def dest!: spec [of _ i])
  next
    assume eb: "earliest_best org sc ?s x"
    from best_exists [OF mo(2) ok x] obtain r where r: "mo ! (org ! x) = Some (int r)"
      "earliest_best org sc ?s r" "org ! r = org ! x" by blast
    from earliest_best_unique [OF r(2) eb r(3)] have "r = x" .
    moreover from ok x have "org ! x < ?s" "org ! (org ! x) = org ! x"
      by (auto simp: origin_ok_def dest!: spec [of _ x])
    ultimately show "keep ! x" using kp(2) x r(1) by (auto simp: keep_inv_def)
  qed
  have flt: "filter (\<lambda>j. keep ! j) [0..<?s] = filter (earliest_best org sc ?s) [0..<?s]"
    by (rule filter_cong) (simp_all add: iff)
  have "c = int (card {x. x < ?s \<and> keep ! x})" using kp(2) by (simp add: keep_inv_def)
  also have "card {x. x < ?s \<and> keep ! x} = length (filter (\<lambda>j. keep ! j) [0..<?s])"
    unfolding length_filter_conv_card by (rule arg_cong [where f = card]) auto
  finally have "c = int (length (filter (earliest_best org sc ?s) [0..<?s]))"
    by (simp add: flt)
  then show ?thesis by (simp add: all_hits_def Let_def mo(1) kp(1) flt)
qed

lemma best_unique_per_origin:
  assumes ok: "origin_ok org" and len: "length sc = length org" and j: "j < length org"
  shows "\<exists>!r. earliest_best org sc (length org) r \<and> org ! r = org ! j"
proof -
  from maxOrigin_loop_inv [OF mo_inv_init ok len]
  obtain mo where mo: "mo_inv org sc (length org) mo" by auto
  from best_exists [OF mo ok j] obtain r where
    "earliest_best org sc (length org) r" "org ! r = org ! j" by blast
  then show ?thesis by (auto intro: earliest_best_unique)
qed

text \<open>
  Claim C3, as stated, on three hits of one chain origin with scores \<open>1, 2, 2\<close>: the
  program keeps index 1, the earlier of the two tied best hits, whereas the claim's rule
  (ties to the later index) selects index 2.
\<close>

theorem all_hits_tie_counterexample:
  "all_hits [0, 0, 0] [1, 2, 2] = Some ([1], 1) \<and>
   filter (latest_best [0, 0, 0] [1, 2, 2] 3) [0..<3] = [2]"
proof -
  have "all_hits [0, 0, 0] [1, 2, 2] = Some ([1], 1)" by code_simp
  moreover have "[0..<3] = [0, 1, 2]" by code_simp
  moreover have "\<not> latest_best [0, 0, 0] [1, 2, 2] 3 0" "\<not> latest_best [0, 0, 0] [1, 2, 2] 3 1"
    "latest_best [0, 0, 0] [1, 2, 2] 3 2"
    by (auto simp: latest_best_def less_Suc_eq numeral_3_eq_3)
  ultimately show ?thesis by simp
qed

text \<open>
  Claim C3, amended. In output mode 1, for every well-formed origin array (each origin is
  an earlier-or-equal index that is its own origin) the selector returns, in increasing
  index order, exactly the hits that have the highest score among the hits sharing their
  origin and are the earliest index with that score; every origin has exactly one such
  representative, and the count the selector reports is the number of hits it returns.
  Ties are broken in favour of the earlier index.
\<close>

theorem all_hits_earliest_best:
  assumes "origin_ok org" and "length sc = length org"
  shows "all_hits org sc =
      Some (filter (earliest_best org sc (length org)) [0..<length org],
            int (length (filter (earliest_best org sc (length org)) [0..<length org])))
    \<and> (\<forall>j<length org. \<exists>!r. earliest_best org sc (length org) r \<and> org ! r = org ! j)"
  using all_hits_result [OF assms] best_unique_per_origin [OF assms] by blast

theorem all_hits_earliest_best_witness:
  "origin_ok [0, 0, 0, 3, 3] \<and>
   all_hits [0, 0, 0, 3, 3] [1, 2, 2, 7, 5] =
     Some (filter (earliest_best [0, 0, 0, 3, 3] [1, 2, 2, 7, 5] 5) [0..<5], 2) \<and>
   filter (earliest_best [0, 0, 0, 3, 3] [1, 2, 2, 7, 5] 5) [0..<5] = [1, 3]"
proof -
  have ok: "origin_ok [0, 0, 0, 3, 3]"
    by (simp add: origin_ok_def less_Suc_eq numeral_3_eq_3 eval_nat_numeral)
  have ev: "all_hits [0, 0, 0, 3, 3] [1, 2, 2, 7, 5] = Some ([1, 3], 2)" by code_simp
  have l: "length [1, 2, 2, 7, 5 :: real] = length [0, 0, 0, 3, 3 :: nat]" by simp
  have five: "length [0, 0, 0, 3, 3 :: nat] = 5" by simp
  note r = all_hits_earliest_best [OF ok l, THEN conjunct1, unfolded five]
  from r ev have "filter (earliest_best [0, 0, 0, 3, 3] [1, 2, 2, 7, 5] 5) [0..<5] = [1, 3]"
    by (simp only: option.inject prod.inject)
  with r ev ok show ?thesis by (simp only: simp_thms)
qed

text \<open>
  Claim C10. After the chain DP every recorded origin is a root:
  \<open>origin[origin[j]] = origin[j]\<close> and \<open>origin[j] \<le> j\<close>. Hence the all-chains selector,
  run on the DP's origins with any score array, never reads an uninitialised or
  \<open>NA_INTEGER\<close> slot of \<open>maxOrigin\<close> (either read makes the model return \<open>None\<close>).
\<close>

theorem origin_idempotent:
  assumes "wf_hits h" and "length sc = length (tset h)"
  shows "(\<forall>j<length (tset h).
            origin (chainDP h cs) ! (origin (chainDP h cs) ! j) = origin (chainDP h cs) ! j)
    \<and> (\<exists>res. all_hits (origin (chainDP h cs)) sc = Some res)"
proof -
  have ok: "origin_ok (origin (chainDP h cs))"
    using chainDP_origin [OF assms(1), of _ cs] chainDP_lengths(3) [OF assms(1), of cs]
    by (simp add: origin_ok_def)
  have "length sc = length (origin (chainDP h cs))"
    using assms(2) chainDP_lengths(3) [OF assms(1), of cs] by simp
  from all_hits_result [OF ok this] chainDP_origin [OF assms(1), of _ cs]
  show ?thesis by simp
qed

theorem origin_idempotent_witness:
  "wf_hits c1_hits \<and>
   origin (chainDP c1_hits c1_costs) ! (origin (chainDP c1_hits c1_costs) ! 2)
     = origin (chainDP c1_hits c1_costs) ! 2 \<and>
   all_hits (origin (chainDP c1_hits c1_costs)) [5, 10, 15] = Some ([2], 1)"
proof -
  have wf: "wf_hits c1_hits" by (simp add: wf_hits_def c1_hits_def)
  have l: "length [5, 10, 15 :: real] = length (tset c1_hits)" by (simp add: c1_hits_def)
  have ev: "all_hits [0, 0, 0] [5, 10, 15] = Some ([2], 1)" by code_simp
  have o: "origin (chainDP c1_hits c1_costs) = [0, 0, 0]" by (simp add: c1_chainDP)
  have k: "2 < length (tset c1_hits)" by (simp add: c1_hits_def)
  from origin_idempotent [OF wf l, of c1_costs] k
  have "origin (chainDP c1_hits c1_costs) ! (origin (chainDP c1_hits c1_costs) ! 2)
     = origin (chainDP c1_hits c1_costs) ! 2" by blast
  with wf ev show ?thesis by (simp only: o simp_thms)
qed

fun prev_path :: "nat list \<Rightarrow> nat \<Rightarrow> nat \<Rightarrow> nat list" where
  "prev_path chn 0 p = [p]"
| "prev_path chn (Suc n) p = (if chn ! p = p then [p] else p # prev_path chn n (chn ! p))"

lemma prev_path_hd [simp]: "hd (prev_path chn n p) = p"
  by (cases n) simp_all

lemma prev_path_nonempty [simp]: "prev_path chn n p \<noteq> []"
  by (cases n) simp_all

lemma prev_path_decomp: "prev_path chn n p = p # tl (prev_path chn n p)"
  by (cases n) simp_all

lemma concat_quad_path:
  "concat (map (quad h) (prev_path chn n p))
     = quad h p @ concat (map (quad h) (tl (prev_path chn n p)))"
  by (cases n) simp_all

lemma chain_length_path:
  "p \<le> n \<Longrightarrow> \<forall>i\<le>p. chn ! i \<le> i \<Longrightarrow>
   chain_length chn p k = Some (k + int (length (prev_path chn n p)) - 1)"
proof (induction n arbitrary: p k)
  case 0
  then have "chn ! p = p" by simp
  then show ?case by (subst chain_length.simps) simp
next
  case (Suc n)
  show ?case
  proof (cases "chn ! p = p")
    case True
    then show ?thesis by (subst chain_length.simps) simp
  next
    case False
    with Suc.prems have lt: "chn ! p < p" by (metis le_neq_implies_less order_refl)
    then have "chn ! p \<le> n" "\<forall>i\<le>chn ! p. chn ! i \<le> i" using Suc.prems by auto
    from Suc.IH [OF this, of "k + 1"] False show ?thesis
      by (subst chain_length.simps) simp
  qed
qed

lemma anchor_loop_path:
  "p \<le> n \<Longrightarrow> \<forall>i\<le>p. chn ! i \<le> i \<Longrightarrow>
   anchor_loop h chn p acc = Some (acc @ concat (map (quad h) (tl (prev_path chn n p))))"
proof (induction n arbitrary: p acc)
  case 0
  then have "chn ! p = p" by simp
  then show ?case by (subst anchor_loop.simps) simp
next
  case (Suc n)
  show ?case
  proof (cases "chn ! p = p")
    case True
    then show ?thesis by (subst anchor_loop.simps) simp
  next
    case False
    with Suc.prems have lt: "chn ! p < p" by (metis le_neq_implies_less order_refl)
    then have "chn ! p \<le> n" "\<forall>i\<le>chn ! p. chn ! i \<le> i" using Suc.prems by auto
    from Suc.IH [OF this, of "acc @ quad h (chn ! p)"] False show ?thesis
      by (subst anchor_loop.simps) (simp add: concat_quad_path [of h chn n "chn ! p"])
  qed
qed

lemma anchor_of_path:
  assumes "\<forall>i\<le>r. chn ! i \<le> i"
  shows "anchor_of h chn r =
    Some (int (length (prev_path chn r r)) # concat (map (quad h) (prev_path chn r r)))"
proof -
  have "concat (map (quad h) (prev_path chn r r))
      = quad h r @ concat (map (quad h) (tl (prev_path chn r r)))"
    by (rule concat_quad_path)
  then show ?thesis
    using chain_length_path [OF order_refl assms, of 1] anchor_loop_path [OF order_refl assms]
    by (simp add: anchor_of_def)
qed

lemma length_quad [simp]: "length (quad h p) = 4"
  by (simp add: quad_def)












definition aligned :: "int list \<Rightarrow> int \<Rightarrow> nat \<Rightarrow> nat list" where
  "aligned kmers s j0 =
     filter (\<lambda>j. int j mod s = 0 \<and> kmers ! j \<noteq> NA_INTEGER) [j0..<length kmers]"

lemma aligned_step:
  assumes s: "0 < s" and j: "j < length kmers" and m: "int j mod s = 0"
  shows "aligned kmers s j =
    (if kmers ! j \<noteq> NA_INTEGER then [j] else []) @ aligned kmers s (j + nat s)"
proof -
  let ?P = "\<lambda>x. int x mod s = 0 \<and> kmers ! x \<noteq> NA_INTEGER"
  let ?n = "length kmers"
  let ?m = "min (j + nat s) ?n"
  have gap: "\<not> ?P x" if x: "x \<in> set [Suc j..<?m]" for x
  proof -
    from x have "int j < int x" "int x < int j + s" using s by auto
    moreover from m obtain q where q: "int j = s * q" by (auto simp: mod_eq_0_iff_dvd)
    ultimately have "0 < int x - s * q" "int x - s * q < s" by simp_all
    then have "(int x - s * q) mod s \<noteq> 0" by simp
    then have "int x mod s \<noteq> 0" by (simp add: mod_diff_eq [symmetric] del: mod_diff_eq)
    then show ?thesis by simp
  qed
  have "[j..<?n] = j # [Suc j..<?n]" using j by (simp add: upt_conv_Cons)
  also have "[Suc j..<?n] = [Suc j..<?m] @ [?m..<?n]"
  proof -
    have "Suc j \<le> ?m" using j s by simp
    from upt_add_eq_append [OF this, of "?n - ?m"] show ?thesis by simp
  qed
  finally have "filter ?P [j..<?n] = filter ?P [j] @ filter ?P [Suc j..<?m] @ filter ?P [?m..<?n]"
    by simp
  moreover have "filter ?P [Suc j..<?m] = []" using gap by (simp add: filter_empty_conv)
  moreover have "[?m..<?n] = [j + nat s..<?n]" by (simp add: min_def)
  ultimately show ?thesis using m by (simp add: aligned_def)
qed

lemma aligned_end: "length kmers \<le> j \<Longrightarrow> aligned kmers s j = []"
  by (simp add: aligned_def)

lemma wrap32_small: "0 \<le> x \<Longrightarrow> x \<le> 2147483647 \<Longrightarrow> wrap32 x = x"
  by (simp add: wrap32_def)

definition bump :: "int list \<Rightarrow> int list \<Rightarrow> nat \<Rightarrow> int list" where
  "bump kmers rans j = rans[nat (kmers ! j) := rans ! nat (kmers ! j) + 1]"

definition incr :: "int list \<Rightarrow> nat \<Rightarrow> int list" where
  "incr rans c = rans[c := rans ! c + 1]"

definition codes :: "int \<Rightarrow> int list \<Rightarrow> nat list" where
  "codes s kmers = map (\<lambda>j. nat (kmers ! j)) (aligned kmers s 0)"

lemma foldl_bump_incr: "foldl (bump kmers) rans js = foldl incr rans (map (\<lambda>j. nat (kmers ! j)) js)"
  by (induction js arbitrary: rans) (simp_all add: bump_def incr_def)

lemma foldl_incr_length [simp]: "length (foldl incr rans cs) = length rans"
  by (induction cs arbitrary: rans) (simp_all add: incr_def)

lemma foldl_incr_nth:
  "c < length rans \<Longrightarrow> foldl incr rans cs ! c = rans ! c + int (count_list cs c)"
proof (induction cs arbitrary: rans)
  case Nil
  then show ?case by simp
next
  case (Cons a cs)
  have "c < length (incr rans a)" using Cons.prems by (simp add: incr_def)
  from Cons.IH [OF this] Cons.prems show ?case
    by (auto simp: incr_def nth_list_update)
qed

lemma foldl_incr_mono: "c < length rans \<Longrightarrow> rans ! c \<le> foldl incr rans cs ! c"
  by (simp add: foldl_incr_nth)

lemma foldl_bump_length [simp]: "length (foldl (bump kmers) rans js) = length rans"
  by (simp add: foldl_bump_incr)

text \<open>As long as no count leaves the range of a 32-bit integer, the wrapping increments of
  the code are the exact ones.\<close>

lemma count_seq_fold:
  assumes s: "0 < s" and n: "int (length kmers) + s \<le> 2147483648"
  shows "int j mod s = 0 \<Longrightarrow>
    \<forall>c<length rans. 0 \<le> rans ! c \<and>
       foldl (bump kmers) rans (aligned kmers s j) ! c \<le> 2147483647 \<Longrightarrow>
    count_seq kmers s (int j) rans = Some (foldl (bump kmers) rans (aligned kmers s j))"
proof (induction "length kmers - j" arbitrary: j rans rule: less_induct)
  case less
  show ?case
  proof (cases "j < length kmers")
    case False
    then show ?thesis by (subst count_seq.simps) (simp add: aligned_end)
  next
    case True
    have next_m: "int (j + nat s) mod s = 0" using less.prems(1) s by simp
    have dec: "length kmers - (j + nat s) < length kmers - j" using True s by simp
    have nx: "wrap32 (int j + s) = int (j + nat s)"
      using s n True by (subst wrap32_small) simp_all
    note al = aligned_step [OF s True less.prems(1)]
    show ?thesis
    proof (cases "kmers ! j \<noteq> NA_INTEGER")
      case um: True
      let ?c = "nat (kmers ! j)"
      let ?rest = "aligned kmers s (j + nat s)"
      have fin: "foldl (bump kmers) rans (aligned kmers s j)
          = foldl (bump kmers) (bump kmers rans j) ?rest"
        using um by (simp add: al)
      have same: "rans[?c := wrap32 (rans ! ?c + 1)] = bump kmers rans j"
      proof (cases "?c < length rans")
        case False
        then have "length rans \<le> ?c" by simp
        then show ?thesis by (simp add: bump_def list_update_beyond)
      next
        case c: True
        have "?c < length (bump kmers rans j)" using c by (simp add: bump_def)
        then have "bump kmers rans j ! ?c \<le> foldl (bump kmers) (bump kmers rans j) ?rest ! ?c"
          unfolding foldl_bump_incr by (rule foldl_incr_mono)
        moreover have "foldl (bump kmers) (bump kmers rans j) ?rest ! ?c \<le> 2147483647"
          using less.prems(2) c by (simp add: fin)
        moreover have "bump kmers rans j ! ?c = rans ! ?c + 1" using c by (simp add: bump_def)
        ultimately have "rans ! ?c + 1 \<le> 2147483647" by simp
        moreover have "0 \<le> rans ! ?c" using less.prems(2) c by simp
        ultimately have "wrap32 (rans ! ?c + 1) = rans ! ?c + 1" by (intro wrap32_small) simp_all
        then show ?thesis by (simp add: bump_def)
      qed
      have bnd: "\<forall>c<length (bump kmers rans j). 0 \<le> bump kmers rans j ! c \<and>
          foldl (bump kmers) (bump kmers rans j) ?rest ! c \<le> 2147483647"
      proof (intro allI impI)
        fix c assume "c < length (bump kmers rans j)"
        then have c: "c < length rans" by (simp add: bump_def)
        with less.prems(2) have "0 \<le> rans ! c"
          "foldl (bump kmers) (bump kmers rans j) ?rest ! c \<le> 2147483647"
          by (simp_all add: fin)
        moreover have "rans ! c \<le> bump kmers rans j ! c"
          using c by (cases "c = nat (kmers ! j)") (simp_all add: bump_def)
        ultimately show "0 \<le> bump kmers rans j ! c \<and>
          foldl (bump kmers) (bump kmers rans j) ?rest ! c \<le> 2147483647" by simp
      qed
      from less.hyps [OF dec next_m bnd] True um
      show ?thesis
        by (subst count_seq.simps) (simp add: fin nx same)
    next
      case False
      have fin: "foldl (bump kmers) rans (aligned kmers s j) = foldl (bump kmers) rans
          (aligned kmers s (j + nat s))"
        using False by (simp add: al)
      from less.hyps [OF dec next_m, of rans] less.prems(2) True False
      show ?thesis
        by (subst count_seq.simps) (simp add: fin nx)
    qed
  qed
qed

definition quiet :: "(nat \<Rightarrow> int option) \<Rightarrow> bool" where
  "quiet poll = (\<forall>i. poll i = None \<or> poll i = Some 0)"

definition short_seqs :: "int list list \<Rightarrow> int \<Rightarrow> bool" where
  "short_seqs query s = (\<forall>kmers\<in>set query. int (length kmers) + s \<le> 2147483648)"

lemma count_seqs_fold:
  assumes s: "0 < s" and q: "quiet poll" and n: "short_seqs query s"
  shows "\<forall>c<length rans. 0 \<le> rans ! c \<and>
       foldl incr rans (concat (map (codes s) (drop i query))) ! c \<le> 2147483647 \<Longrightarrow>
    count_seqs poll query s i rans =
    Some (Inr (foldl incr rans (concat (map (codes s) (drop i query)))))"
proof (induction "length query - i" arbitrary: i rans rule: less_induct)
  case less
  show ?case
  proof (cases "i < length query")
    case False
    then show ?thesis by (subst count_seqs.simps) simp
  next
    case True
    let ?r1 = "foldl incr rans (codes s (query ! i))"
    have dr: "drop i query = query ! i # drop (i + 1) query"
      using True by (simp add: Cons_nth_drop_Suc)
    have fin: "foldl incr rans (concat (map (codes s) (drop i query)))
        = foldl incr ?r1 (concat (map (codes s) (drop (i + 1) query)))"
      by (simp add: dr)
    have b1: "\<forall>c<length ?r1. 0 \<le> ?r1 ! c \<and>
        foldl incr ?r1 (concat (map (codes s) (drop (i + 1) query))) ! c \<le> 2147483647"
    proof (intro allI impI)
      fix c assume "c < length ?r1"
      then have c: "c < length rans" by simp
      with less.prems have "0 \<le> rans ! c"
        "foldl incr ?r1 (concat (map (codes s) (drop (i + 1) query))) ! c \<le> 2147483647"
        by (simp_all add: fin)
      moreover have "rans ! c \<le> ?r1 ! c" using c by (rule foldl_incr_mono)
      ultimately show "0 \<le> ?r1 ! c \<and>
        foldl incr ?r1 (concat (map (codes s) (drop (i + 1) query))) ! c \<le> 2147483647" by simp
    qed
    have b0: "\<forall>c<length rans. 0 \<le> rans ! c \<and>
        foldl (bump (query ! i)) rans (aligned (query ! i) s 0) ! c \<le> 2147483647"
    proof (intro allI impI)
      fix c assume c: "c < length rans"
      have "?r1 ! c \<le> foldl incr ?r1 (concat (map (codes s) (drop (i + 1) query))) ! c"
        using c by (intro foldl_incr_mono) simp
      also have "\<dots> \<le> 2147483647" using b1 c by simp
      finally have "?r1 ! c \<le> 2147483647" .
      moreover have "foldl (bump (query ! i)) rans (aligned (query ! i) s 0) = ?r1"
        by (simp add: foldl_bump_incr codes_def)
      moreover have "0 \<le> rans ! c" using less.prems c by simp
      ultimately show "0 \<le> rans ! c \<and>
        foldl (bump (query ! i)) rans (aligned (query ! i) s 0) ! c \<le> 2147483647"
        by simp
    qed
    have ln: "int (length (query ! i)) + s \<le> 2147483648"
      using n True by (simp add: short_seqs_def)
    have seq: "count_seq (query ! i) s 0 rans = Some ?r1"
      using count_seq_fold [OF s ln, of 0 rans] b0
      by (simp add: foldl_bump_incr codes_def)
    have dec: "length query - (i + 1) < length query - i" using True by simp
    from q have "poll i = None \<or> poll i = Some 0" by (simp add: quiet_def)
    then show ?thesis
      using less.hyps [OF dec b1] True seq
      by (subst count_seqs.simps) (auto simp: dr)
  qed
qed

definition all_codes :: "int \<Rightarrow> int list list \<Rightarrow> nat list" where
  "all_codes s query = concat (map (codes s) query)"

lemma countIndex_counts:
  assumes "0 < s" "quiet poll" "short_seqs query s"
    and "\<forall>c<L. int (count_list (all_codes s query) c) \<le> 2147483647"
  shows "countIndex False poll (replicate L 0) query s =
    Some (Inr (foldl incr (replicate L 0) (all_codes s query)))"
proof -
  have "\<forall>c<length (replicate L (0::int)). 0 \<le> replicate L (0::int) ! c \<and>
       foldl incr (replicate L 0) (concat (map (codes s) (drop 0 query))) ! c \<le> 2147483647"
    using assms(4) by (simp add: foldl_incr_nth all_codes_def)
  from count_seqs_fold [OF assms(1,2,3) this] show ?thesis
    by (simp add: countIndex_def all_codes_def)
qed

section \<open>Prefix sums\<close>

lemma offset_loop_prefix:
  "0 < i \<Longrightarrow> k = i - 1 \<Longrightarrow> length offset = length num \<Longrightarrow> L = length num \<Longrightarrow>
   (\<forall>x<i. x < L \<longrightarrow> offset ! x = sum_list (take x num)) \<Longrightarrow>
   length (offset_loop num L i k offset) = L \<and>
   (\<forall>x<L. offset_loop num L i k offset ! x = sum_list (take x num))"
proof (induction num L i k offset rule: offset_loop.induct)
  case (1 num L i k offset)
  show ?case
  proof (cases "i < L")
    case False
    with "1.prems" show ?thesis by (subst offset_loop.simps, subst offset_loop.simps) auto
  next
    case True
    let ?o = "offset[i := offset ! k + num ! k]"
    have k: "k < i" "k < L" "Suc k = i" using "1.prems" True by simp_all
    have "sum_list (take i num) = sum_list (take k num) + num ! k"
      using k "1.prems"(4) by (simp add: take_Suc_conv_app_nth [symmetric] del: take_Suc_conv_app_nth)
        (metis k(2,3) "1.prems"(4) take_Suc_conv_app_nth sum_list.append sum_list.Cons
          sum_list.Nil add.right_neutral)
    moreover have "offset ! k = sum_list (take k num)" using "1.prems"(5) k by simp
    ultimately have new: "?o ! i = sum_list (take i num)"
      using True "1.prems"(3,4) by simp
    have inv: "\<forall>x<i + 1. x < L \<longrightarrow> ?o ! x = sum_list (take x num)"
    proof (intro allI impI)
      fix x assume "x < i + 1" "x < L"
      then show "?o ! x = sum_list (take x num)"
        using new "1.prems"(5) by (cases "x = i") (simp_all add: nth_list_update)
    qed
    from "1.IH" [OF True _ _ _ "1.prems"(4) inv] "1.prems"(3)
    have "length (offset_loop num L (i + 1) i ?o) = L \<and>
      (\<forall>x<L. offset_loop num L (i + 1) i ?o ! x = sum_list (take x num))" by simp
    then show ?thesis using True
      by (subst offset_loop.simps, subst (2) offset_loop.simps) simp
  qed
qed

lemma offsets_prefix:
  "length (offsets num) = length num \<and> (\<forall>x<length num. offsets num ! x = sum_list (take x num))"
proof -
  have "\<forall>x<1. x < length num \<longrightarrow> replicate (length num) (0::int) ! x = sum_list (take x num)"
    by simp
  from offset_loop_prefix [OF _ _ _ _ this] show ?thesis by (simp add: offsets_def)
qed


section \<open>Writing the index\<close>

definition put :: "int \<Rightarrow> int list \<Rightarrow> build_state \<Rightarrow> nat \<Rightarrow> build_state" where
  "put c kmers b j =
    b\<lparr>b_ind := (b_ind b)[nat (b_off b ! nat (kmers ! j)) := c],
      b_loc := (b_loc b)[nat (b_off b ! nat (kmers ! j)) := int j + 1],
      b_off := (b_off b)[nat (kmers ! j) := b_off b ! nat (kmers ! j) + 1]\<rparr>"

lemma put_off: "b_off (foldl (put c kmers) b js) = foldl incr (b_off b) (map (\<lambda>j. nat (kmers ! j)) js)"
  by (induction js arbitrary: b) (simp_all add: put_def incr_def)

lemma dbl_succ_small: "0 \<le> x \<Longrightarrow> x < 9007199254740992 \<Longrightarrow> dbl_succ x = x + 1"
  by (simp add: dbl_succ_def)

text \<open>As long as no offset reaches \<open>2\<^sup>5\<^sup>3\<close>, the increments of the offsets are exact.\<close>

lemma update_seq_fold:
  assumes s: "0 < s" and n: "int (length kmers) + s \<le> 2147483648"
  shows "int j mod s = 0 \<Longrightarrow>
    \<forall>k<length (b_off b). 0 \<le> b_off b ! k \<and>
       b_off (foldl (put c kmers) b (aligned kmers s j)) ! k \<le> 9007199254740992 \<Longrightarrow>
    update_seq kmers s c (int j) b = Some (foldl (put c kmers) b (aligned kmers s j))"
proof (induction "length kmers - j" arbitrary: j b rule: less_induct)
  case less
  show ?case
  proof (cases "j < length kmers")
    case False
    then show ?thesis by (subst update_seq.simps) (simp add: aligned_end)
  next
    case True
    have next_m: "int (j + nat s) mod s = 0" using less.prems(1) s by simp
    have dec: "length kmers - (j + nat s) < length kmers - j" using True s by simp
    have nx: "wrap32 (int j + s) = int (j + nat s)"
      using s n True by (subst wrap32_small) simp_all
    note al = aligned_step [OF s True less.prems(1)]
    show ?thesis
    proof (cases "kmers ! j \<noteq> NA_INTEGER")
      case um: True
      let ?k = "nat (kmers ! j)"
      let ?rest = "aligned kmers s (j + nat s)"
      let ?b1 = "put c kmers b j"
      have fin: "foldl (put c kmers) b (aligned kmers s j) = foldl (put c kmers) ?b1 ?rest"
        using um by (simp add: al)
      have lb: "length (b_off ?b1) = length (b_off b)" by (simp add: put_def)
      have same: "b\<lparr>b_ind := (b_ind b)[nat (b_off b ! ?k) := c],
                    b_loc := (b_loc b)[nat (b_off b ! ?k) := int j + 1],
                    b_off := (b_off b)[?k := dbl_succ (b_off b ! ?k)]\<rparr> = ?b1"
      proof (cases "?k < length (b_off b)")
        case False
        then have "length (b_off b) \<le> ?k" by simp
        then show ?thesis by (simp add: put_def list_update_beyond)
      next
        case k: True
        have "?k < length (b_off ?b1)" using k lb by simp
        then have "b_off ?b1 ! ?k \<le> b_off (foldl (put c kmers) ?b1 ?rest) ! ?k"
          unfolding put_off by (rule foldl_incr_mono)
        moreover have "b_off (foldl (put c kmers) ?b1 ?rest) ! ?k \<le> 9007199254740992"
          using less.prems(2) k by (simp add: fin)
        moreover have "b_off ?b1 ! ?k = b_off b ! ?k + 1" using k by (simp add: put_def)
        ultimately have "b_off b ! ?k < 9007199254740992" by simp
        moreover have "0 \<le> b_off b ! ?k" using less.prems(2) k by simp
        ultimately have "dbl_succ (b_off b ! ?k) = b_off b ! ?k + 1" by (rule dbl_succ_small [rotated])
        then show ?thesis by (simp add: put_def)
      qed
      have bnd: "\<forall>k<length (b_off ?b1). 0 \<le> b_off ?b1 ! k \<and>
          b_off (foldl (put c kmers) ?b1 ?rest) ! k \<le> 9007199254740992"
      proof (intro allI impI)
        fix k assume "k < length (b_off ?b1)"
        then have k: "k < length (b_off b)" using lb by simp
        with less.prems(2) have "0 \<le> b_off b ! k"
          "b_off (foldl (put c kmers) ?b1 ?rest) ! k \<le> 9007199254740992"
          by (simp_all add: fin)
        moreover have "b_off b ! k \<le> b_off ?b1 ! k"
          using k by (cases "k = nat (kmers ! j)") (simp_all add: put_def)
        ultimately show "0 \<le> b_off ?b1 ! k \<and>
          b_off (foldl (put c kmers) ?b1 ?rest) ! k \<le> 9007199254740992" by simp
      qed
      from less.hyps [OF dec next_m bnd] True um
      show ?thesis
        by (subst update_seq.simps) (simp add: fin nx same Let_def)
    next
      case False
      have fin: "foldl (put c kmers) b (aligned kmers s j)
          = foldl (put c kmers) b (aligned kmers s (j + nat s))"
        using False by (simp add: al)
      from less.hyps [OF dec next_m, of b] less.prems(2) True False
      show ?thesis
        by (subst update_seq.simps) (simp add: fin nx Let_def)
    qed
  qed
qed

text \<open>
  The bucket layout: bucket \<open>k\<close> is the slot range from \<open>off0 ! k\<close> of width \<open>cnt k\<close>;
  buckets are in increasing order, do not overlap and lie inside the index array.
\<close>

definition layout :: "int list \<Rightarrow> (nat \<Rightarrow> nat) \<Rightarrow> nat \<Rightarrow> bool" where
  "layout off0 cnt N =
    ((\<forall>k<length off0. 0 \<le> off0 ! k \<and> off0 ! k + int (cnt k) \<le> int N) \<and>
     (\<forall>k<length off0. \<forall>k'<length off0. k < k' \<longrightarrow> off0 ! k + int (cnt k) \<le> off0 ! k'))"

definition binv ::
  "int list \<Rightarrow> int list \<Rightarrow> int \<Rightarrow> (nat \<times> int) list \<Rightarrow> build_state \<Rightarrow> bool" where
  "binv off0 ind0 c0 dn b =
    (length (b_off b) = length off0 \<and> length (b_ind b) = length ind0 \<and>
     (\<forall>k<length off0. b_off b ! k = off0 ! k + int (count_list (map fst dn) k)) \<and>
     (\<forall>x<length ind0. (\<forall>k<length off0. \<not> (off0 ! k \<le> int x \<and> int x < b_off b ! k))
         \<longrightarrow> b_ind b ! x = ind0 ! x) \<and>
     (\<forall>t. c0 < t \<longrightarrow> count_list (b_ind b) t = count_list (map snd dn) t))"

lemma count_list_update_fresh:
  "i < length xs \<Longrightarrow> xs ! i \<noteq> a \<Longrightarrow>
   count_list (xs[i := v]) a = count_list xs a + (if v = a then 1 else 0)"
proof (induction xs arbitrary: i)
  case Nil
  then show ?case by simp
next
  case (Cons x xs)
  then show ?case by (cases i) auto
qed

lemma binv_put:
  assumes inv: "binv off0 ind0 c0 dn b"
    and lay: "layout off0 cnt (length ind0)"
    and k: "k < length off0" and t: "c0 < t"
    and fresh: "\<forall>x\<in>set ind0. x \<le> c0"
    and room: "\<forall>k'. count_list (map fst (dn @ [(k, t)])) k' \<le> cnt k'"
  shows "binv off0 ind0 c0 (dn @ [(k, t)])
          (b\<lparr>b_ind := (b_ind b)[nat (b_off b ! k) := t],
             b_loc := (b_loc b)[nat (b_off b ! k) := l],
             b_off := (b_off b)[k := b_off b ! k + 1]\<rparr>)"
proof -
  let ?L = "length off0"
  let ?N = "length ind0"
  let ?x = "nat (b_off b ! k)"
  let ?off = "(b_off b)[k := b_off b ! k + 1]"
  let ?ind = "(b_ind b)[?x := t]"
  from inv have lo: "length (b_off b) = ?L" and li: "length (b_ind b) = ?N"
    and off: "\<And>k'. k' < ?L \<Longrightarrow> b_off b ! k' = off0 ! k' + int (count_list (map fst dn) k')"
    and unw: "\<And>x. x < ?N \<Longrightarrow> (\<forall>k'<?L. \<not> (off0 ! k' \<le> int x \<and> int x < b_off b ! k'))
                \<Longrightarrow> b_ind b ! x = ind0 ! x"
    and cnts: "\<And>t'. c0 < t' \<Longrightarrow> count_list (b_ind b) t' = count_list (map snd dn) t'"
    by (simp_all add: binv_def)
  from lay have l1: "\<And>k'. k' < ?L \<Longrightarrow> 0 \<le> off0 ! k' \<and> off0 ! k' + int (cnt k') \<le> int ?N"
    and l2: "\<And>k1 k2. k1 < ?L \<Longrightarrow> k2 < ?L \<Longrightarrow> k1 < k2 \<Longrightarrow> off0 ! k1 + int (cnt k1) \<le> off0 ! k2"
    by (simp_all add: layout_def)
  have le: "count_list (map fst dn) k' \<le> cnt k'" for k'
    using room [rule_format, of k'] by (simp split: if_splits)
  have lt: "count_list (map fst dn) k < cnt k"
    using room [rule_format, of k] by simp
  have xk: "b_off b ! k = off0 ! k + int (count_list (map fst dn) k)" by (rule off [OF k])
  have x0: "0 \<le> b_off b ! k" using xk l1 [OF k] by simp
  have xN: "?x < ?N" using xk l1 [OF k] lt by linarith
  have xin: "off0 ! k \<le> int ?x" "int ?x < off0 ! k + int (cnt k)" using xk x0 lt by simp_all
  have unwritten: "\<not> (off0 ! k' \<le> int ?x \<and> int ?x < b_off b ! k')" if k': "k' < ?L" for k'
  proof (cases k' k rule: linorder_cases)
    case less
    have "b_off b ! k' \<le> off0 ! k' + int (cnt k')" using off [OF k'] le [of k'] by simp
    also have "\<dots> \<le> off0 ! k" by (rule l2 [OF k' k less])
    finally show ?thesis using xin by simp
  next
    case equal
    then show ?thesis using x0 by simp
  next
    case greater
    have "int ?x < off0 ! k + int (cnt k)" by (rule xin)
    also have "\<dots> \<le> off0 ! k'" by (rule l2 [OF k k' greater])
    finally show ?thesis by simp
  qed
  have old: "b_ind b ! ?x = ind0 ! ?x" using unw [OF xN] unwritten by blast
  have oldle: "b_ind b ! ?x \<le> c0" using old fresh xN by simp
  have c1: "?off ! k' = off0 ! k' + int (count_list (map fst (dn @ [(k, t)])) k')" if "k' < ?L" for k'
    using off [OF that] lo that by (cases "k' = k") (simp_all add: nth_list_update)
  have c2: "?ind ! x = ind0 ! x"
    if x: "x < ?N" and nw: "\<forall>k'<?L. \<not> (off0 ! k' \<le> int x \<and> int x < ?off ! k')" for x
  proof -
    have ne: "x \<noteq> ?x"
    proof
      assume "x = ?x"
      with nw [rule_format, OF k] xin(1) lo k x0 show False by simp
    qed
    have "\<not> (off0 ! k' \<le> int x \<and> int x < b_off b ! k')" if k': "k' < ?L" for k'
      using nw [rule_format, OF k'] lo k' by (cases "k' = k") (auto simp: nth_list_update)
    with unw [OF x] have "b_ind b ! x = ind0 ! x" by blast
    with ne show ?thesis by simp
  qed
  have c3: "count_list ?ind t' = count_list (map snd (dn @ [(k, t)])) t'" if t': "c0 < t'" for t'
  proof -
    have "b_ind b ! ?x \<noteq> t'" using oldle t' by simp
    from count_list_update_fresh [OF _ this, of t] xN li cnts [OF t'] show ?thesis by simp
  qed
  show ?thesis
    unfolding binv_def using lo li c1 c2 c3 by simp
qed


definition events :: "int \<Rightarrow> int list \<Rightarrow> nat list \<Rightarrow> (nat \<times> int) list" where
  "events c kmers js = map (\<lambda>j. (nat (kmers ! j), c)) js"

lemma binv_foldl_put:
  assumes lay: "layout off0 cnt (length ind0)" and t: "c0 < c"
    and fresh: "\<forall>x\<in>set ind0. x \<le> c0"
  shows "binv off0 ind0 c0 dn b \<Longrightarrow> \<forall>j\<in>set js. nat (kmers ! j) < length off0 \<Longrightarrow>
    \<forall>k'. count_list (map fst (dn @ events c kmers js)) k' \<le> cnt k' \<Longrightarrow>
    binv off0 ind0 c0 (dn @ events c kmers js) (foldl (put c kmers) b js)"
proof (induction js arbitrary: dn b)
  case Nil
  then show ?case by (simp add: events_def)
next
  case (Cons j js)
  let ?k = "nat (kmers ! j)"
  have k: "?k < length off0" using Cons.prems(2) by simp
  have split: "dn @ events c kmers (j # js) = (dn @ [(?k, c)]) @ events c kmers js"
    by (simp add: events_def)
  have room1: "\<forall>k'. count_list (map fst (dn @ [(?k, c)])) k' \<le> cnt k'"
  proof
    fix k'
    have "count_list (map fst (dn @ [(?k, c)])) k'
        \<le> count_list (map fst ((dn @ [(?k, c)]) @ events c kmers js)) k'"
      by (simp only: map_append count_list_append)
    also have "\<dots> \<le> cnt k'" using Cons.prems(3) [rule_format, of k'] by (simp only: split)
    finally show "count_list (map fst (dn @ [(?k, c)])) k' \<le> cnt k'" .
  qed
  from binv_put [OF Cons.prems(1) lay k t fresh room1, of "int j + 1"]
  have "binv off0 ind0 c0 (dn @ [(?k, c)]) (put c kmers b j)" by (simp add: put_def)
  from Cons.IH [OF this] Cons.prems(2,3) show ?case by (simp add: split)
qed

definition seq_events :: "int list list \<Rightarrow> int \<Rightarrow> int \<Rightarrow> nat \<Rightarrow> (nat \<times> int) list" where
  "seq_events query s c0 i = events (c0 + int i + 1) (query ! i) (aligned (query ! i) s 0)"

definition done_events :: "int list list \<Rightarrow> int \<Rightarrow> int \<Rightarrow> nat \<Rightarrow> (nat \<times> int) list" where
  "done_events query s c0 i = concat (map (seq_events query s c0) [0..<i])"

definition codes_ok :: "int list list \<Rightarrow> nat \<Rightarrow> bool" where
  "codes_ok query L =
    (\<forall>i<length query. \<forall>j<length (query ! i).
       query ! i ! j \<noteq> NA_INTEGER \<longrightarrow> 0 \<le> query ! i ! j \<and> query ! i ! j < int L)"

lemma done_events_Suc:
  "done_events query s c0 (Suc i) = done_events query s c0 i @ seq_events query s c0 i"
  by (simp add: done_events_def)

lemma done_events_count_mono:
  "i \<le> n \<Longrightarrow> count_list (map fst (done_events query s c0 i)) k
             \<le> count_list (map fst (done_events query s c0 n)) k"
proof (induction n)
  case 0
  then show ?case by simp
next
  case (Suc n)
  show ?case
  proof (cases "i = Suc n")
    case True
    then show ?thesis by simp
  next
    case False
    with Suc.prems have "i \<le> n" by simp
    from Suc.IH [OF this] show ?thesis
      using done_events_Suc [of query s c0 n] by simp
  qed
qed

lemma update_seqs_binv:
  assumes s: "0 < s" and q: "quiet poll" and ok: "codes_ok query (length off0)"
    and lay: "layout off0 (\<lambda>k. count_list (map fst (done_events query s c0 (length query))) k)
                (length ind0)"
    and fresh: "\<forall>x\<in>set ind0. x \<le> c0"
    and n: "short_seqs query s"
    and ids: "0 \<le> c0" "c0 + int (length query) \<le> 2147483647"
    and big: "int (length ind0) \<le> 9007199254740992"
  shows "binv off0 ind0 c0 (done_events query s c0 i) b \<Longrightarrow> i \<le> length query \<Longrightarrow>
    \<exists>b'. update_seqs poll query K s c0 (c0 + int i) i b = Some (Inr b') \<and>
         binv off0 ind0 c0 (done_events query s c0 (length query)) b'"
proof (induction "length query - i" arbitrary: i b rule: less_induct)
  case less
  show ?case
  proof (cases "i < length query")
    case False
    with less.prems have "i = length query" by simp
    with less.prems show ?thesis by (subst update_seqs.simps) simp
  next
    case True
    let ?kmers = "query ! i"
    let ?c = "c0 + int i + 1"
    let ?b1 = "b\<lparr>b_pos := (b_pos b)[nat (c0 + int i) :=
                 positions_loop ?kmers K s 0 (- 1 * s - 1) (b_pos b ! nat (c0 + int i))]\<rparr>"
    let ?b2 = "foldl (put ?c ?kmers) ?b1 (aligned ?kmers s 0)"
    let ?cnt = "\<lambda>k. count_list (map fst (done_events query s c0 (length query))) k"
    have cw: "wrap32 (c0 + int i + 1) = ?c" using ids True by (intro wrap32_small) simp_all
    have inv1: "binv off0 ind0 c0 (done_events query s c0 i) ?b1"
      using less.prems(1) by (simp add: binv_def)
    have rng: "\<forall>j\<in>set (aligned ?kmers s 0). nat (?kmers ! j) < length off0"
    proof
      fix j assume "j \<in> set (aligned ?kmers s 0)"
      then have "j < length ?kmers" "?kmers ! j \<noteq> NA_INTEGER" by (auto simp: aligned_def)
      with ok True have "0 \<le> ?kmers ! j \<and> ?kmers ! j < int (length off0)"
        unfolding codes_ok_def by blast
      then show "nat (?kmers ! j) < length off0" by linarith
    qed
    have room: "\<forall>k'. count_list (map fst (done_events query s c0 i
                  @ events ?c ?kmers (aligned ?kmers s 0))) k'
                \<le> count_list (map fst (done_events query s c0 (length query))) k'"
      using done_events_count_mono [of "i + 1" "length query" query s c0] True
      by (simp add: done_events_Suc seq_events_def)
    have t: "c0 < ?c" by simp
    from binv_foldl_put [OF lay t fresh inv1 rng room]
    have inv2: "binv off0 ind0 c0 (done_events query s c0 (i + 1)) ?b2"
      by (simp add: done_events_Suc seq_events_def)
    have ln: "int (length ?kmers) + s \<le> 2147483648"
      using n True by (simp add: short_seqs_def)
    have bnd: "\<forall>k<length (b_off ?b1). 0 \<le> b_off ?b1 ! k \<and> b_off ?b2 ! k \<le> 9007199254740992"
    proof (intro allI impI)
      fix k assume "k < length (b_off ?b1)"
      then have k: "k < length off0" using inv1 by (simp add: binv_def)
      from lay k have l: "0 \<le> off0 ! k" "off0 ! k + int (?cnt k) \<le> int (length ind0)"
        by (simp_all add: layout_def)
      from inv1 k have "b_off ?b1 ! k = off0 ! k + int (count_list (map fst (done_events query s c0 i)) k)"
        unfolding binv_def by blast
      with l(1) have lo: "0 \<le> b_off ?b1 ! k" by simp
      from inv2 k have "b_off ?b2 ! k
          = off0 ! k + int (count_list (map fst (done_events query s c0 (i + 1))) k)"
        unfolding binv_def by blast
      moreover have "count_list (map fst (done_events query s c0 (i + 1))) k \<le> ?cnt k"
        using done_events_count_mono [of "i + 1" "length query" query s c0 k] True by simp
      ultimately have "b_off ?b2 ! k \<le> int (length ind0)" using l(2) by linarith
      with big lo show "0 \<le> b_off ?b1 ! k \<and> b_off ?b2 ! k \<le> 9007199254740992" by simp
    qed
    have seq: "update_seq ?kmers s ?c 0 ?b1 = Some ?b2"
      using update_seq_fold [OF s ln, of 0 ?b1 ?c] bnd by simp
    have dec: "length query - (i + 1) < length query - i" using True by simp
    from less.hyps [OF dec inv2] True
    obtain b' where b': "update_seqs poll query K s c0 (c0 + int (i + 1)) (i + 1) ?b2 = Some (Inr b')"
      "binv off0 ind0 c0 (done_events query s c0 (length query)) b'" by auto
    have cn: "c0 + int (i + 1) = ?c" by simp
    from q have "poll i = None \<or> poll i = Some 0" by (simp add: quiet_def)
    then have "update_seqs poll query K s c0 (c0 + int i) i b = Some (Inr b')"
      using True seq b'(1) unfolding cn by (subst update_seqs.simps) (auto simp: Let_def cw)
    with b'(2) show ?thesis by blast
  qed
qed


lemma done_events_codes:
  "map fst (done_events query s c0 (length query)) = all_codes s query"
proof -
  have "map fst (seq_events query s c0 i) = codes s (query ! i)" for i
    by (simp add: seq_events_def events_def codes_def comp_def)
  then have "map fst (done_events query s c0 (length query))
      = concat (map (\<lambda>i. codes s (query ! i)) [0..<length query])"
    by (simp add: done_events_def map_concat comp_def)
  also have "\<dots> = concat (map (codes s) (map (\<lambda>i. query ! i) [0..<length query]))"
    by (simp add: comp_def)
  finally show ?thesis by (simp add: map_nth all_codes_def)
qed

lemma count_list_replicate_eq:
  "count_list (replicate n x) y = (if x = y then n else 0)"
  by (induction n) auto

lemma done_events_targets:
  "count_list (map snd (done_events query s c0 n)) (c0 + int i + 1)
     = (if i < n then length (aligned (query ! i) s 0) else 0)"
proof (induction n)
  case 0
  then show ?case by (simp add: done_events_def)
next
  case (Suc n)
  have "map snd (seq_events query s c0 n)
      = replicate (length (aligned (query ! n) s 0)) (c0 + int n + 1)"
    by (simp add: seq_events_def events_def comp_def map_replicate_const)
  then have "count_list (map snd (seq_events query s c0 n)) (c0 + int i + 1)
      = (if i = n then length (aligned (query ! i) s 0) else 0)"
    by (simp add: count_list_replicate_eq)
  with Suc.IH show ?case by (auto simp: done_events_Suc)
qed

lemma sum_take_mono:
  assumes "\<forall>x\<in>set xs. (0::int) \<le> x" "a \<le> b"
  shows "sum_list (take a xs) \<le> sum_list (take b xs)"
proof -
  have "take b xs = take a xs @ take (b - a) (drop a xs)"
    using assms(2) by (metis le_add_diff_inverse take_add)
  moreover have "0 \<le> sum_list (take (b - a) (drop a xs))"
    using assms(1) by (intro sum_list_nonneg) (auto dest: in_set_takeD in_set_dropD)
  ultimately show ?thesis by simp
qed

lemma offsets_layout:
  assumes cnt: "\<forall>k<length counts. counts ! k = int (cnt k)"
  shows "layout (offsets counts) cnt (nat (sum_list counts))"
proof -
  let ?L = "length counts"
  from offsets_prefix [of counts]
  have len: "length (offsets counts) = ?L"
    and pre: "\<And>k. k < ?L \<Longrightarrow> offsets counts ! k = sum_list (take k counts)" by simp_all
  have nn: "\<forall>x\<in>set counts. 0 \<le> x" using cnt by (auto simp: in_set_conv_nth)
  have tot: "0 \<le> sum_list counts" using nn by (intro sum_list_nonneg) simp
  have nxt: "sum_list (take k counts) + int (cnt k) = sum_list (take (Suc k) counts)" if "k < ?L" for k
    using that cnt by (simp add: take_Suc_conv_app_nth)
  have a: "0 \<le> offsets counts ! k \<and> offsets counts ! k + int (cnt k) \<le> int (nat (sum_list counts))"
    if k: "k < ?L" for k
  proof -
    have "0 \<le> sum_list (take k counts)"
      using nn by (intro sum_list_nonneg) (auto dest: in_set_takeD)
    moreover have "sum_list (take (Suc k) counts) \<le> sum_list (take ?L counts)"
      using sum_take_mono [OF nn, of "Suc k" ?L] k by simp
    ultimately show ?thesis using pre [OF k] nxt [OF k] tot by simp
  qed
  have b: "offsets counts ! k + int (cnt k) \<le> offsets counts ! k'"
    if "k < ?L" "k' < ?L" "k < k'" for k k'
    using that pre nxt [OF that(1)] sum_take_mono [OF nn, of "Suc k" k'] by simp
  show ?thesis unfolding layout_def using a b len by simp
qed

lemma binv_init:
  assumes "\<forall>x\<in>set (b_ind b). x \<le> c0"
  shows "binv (b_off b) (b_ind b) c0 [] b"
proof -
  have "count_list (b_ind b) t = 0" if "c0 < t" for t
    using assms that by (auto simp: count_list_0_iff)
  then show ?thesis by (simp add: binv_def)
qed

text \<open>
  Claim C9. Let the step be positive, every code lie inside the table, neither call be
  interrupted, every sequence be short enough for its loop counter
  (\<open>length + step \<le> 2\<^sup>3\<^sup>1\<close>) and no code occur at more than \<open>2\<^sup>3\<^sup>1 - 1\<close> stride-aligned
  unmasked positions of the corpus.  Then \<open>countIndex\<close> on zeroed counts over the whole
  corpus returns the counts.  For every builder state whose offsets are the cumulative
  prefix of those counts, whose index array has one slot per counted occurrence (at most
  \<open>2\<^sup>5\<^sup>3\<close>) and holds no target id of this run yet, and every start count \<open>c0 \<ge> 0\<close> with
  \<open>c0 + n \<le> 2\<^sup>3\<^sup>1 - 1\<close> for the \<open>n\<close> sequences, \<open>updateIndex\<close> over the same corpus returns a
  state in which each code's offset has advanced by exactly its count, and each target's id
  occurs in the index array once per stride-aligned unmasked position of that target.
\<close>

theorem builder_round_trip:
  assumes s: "0 < s" and q: "quiet poll" and q': "quiet poll'" and ok: "codes_ok query L"
    and n: "short_seqs query s"
    and cb: "\<forall>k<L. int (count_list (all_codes s query) k) \<le> 2147483647"
    and ids: "0 \<le> c0" "c0 + int (length query) \<le> 2147483647"
  shows "\<exists>counts. countIndex False poll (replicate L 0) query s = Some (Inr counts) \<and>
    length counts = L \<and>
    (\<forall>k<L. counts ! k = int (count_list (all_codes s query) k)) \<and>
    (\<forall>b. b_off b = offsets counts \<and> length (b_ind b) = nat (sum_list counts) \<and>
          int (length (b_ind b)) \<le> 9007199254740992 \<and>
          (\<forall>x\<in>set (b_ind b). x \<le> c0) \<longrightarrow>
       (\<exists>b'. updateIndex False poll' b query K s c0 = Some (Inr b') \<and>
          (\<forall>k<L. b_off b' ! k = b_off b ! k + counts ! k) \<and>
          (\<forall>i<length query.
             count_list (b_ind b') (c0 + int i + 1) = length (aligned (query ! i) s 0))))"
proof -
  let ?counts = "foldl incr (replicate L 0) (all_codes s query)"
  let ?n = "length query"
  let ?cnt = "\<lambda>k. count_list (map fst (done_events query s c0 ?n)) k"
  have cres: "countIndex False poll (replicate L 0) query s = Some (Inr ?counts)"
    by (rule countIndex_counts [OF s q n cb])
  have clen: "length ?counts = L" by simp
  have cval: "?counts ! k = int (?cnt k)" if "k < L" for k
    using foldl_incr_nth [of k "replicate L 0" "all_codes s query"] that
    by (simp add: done_events_codes)
  have cval': "\<forall>k<L. ?counts ! k = int (count_list (all_codes s query) k)"
    using cval by (simp add: done_events_codes)
  have upd: "\<exists>b'. updateIndex False poll' b query K s c0 = Some (Inr b') \<and>
          (\<forall>k<L. b_off b' ! k = b_off b ! k + ?counts ! k) \<and>
          (\<forall>i<?n. count_list (b_ind b') (c0 + int i + 1) = length (aligned (query ! i) s 0))"
    if b: "b_off b = offsets ?counts" "length (b_ind b) = nat (sum_list ?counts)"
      "int (length (b_ind b)) \<le> 9007199254740992"
      "\<forall>x\<in>set (b_ind b). x \<le> c0" for b
  proof -
    have offlen: "length (b_off b) = L" using b(1) offsets_prefix [of ?counts] by simp
    have lay: "layout (b_off b) ?cnt (length (b_ind b))"
      using offsets_layout [of ?counts ?cnt] cval clen b(1,2) by simp
    have ok': "codes_ok query (length (b_off b))" using ok offlen by simp
    have init: "binv (b_off b) (b_ind b) c0 (done_events query s c0 0) b"
      using binv_init [OF b(4)] by (simp add: done_events_def)
    from update_seqs_binv [OF s q' ok' lay b(4) n ids b(3) init, of K]
    obtain b' where b': "update_seqs poll' query K s c0 c0 0 b = Some (Inr b')"
      "binv (b_off b) (b_ind b) c0 (done_events query s c0 ?n) b'"
      by auto
    have "b_off b' ! k = b_off b ! k + ?counts ! k" if "k < L" for k
      using b'(2) that offlen cval [OF that] by (simp add: binv_def)
    moreover have "count_list (b_ind b') (c0 + int i + 1) = length (aligned (query ! i) s 0)"
      if "i < ?n" for i
    proof -
      have "c0 < c0 + int i + 1" by simp
      with b'(2) have "count_list (b_ind b') (c0 + int i + 1)
          = count_list (map snd (done_events query s c0 ?n)) (c0 + int i + 1)"
        unfolding binv_def by blast
      with that show ?thesis by (simp add: done_events_targets)
    qed
    ultimately show ?thesis using b'(1) by (simp add: updateIndex_def)
  qed
  from cres clen cval' upd show ?thesis by blast
qed

definition ex_corpus :: "int list list" where
  "ex_corpus = [[0, NA_INTEGER, 1], [1]]"

definition ex_build :: build_state where
  "ex_build = \<lparr>b_off = [0, 1], b_loc = [0, 0, 0], b_ind = [0, 0, 0], b_pos = [0, 0]\<rparr>"

theorem builder_round_trip_witness:
  "countIndex False (\<lambda>i. None) (replicate 2 0) ex_corpus 1 = Some (Inr [1, 2]) \<and>
   (\<exists>b'. updateIndex False (\<lambda>i. None) ex_build ex_corpus 3 1 0 = Some (Inr b') \<and>
      b_off b' ! 0 = 1 \<and> b_off b' ! 1 = 3 \<and>
      count_list (b_ind b') 1 = 2 \<and> count_list (b_ind b') 2 = 1)"
proof -
  have q: "quiet (\<lambda>i. None)" by (simp add: quiet_def)
  have ok: "codes_ok ex_corpus 2"
    by (simp add: codes_ok_def ex_corpus_def less_Suc_eq NA_INTEGER_def eval_nat_numeral
        nth_Cons')
  have sh: "short_seqs ex_corpus 1" by (simp add: short_seqs_def ex_corpus_def)
  have ev: "countIndex False (\<lambda>i. None) (replicate 2 0) ex_corpus 1 = Some (Inr [1, 2])"
    by code_simp
  have ac: "all_codes 1 ex_corpus = [0, 1, 1]" by code_simp
  have cb: "\<forall>k<2. int (count_list (all_codes 1 ex_corpus) k) \<le> 2147483647"
  proof (intro allI impI)
    fix k :: nat assume "k < 2"
    then have "k = 0 \<or> k = 1" by auto
    then show "int (count_list (all_codes 1 ex_corpus) k) \<le> 2147483647"
      by (auto simp: ac)
  qed
  have off: "b_off ex_build = offsets [1, 2]" by code_simp
  have sz: "length (b_ind ex_build) = nat (sum_list [1, 2])" by (simp add: ex_build_def)
  have sm: "int (length (b_ind ex_build)) \<le> 9007199254740992" by (simp add: ex_build_def)
  have fr: "\<forall>x\<in>set (b_ind ex_build). x \<le> 0" by (simp add: ex_build_def)
  have a0: "length (aligned (ex_corpus ! 0) 1 0) = 2" by code_simp
  have a1: "length (aligned (ex_corpus ! 1) 1 0) = 1" by code_simp
  have n: "length ex_corpus = 2" by (simp add: ex_corpus_def)
  have ids: "(0::int) \<le> 0" "0 + int (length ex_corpus) \<le> 2147483647" by (simp_all add: n)
  have s1: "(0::int) < 1" by simp
  from builder_round_trip [OF s1 q q ok sh cb ids, of 3]
  obtain counts where c: "countIndex False (\<lambda>i. None) (replicate 2 0) ex_corpus 1 = Some (Inr counts)"
    and u: "\<forall>b. b_off b = offsets counts \<and> length (b_ind b) = nat (sum_list counts) \<and>
          int (length (b_ind b)) \<le> 9007199254740992 \<and>
          (\<forall>x\<in>set (b_ind b). x \<le> 0) \<longrightarrow>
       (\<exists>b'. updateIndex False (\<lambda>i. None) b ex_corpus 3 1 0 = Some (Inr b') \<and>
          (\<forall>k<2. b_off b' ! k = b_off b ! k + counts ! k) \<and>
          (\<forall>i<length ex_corpus.
             count_list (b_ind b') (0 + int i + 1) = length (aligned (ex_corpus ! i) 1 0)))"
    by blast
  from c ev have cs: "counts = [1, 2]" by simp
  from u [rule_format, of ex_build] off sz sm fr cs
  obtain b' where b': "updateIndex False (\<lambda>i. None) ex_build ex_corpus 3 1 0 = Some (Inr b')"
    "\<forall>k<2. b_off b' ! k = b_off ex_build ! k + [1, 2] ! k"
    "\<forall>i<length ex_corpus. count_list (b_ind b') (0 + int i + 1) = length (aligned (ex_corpus ! i) 1 0)"
    by auto
  from b'(2) have "b_off b' ! 0 = 1" "b_off b' ! 1 = 3" by (simp_all add: ex_build_def)
  moreover from b'(3) [rule_format, of 0] b'(3) [rule_format, of 1] n a0 a1
  have "count_list (b_ind b') 1 = 2" "count_list (b_ind b') 2 = 1" by simp_all
  ultimately show ?thesis using ev b'(1) by blast
qed

definition slice :: "'a list \<Rightarrow> nat \<Rightarrow> nat \<Rightarrow> 'a list" where
  "slice xs a b = take (b - a) (drop a xs)"

lemma slice_empty [simp]: "b \<le> a \<Longrightarrow> slice xs a b = []"
  by (simp add: slice_def)

lemma slice_Cons: "a < b \<Longrightarrow> b \<le> length xs \<Longrightarrow> slice xs a b = xs ! a # slice xs (a + 1) b"
proof -
  assume a: "a < b" "b \<le> length xs"
  then have "drop a xs = xs ! a # drop (Suc a) xs" by (simp add: Cons_nth_drop_Suc)
  moreover have "b - a = Suc (b - Suc a)" using a by simp
  ultimately show ?thesis by (simp add: slice_def)
qed

lemma length_slice [simp]: "b \<le> length xs \<Longrightarrow> length (slice xs a b) = b - a"
  by (simp add: slice_def)

lemma slice_nth: "a + i < b \<Longrightarrow> b \<le> length xs \<Longrightarrow> slice xs a b ! i = xs ! (a + i)"
  by (simp add: slice_def)

lemma slice_append_left: "b \<le> length xs \<Longrightarrow> slice (xs @ ys) a b = slice xs a b"
  by (simp add: slice_def)

lemma slice_append_right:
  "length xs \<le> a \<Longrightarrow> slice (xs @ ys) a b = slice ys (a - length xs) (b - length xs)"
  by (simp add: slice_def)

lemma slice_all: "slice xs 0 (length xs) = xs"
  by (simp add: slice_def)

lemma slice_split: "a \<le> m \<Longrightarrow> m \<le> b \<Longrightarrow> slice xs a b = slice xs a m @ slice xs m b"
proof -
  assume a: "a \<le> m" "m \<le> b"
  have "take (b - a) (drop a xs) = take (m - a) (drop a xs) @ take (b - m) (drop (m - a) (drop a xs))"
    using a by (metis Nat.add_diff_assoc2 add_diff_cancel_left' le_add_diff_inverse take_add
        diff_diff_cancel diff_le_self le_add_diff_inverse2)
  then show ?thesis using a by (simp add: slice_def)
qed

definition hit_le :: "int list \<Rightarrow> int list \<Rightarrow> nat \<Rightarrow> nat \<Rightarrow> bool" where
  "hit_le st pt x y = (if st ! x = st ! y then pt ! x \<le> pt ! y else st ! x < st ! y)"

definition hit_before :: "int list \<Rightarrow> int list \<Rightarrow> nat \<Rightarrow> nat \<Rightarrow> bool" where
  "hit_before st pt x y =
    (st ! x < st ! y \<or> (st ! x = st ! y \<and> (pt ! x < pt ! y \<or> (pt ! x = pt ! y \<and> x < y))))"

lemma hit_before_trans:
  "hit_before st pt x y \<Longrightarrow> hit_before st pt y z \<Longrightarrow> hit_before st pt x z"
  unfolding hit_before_def by (elim disjE conjE) simp_all

lemma hit_before_irrefl [simp]: "\<not> hit_before st pt x x"
  by (simp add: hit_before_def)

lemma hit_le_before: "x < y \<Longrightarrow> hit_le st pt x y = hit_before st pt x y"
  by (auto simp: hit_le_def hit_before_def)

lemma not_hit_le_before: "x < y \<Longrightarrow> (\<not> hit_le st pt x y) = hit_before st pt y x"
  by (auto simp: hit_le_def hit_before_def)

fun merge_lists :: "int list \<Rightarrow> int list \<Rightarrow> nat list \<Rightarrow> nat list \<Rightarrow> nat list" where
  "merge_lists st pt [] ys = ys"
| "merge_lists st pt xs [] = xs"
| "merge_lists st pt (x # xs) (y # ys) =
    (if hit_le st pt x y then x # merge_lists st pt xs (y # ys)
     else y # merge_lists st pt (x # xs) ys)"

lemma merge_lists_Nil2 [simp]: "merge_lists st pt xs [] = xs"
  by (cases xs) simp_all

lemma set_merge_lists [simp]: "set (merge_lists st pt xs ys) = set xs \<union> set ys"
  by (induction st pt xs ys rule: merge_lists.induct) auto

lemma length_merge_lists [simp]: "length (merge_lists st pt xs ys) = length xs + length ys"
  by (induction st pt xs ys rule: merge_lists.induct) auto

lemma sorted_merge_lists:
  "sorted_wrt (hit_before st pt) xs \<Longrightarrow> sorted_wrt (hit_before st pt) ys \<Longrightarrow>
   \<forall>x\<in>set xs. \<forall>y\<in>set ys. x < y \<Longrightarrow>
   sorted_wrt (hit_before st pt) (merge_lists st pt xs ys)"
proof (induction st pt xs ys rule: merge_lists.induct)
  case (1 st pt ys)
  then show ?case by simp
next
  case (2 st pt v va)
  then show ?case by simp
next
  case (3 st pt x xs y ys)
  have xy: "x < y" using "3.prems"(3) by simp
  show ?case
  proof (cases "hit_le st pt x y")
    case True
    then have b: "hit_before st pt x y" using xy by (simp add: hit_le_before)
    have "hit_before st pt x z" if "z \<in> set ys" for z
      using b "3.prems"(2) that hit_before_trans by auto
    with b "3" True show ?thesis by auto
  next
    case False
    then have b: "hit_before st pt y x" using xy by (simp add: not_hit_le_before)
    have "hit_before st pt y z" if "z \<in> set xs" for z
      using b "3.prems"(1) that hit_before_trans by auto
    with b "3" False show ?thesis by auto
  qed
qed

lemma sorted_hit_before_distinct: "sorted_wrt (hit_before st pt) xs \<Longrightarrow> distinct xs"
  by (induction xs) auto

lemma copy_loop_slice:
  "hi \<le> length o2 \<Longrightarrow> copy_loop o2 hi j o1 = (max j hi, o1 @ slice o2 j hi)"
proof (induction o2 hi j o1 rule: copy_loop.induct)
  case (1 o2 hi j o1)
  show ?case
  proof (cases "j < hi")
    case True
    from "1.IH" [OF True "1.prems"] True "1.prems" show ?thesis
      by (subst copy_loop.simps) (simp add: slice_Cons max_def)
  next
    case False
    then show ?thesis by (subst copy_loop.simps) (simp add: max_def)
  qed
qed

lemma merge_loop_stop:
  "\<not> (j < hi1 \<and> k < hi2) \<Longrightarrow> merge_loop st pt o2 hi1 hi2 j k o1 = (j, k, o1)"
  by (subst merge_loop.simps) auto

lemma merge_loop_left:
  "j < hi1 \<Longrightarrow> k < hi2 \<Longrightarrow> hit_le st pt (o2 ! j) (o2 ! k) \<Longrightarrow>
   merge_loop st pt o2 hi1 hi2 j k o1 = merge_loop st pt o2 hi1 hi2 (j + 1) k (o1 @ [o2 ! j])"
  by (subst merge_loop.simps) (auto simp: hit_le_def)

lemma merge_loop_right:
  "j < hi1 \<Longrightarrow> k < hi2 \<Longrightarrow> \<not> hit_le st pt (o2 ! j) (o2 ! k) \<Longrightarrow>
   merge_loop st pt o2 hi1 hi2 j k o1 = merge_loop st pt o2 hi1 hi2 j (k + 1) (o1 @ [o2 ! k])"
  by (subst merge_loop.simps) (auto simp: hit_le_def)

lemma merge_loop_lists:
  assumes hi: "hi1 \<le> length o2" "hi2 \<le> length o2"
  shows "merge_loop st pt o2 hi1 hi2 j k o1 = (j1, k1, o1a) \<Longrightarrow>
    o1a @ slice o2 j1 hi1 @ slice o2 k1 hi2
      = o1 @ merge_lists st pt (slice o2 j hi1) (slice o2 k hi2)"
proof (induction "(hi1 - j) + (hi2 - k)" arbitrary: j k o1 rule: less_induct)
  case less
  show ?case
  proof (cases "j < hi1 \<and> k < hi2")
    case False
    then have "(j1, k1, o1a) = (j, k, o1)"
      using less.prems by (simp add: merge_loop_stop)
    moreover from False have "slice o2 j hi1 = [] \<or> slice o2 k hi2 = []" by auto
    ultimately show ?thesis by auto
  next
    case True
    then have sj: "slice o2 j hi1 = o2 ! j # slice o2 (j + 1) hi1"
      and sk: "slice o2 k hi2 = o2 ! k # slice o2 (k + 1) hi2"
      using hi by (simp_all add: slice_Cons)
    show ?thesis
    proof (cases "hit_le st pt (o2 ! j) (o2 ! k)")
      case left: True
      have "merge_loop st pt o2 hi1 hi2 (j + 1) k (o1 @ [o2 ! j]) = (j1, k1, o1a)"
        using less.prems True left by (simp add: merge_loop_left)
      moreover have "(hi1 - (j + 1)) + (hi2 - k) < (hi1 - j) + (hi2 - k)" using True by linarith
      ultimately have "o1a @ slice o2 j1 hi1 @ slice o2 k1 hi2
          = (o1 @ [o2 ! j]) @ merge_lists st pt (slice o2 (j + 1) hi1) (slice o2 k hi2)"
        using less.hyps by blast
      then show ?thesis using left by (simp add: sj sk)
    next
      case right: False
      have "merge_loop st pt o2 hi1 hi2 j (k + 1) (o1 @ [o2 ! k]) = (j1, k1, o1a)"
        using less.prems True right by (simp add: merge_loop_right)
      moreover have "(hi1 - j) + (hi2 - (k + 1)) < (hi1 - j) + (hi2 - k)" using True by linarith
      ultimately have "o1a @ slice o2 j1 hi1 @ slice o2 k1 hi2
          = (o1 @ [o2 ! k]) @ merge_lists st pt (slice o2 j hi1) (slice o2 (k + 1) hi2)"
        using less.hyps by blast
      then show ?thesis using right by (simp add: sj sk)
    qed
  qed
qed


lemma merge_loop_bound:
  "merge_loop st pt o2 hi1 hi2 j k o1 = (j1, k1, o1a) \<Longrightarrow> j \<le> hi1 \<Longrightarrow> k \<le> hi2 \<Longrightarrow>
   j1 \<le> hi1 \<and> k1 \<le> hi2"
proof (induction "(hi1 - j) + (hi2 - k)" arbitrary: j k o1 rule: less_induct)
  case less
  show ?case
  proof (cases "j < hi1 \<and> k < hi2")
    case False
    with less.prems show ?thesis by (simp add: merge_loop_stop)
  next
    case True
    show ?thesis
    proof (cases "hit_le st pt (o2 ! j) (o2 ! k)")
      case left: True
      have "merge_loop st pt o2 hi1 hi2 (j + 1) k (o1 @ [o2 ! j]) = (j1, k1, o1a)"
        using less.prems True left by (simp add: merge_loop_left)
      moreover have "(hi1 - (j + 1)) + (hi2 - k) < (hi1 - j) + (hi2 - k)" using True by linarith
      ultimately show ?thesis using less.hyps [of "j + 1" k] True less.prems by simp
    next
      case right: False
      have "merge_loop st pt o2 hi1 hi2 j (k + 1) (o1 @ [o2 ! k]) = (j1, k1, o1a)"
        using less.prems True right by (simp add: merge_loop_right)
      moreover have "(hi1 - j) + (hi2 - (k + 1)) < (hi1 - j) + (hi2 - k)" using True by linarith
      ultimately show ?thesis using less.hyps [of j "k + 1"] True less.prems by simp
    qed
  qed
qed

lemma merge_pass_stop: "\<not> group2 < c \<Longrightarrow> merge_pass st pt o2 counts c group1 group2 j o1 = o1"
  by (subst merge_pass.simps) simp

lemma merge_pass_step:
  assumes g: "group2 < c"
    and b: "j \<le> nat (counts ! group1)" "nat (counts ! group1) \<le> nat (counts ! group2)"
      "nat (counts ! group2) \<le> length o2"
  shows "merge_pass st pt o2 counts c group1 group2 j o1 =
    merge_pass st pt o2 counts c (group2 + 1) (group2 + 1 + 1) (nat (counts ! group2))
      (o1 @ merge_lists st pt (slice o2 j (nat (counts ! group1)))
              (slice o2 (nat (counts ! group1)) (nat (counts ! group2))))"
proof -
  let ?hi1 = "nat (counts ! group1)" and ?hi2 = "nat (counts ! group2)"
  obtain j1 k1 o1a where m: "merge_loop st pt o2 ?hi1 ?hi2 j ?hi1 o1 = (j1, k1, o1a)"
    by (cases "merge_loop st pt o2 ?hi1 ?hi2 j ?hi1 o1") auto
  have hi1: "?hi1 \<le> length o2" using b by simp
  from merge_loop_bound [OF m b(1,2)] have jk: "j1 \<le> ?hi1" "k1 \<le> ?hi2" by simp_all
  have c1: "copy_loop o2 ?hi1 j1 o1a = (?hi1, o1a @ slice o2 j1 ?hi1)"
    using copy_loop_slice [OF hi1, of j1 o1a] jk by (simp add: max_def)
  have c2: "copy_loop o2 ?hi2 k1 (o1a @ slice o2 j1 ?hi1)
      = (?hi2, (o1a @ slice o2 j1 ?hi1) @ slice o2 k1 ?hi2)"
    using copy_loop_slice [OF b(3), of k1 "o1a @ slice o2 j1 ?hi1"] jk by (simp add: max_def)
  have "(o1a @ slice o2 j1 ?hi1) @ slice o2 k1 ?hi2
      = o1 @ merge_lists st pt (slice o2 j ?hi1) (slice o2 ?hi1 ?hi2)"
    using merge_loop_lists [OF hi1 b(3) m] by simp
  with g m c1 c2 show ?thesis
    by (subst merge_pass.simps) (simp add: Let_def)
qed

text \<open>Run boundaries: run \<open>g\<close> of the cumulative counts spans \<open>bnd cs g\<close> to \<open>bnd cs (g + 1)\<close>.\<close>

definition bnd :: "int list \<Rightarrow> nat \<Rightarrow> nat" where
  "bnd cs g = (if g = 0 then 0 else nat (cs ! (g - 1)))"

lemma bnd_Suc: "bnd cs (Suc g) = nat (cs ! g)"
  by (simp add: bnd_def)

lemma bnd_0 [simp]: "bnd cs 0 = 0"
  by (simp add: bnd_def)

definition run_ok :: "int list \<Rightarrow> int list \<Rightarrow> nat list \<Rightarrow> nat \<Rightarrow> nat \<Rightarrow> bool" where
  "run_ok st pt o1 a b =
    (sorted_wrt (hit_before st pt) (slice o1 a b) \<and> set (slice o1 a b) = {a..<b})"

definition bnd_mono :: "int list \<Rightarrow> nat \<Rightarrow> bool" where
  "bnd_mono cs c = (\<forall>g<c. bnd cs g \<le> bnd cs (Suc g))"

lemma bnd_mono_le: "bnd_mono cs c \<Longrightarrow> g \<le> g' \<Longrightarrow> g' \<le> c \<Longrightarrow> bnd cs g \<le> bnd cs g'"
proof (induction g')
  case 0
  then show ?case by simp
next
  case (Suc g')
  show ?case
  proof (cases "g = Suc g'")
    case True
    then show ?thesis by simp
  next
    case False
    with Suc.prems have "g \<le> g'" "g' \<le> c" "g' < c" by simp_all
    with Suc.IH Suc.prems(1) have "bnd cs g \<le> bnd cs g'" "bnd cs g' \<le> bnd cs (Suc g')"
      by (simp_all add: bnd_mono_def)
    then show ?thesis by simp
  qed
qed

lemma run_ok_merge:
  assumes l: "run_ok st pt o2 a m" and r: "run_ok st pt o2 m b"
    and le: "a \<le> m" "m \<le> b" and len: "length o1 = a"
  shows "run_ok st pt (o1 @ merge_lists st pt (slice o2 a m) (slice o2 m b)) a b"
proof -
  let ?M = "merge_lists st pt (slice o2 a m) (slice o2 m b)"
  have sets: "set (slice o2 a m) = {a..<m}" "set (slice o2 m b) = {m..<b}"
    using l r by (simp_all add: run_ok_def)
  have lenM: "length ?M = b - a"
  proof -
    have "distinct (slice o2 a m)" "distinct (slice o2 m b)"
      using l r by (auto simp: run_ok_def intro: sorted_hit_before_distinct)
    then have "length (slice o2 a m) = m - a" "length (slice o2 m b) = b - m"
      using sets by (metis card_atLeastLessThan distinct_card)+
    then show ?thesis using le by simp
  qed
  have sl: "slice (o1 @ ?M) a b = ?M"
    using len lenM by (simp add: slice_def)
  have "sorted_wrt (hit_before st pt) ?M"
    using l r sets by (intro sorted_merge_lists) (auto simp: run_ok_def)
  moreover have "set ?M = {a..<b}" using sets le by auto
  ultimately show ?thesis by (simp add: run_ok_def sl)
qed

lemma run_ok_append: "run_ok st pt o1 a b \<Longrightarrow> b \<le> length o1 \<Longrightarrow> run_ok st pt (o1 @ xs) a b"
  by (simp add: run_ok_def slice_append_left)


definition pairs_ok :: "int list \<Rightarrow> int list \<Rightarrow> nat list \<Rightarrow> int list \<Rightarrow> nat \<Rightarrow> bool" where
  "pairs_ok st pt o1 cs g =
    (\<forall>p. 2 * p + 2 \<le> g \<longrightarrow> run_ok st pt o1 (bnd cs (2 * p)) (bnd cs (2 * p + 2)))"

lemma run_ok_length:
  "run_ok st pt o2 a b \<Longrightarrow> length (slice o2 a b) = b - a"
proof -
  assume r: "run_ok st pt o2 a b"
  then have "distinct (slice o2 a b)" by (auto simp: run_ok_def intro: sorted_hit_before_distinct)
  moreover have "set (slice o2 a b) = {a..<b}" using r by (simp add: run_ok_def)
  ultimately show ?thesis by (metis card_atLeastLessThan distinct_card)
qed

lemma merge_pass_inv:
  assumes runs: "\<forall>g<c. run_ok st pt o2 (bnd cs g) (bnd cs (Suc g))"
    and mono: "bnd_mono cs c" and top: "bnd cs c \<le> length o2"
  shows "even g1 \<Longrightarrow> g1 \<le> c \<Longrightarrow> length o1 = bnd cs g1 \<Longrightarrow> pairs_ok st pt o1 cs g1 \<Longrightarrow>
    \<exists>ge. even ge \<and> ge \<le> c \<and> c \<le> ge + 1 \<and>
      length (merge_pass st pt o2 cs c g1 (g1 + 1) (bnd cs g1) o1) = bnd cs ge \<and>
      pairs_ok st pt (merge_pass st pt o2 cs c g1 (g1 + 1) (bnd cs g1) o1) cs ge"
proof (induction "c - g1" arbitrary: g1 o1 rule: less_induct)
  case less
  show ?case
  proof (cases "g1 + 1 < c")
    case False
    then have "merge_pass st pt o2 cs c g1 (g1 + 1) (bnd cs g1) o1 = o1"
      by (simp add: merge_pass_stop)
    moreover have "c \<le> g1 + 1" using False by simp
    ultimately show ?thesis using less.prems by auto
  next
    case True
    let ?a = "bnd cs g1" and ?m = "bnd cs (g1 + 1)" and ?b = "bnd cs (g1 + 2)"
    let ?M = "merge_lists st pt (slice o2 ?a ?m) (slice o2 ?m ?b)"
    have am: "?a \<le> ?m" and mb: "?m \<le> ?b" and bt: "?b \<le> bnd cs c"
      using bnd_mono_le [OF mono, of g1 "g1 + 1"] bnd_mono_le [OF mono, of "g1 + 1" "g1 + 2"]
        bnd_mono_le [OF mono, of "g1 + 2" c] True by simp_all
    have bl: "?b \<le> length o2" using bt top by simp
    have l: "run_ok st pt o2 ?a ?m"
      using runs [rule_format, of g1] True by simp
    have r: "run_ok st pt o2 ?m ?b"
      using runs [rule_format, of "g1 + 1"] True by simp
    have step: "merge_pass st pt o2 cs c g1 (g1 + 1) ?a o1
        = merge_pass st pt o2 cs c (g1 + 2) (g1 + 2 + 1) ?b (o1 @ ?M)"
      using merge_pass_step [of "g1 + 1" c ?a cs g1 o2 st pt o1] True am mb bl
      by (simp add: bnd_Suc [symmetric])
    have lenM: "length ?M = ?b - ?a"
      using run_ok_length [OF l] run_ok_length [OF r] am mb by simp
    have len': "length (o1 @ ?M) = bnd cs (g1 + 2)"
      using less.prems(3) lenM am mb by simp
    have pk: "pairs_ok st pt (o1 @ ?M) cs (g1 + 2)"
      unfolding pairs_ok_def
    proof (intro allI impI)
      fix p assume p: "2 * p + 2 \<le> g1 + 2"
      show "run_ok st pt (o1 @ ?M) (bnd cs (2 * p)) (bnd cs (2 * p + 2))"
      proof (cases "2 * p + 2 \<le> g1")
        case True
        then have "run_ok st pt o1 (bnd cs (2 * p)) (bnd cs (2 * p + 2))"
          using less.prems(4) by (simp add: pairs_ok_def)
        moreover have "bnd cs (2 * p + 2) \<le> length o1"
          using less.prems(2,3) True bnd_mono_le [OF mono, of "2 * p + 2" g1] by simp
        ultimately show ?thesis by (rule run_ok_append)
      next
        case False
        from less.prems(1) have "g1 \<noteq> 2 * p + 1" by auto
        with False p have "2 * p = g1" by simp
        then show ?thesis
          using run_ok_merge [OF l r am mb less.prems(3)] by (simp add: add.commute)
      qed
    qed
    have dec: "c - (g1 + 2) < c - g1" using True by simp
    have ev: "even (g1 + 2)" using less.prems(1) by simp
    have le: "g1 + 2 \<le> c" using True by simp
    from less.hyps [OF dec ev le len' pk]
    show ?thesis unfolding step .
  qed
qed

lemma pair_counts_inv:
  "k = 2 * p \<Longrightarrow> c \<le> length cur \<Longrightarrow> length cur = length orig \<Longrightarrow>
   \<forall>q<p. cur ! q = orig ! (2 * q + 1) \<Longrightarrow> \<forall>q\<ge>p. cur ! q = orig ! q \<Longrightarrow>
   pair_counts cur c p k = (cur', p', k') \<Longrightarrow>
   length cur' = length orig \<and> (\<forall>q<p'. cur' ! q = orig ! (2 * q + 1)) \<and>
   (\<forall>q\<ge>p'. cur' ! q = orig ! q)"
proof (induction cur c p k rule: pair_counts.induct)
  case (1 counts c p k)
  show ?case
  proof (cases "int k < int c - 1")
    case False
    then have "(counts, p, k) = (cur', p', k')"
      using "1.prems"(6) by (subst (asm) pair_counts.simps) simp
    with "1.prems" show ?thesis by auto
  next
    case True
    let ?new = "counts[p := counts ! (k + 2 - 1)]"
    have rec: "pair_counts ?new c (p + 1) (k + 2) = (cur', p', k')"
      using "1.prems"(6) True by (subst (asm) pair_counts.simps) simp
    have pl: "p < length counts" using True "1.prems"(1,2) by simp
    have rd: "counts ! (k + 2 - 1) = orig ! (2 * p + 1)"
      using "1.prems"(1,5) by simp
    have a: "\<forall>q<p + 1. ?new ! q = orig ! (2 * q + 1)"
    proof (intro allI impI)
      fix q assume "q < p + 1"
      then show "?new ! q = orig ! (2 * q + 1)"
        using rd pl "1.prems"(4) by (cases "q = p") (simp_all add: nth_list_update)
    qed
    have b: "\<forall>q\<ge>p + 1. ?new ! q = orig ! q"
      using "1.prems"(5) by (simp add: nth_list_update)
    from "1.IH" [OF True _ _ _ a b rec] "1.prems"(1,2,3) show ?thesis by simp
  qed
qed

lemma merge_counts_inv:
  assumes c: "c \<le> length cs" and mc: "merge_counts cs c = (cs', c')"
  shows "c' = (c + 1) div 2" "length cs' = length cs"
    "\<forall>p. 2 * p + 1 < c \<longrightarrow> cs' ! p = cs ! (2 * p + 1)"
    "odd c \<longrightarrow> cs' ! ((c - 1) div 2) = cs ! (c - 1)"
proof -
  obtain cur p k where pc: "pair_counts cs c 0 0 = (cur, p, k)"
    by (cases "pair_counts cs c 0 0") auto
  from pair_counts_result [OF pc] have k: "k = 2 * p" "k \<le> c" "c \<le> k + 1" by simp_all
  from pair_counts_inv [OF _ c _ _ _ pc, of cs]
  have inv: "length cur = length cs" "\<forall>q<p. cur ! q = cs ! (2 * q + 1)" "\<forall>q\<ge>p. cur ! q = cs ! q"
    by simp_all
  show "c' = (c + 1) div 2" using merge_counts_c [of cs c] mc by simp
  show "length cs' = length cs" using mc inv(1) by (auto simp: merge_counts_def pc split: if_splits)
  show "\<forall>p. 2 * p + 1 < c \<longrightarrow> cs' ! p = cs ! (2 * p + 1)"
  proof (intro allI impI)
    fix q assume q: "2 * q + 1 < c"
    then have qp: "q < p" using k by simp
    then have "cur ! q = cs ! (2 * q + 1)" using inv(2) by simp
    then show "cs' ! q = cs ! (2 * q + 1)"
      using mc qp by (auto simp: merge_counts_def pc nth_list_update split: if_splits)
  qed
  show "odd c \<longrightarrow> cs' ! ((c - 1) div 2) = cs ! (c - 1)"
  proof
    assume "odd c"
    then have "c \<noteq> 2 * p" by auto
    then have kc: "k < c" "k = c - 1" using k by simp_all
    then have "(c - 1) div 2 = p" using k by simp
    moreover have "cur ! k = cs ! k" using inv(3) k by simp
    moreover have "p < length cur" using kc k c inv(1) by simp
    ultimately show "cs' ! ((c - 1) div 2) = cs ! (c - 1)"
      using mc kc by (auto simp: merge_counts_def pc)
  qed
qed


definition sort_inv :: "int list \<Rightarrow> int list \<Rightarrow> nat \<Rightarrow> nat list \<Rightarrow> int list \<Rightarrow> nat \<Rightarrow> bool" where
  "sort_inv st pt s o1 cs c =
    (length o1 = s \<and> 0 < c \<and> c \<le> length cs \<and> bnd_mono cs c \<and> bnd cs c = s \<and>
     (\<forall>g<c. run_ok st pt o1 (bnd cs g) (bnd cs (Suc g))))"

lemma bnd_merged:
  assumes c: "c \<le> length cs" and mc: "merge_counts cs c = (cs', c')" and p: "p \<le> c'"
  shows "bnd cs' p = bnd cs (min (2 * p) c)"
proof (cases p)
  case 0
  then show ?thesis by simp
next
  case (Suc q)
  note inv = merge_counts_inv [OF c mc]
  from p Suc inv(1) have q: "2 * q + 1 \<le> c" by simp
  show ?thesis
  proof (cases "2 * q + 1 < c")
    case True
    with inv(3) have "cs' ! q = cs ! (2 * q + 1)" by simp
    moreover have "min (2 * Suc q) c = Suc (2 * q + 1)" using True by simp
    ultimately show ?thesis using Suc by (simp add: bnd_Suc)
  next
    case False
    with q have e: "c = 2 * q + 1" by simp
    then have "odd c" "(c - 1) div 2 = q" by simp_all
    with inv(4) have "cs' ! q = cs ! (2 * q)" using e by simp
    moreover have "min (2 * Suc q) c = Suc (2 * q)" using e by simp
    ultimately show ?thesis using Suc by (simp add: bnd_Suc)
  qed
qed

lemma run_ok_cong: "slice o1 a b = slice o2 a b \<Longrightarrow> run_ok st pt o2 a b \<Longrightarrow> run_ok st pt o1 a b"
  by (simp add: run_ok_def)

lemma sort_step:
  assumes inv: "sort_inv st pt s o2 cs c" and c1: "1 < c"
    and mc: "merge_counts cs c = (cs', c')"
  shows "sort_inv st pt s
           (snd (copy_loop o2 s (length (merge_pass st pt o2 cs c 0 1 0 []))
                   (merge_pass st pt o2 cs c 0 1 0 []))) cs' c'"
proof -
  let ?R = "merge_pass st pt o2 cs c 0 1 0 []"
  let ?O = "?R @ slice o2 (length ?R) s"
  from inv have len: "length o2 = s" and cl: "c \<le> length cs" and mono: "bnd_mono cs c"
    and top: "bnd cs c = s" and runs: "\<forall>g<c. run_ok st pt o2 (bnd cs g) (bnd cs (Suc g))"
    by (simp_all add: sort_inv_def)
  have top': "bnd cs c \<le> length o2" using top len by simp
  from merge_pass_inv [OF runs mono top', of 0 "[]"]
  obtain ge where ge: "even ge" "ge \<le> c" "c \<le> ge + 1" "length ?R = bnd cs ge"
    "pairs_ok st pt ?R cs ge"
    by (auto simp: pairs_ok_def)
  note mi = merge_counts_inv [OF cl mc]
  have Rs: "length ?R \<le> s" using ge(2,4) bnd_mono_le [OF mono, of ge c] top by simp
  have cp: "snd (copy_loop o2 s (length ?R) ?R) = ?O"
    using copy_loop_slice [of s o2 "length ?R" ?R] len by simp
  have lenO: "length ?O = s" using Rs len by simp
  have c'pos: "0 < c'" using mi(1) c1 by simp
  have c'len: "c' \<le> length cs'" using mi(1,2) cl by simp
  have b': "bnd cs' p = bnd cs (min (2 * p) c)" if "p \<le> c'" for p
    by (rule bnd_merged [OF cl mc that])
  have mono': "bnd_mono cs' c'"
    unfolding bnd_mono_def
  proof (intro allI impI)
    fix p assume "p < c'"
    then have "bnd cs' p = bnd cs (min (2 * p) c)" "bnd cs' (Suc p) = bnd cs (min (2 * Suc p) c)"
      using b' by simp_all
    then show "bnd cs' p \<le> bnd cs' (Suc p)"
      using bnd_mono_le [OF mono, of "min (2 * p) c" "min (2 * Suc p) c"] by simp
  qed
  have top2: "bnd cs' c' = s"
  proof -
    have "min (2 * c') c = c" using mi(1) by simp
    then show ?thesis using b' [of c'] top by simp
  qed
  have runs': "run_ok st pt ?O (bnd cs' p) (bnd cs' (Suc p))" if p: "p < c'" for p
  proof -
    from p mi(1) have p2: "2 * p + 1 \<le> c" by simp
    have a: "bnd cs' p = bnd cs (2 * p)" using b' [of p] p p2 by (simp add: min_def)
    show ?thesis
    proof (cases "2 * p + 2 \<le> c")
      case True
      have b: "bnd cs' (Suc p) = bnd cs (2 * p + 2)" using b' [of "Suc p"] p True by (simp add: min_def)
      have "2 * p + 2 \<le> ge"
      proof (cases "ge = c")
        case True
        with \<open>2 * p + 2 \<le> c\<close> show ?thesis by simp
      next
        case False
        with ge(2,3) have e: "c = ge + 1" by simp
        with ge(1) have "c \<noteq> 2 * p + 2" by auto
        with True e show ?thesis by simp
      qed
      then have "run_ok st pt ?R (bnd cs (2 * p)) (bnd cs (2 * p + 2))"
        using ge(5) by (simp add: pairs_ok_def)
      moreover have "bnd cs (2 * p + 2) \<le> length ?R"
        using ge(2,4) \<open>2 * p + 2 \<le> ge\<close> bnd_mono_le [OF mono, of "2 * p + 2" ge] by simp
      ultimately show ?thesis unfolding a b by (rule run_ok_append)
    next
      case False
      with p2 have e: "c = 2 * p + 1" by simp
      then have b: "bnd cs' (Suc p) = bnd cs c" using b' [of "Suc p"] p by (simp add: min_def)
      have "ge \<noteq> c" using ge(1) e by auto
      with ge(2,3) e have gp: "ge = 2 * p" by simp
      have lr: "length ?R = bnd cs (2 * p)" using ge(4) gp by simp
      have "slice ?O (bnd cs (2 * p)) (bnd cs c) = slice o2 (bnd cs (2 * p)) (bnd cs c)"
        using lr top len Rs by (simp add: slice_def)
      moreover have "run_ok st pt o2 (bnd cs (2 * p)) (bnd cs c)"
        using runs [rule_format, of "2 * p"] e by simp
      ultimately show ?thesis unfolding a b by (rule run_ok_cong)
    qed
  qed
  show ?thesis
    unfolding cp sort_inv_def using lenO c'pos c'len mono' top2 runs' by simp
qed

lemma sort_loop_inv:
  "sort_inv st pt s o1 cs c \<Longrightarrow>
   length (sort_loop st pt s cs c o1) = s \<and> run_ok st pt (sort_loop st pt s cs c o1) 0 s"
proof (induction c arbitrary: o1 cs rule: less_induct)
  case (less c)
  show ?case
  proof (cases "1 < c")
    case False
    with less.prems have c: "c = 1" by (simp add: sort_inv_def)
    have "sort_loop st pt s cs c o1 = o1" using c by (subst sort_loop.simps) simp
    moreover have "run_ok st pt o1 (bnd cs 0) (bnd cs (Suc 0))" "bnd cs (Suc 0) = s" "length o1 = s"
      using less.prems c by (auto simp: sort_inv_def)
    ultimately show ?thesis by simp
  next
    case True
    obtain cs' c' where mc: "merge_counts cs c = (cs', c')" by (cases "merge_counts cs c") auto
    let ?R = "merge_pass st pt o1 cs c 0 1 0 []"
    let ?O = "snd (copy_loop o1 s (length ?R) ?R)"
    have cl: "c \<le> length cs" using less.prems by (simp add: sort_inv_def)
    have "c' < c" using merge_counts_inv(1) [OF cl mc] True by simp
    from less.IH [OF this sort_step [OF less.prems True mc]]
    have "length (sort_loop st pt s cs' c' ?O) = s \<and> run_ok st pt (sort_loop st pt s cs' c' ?O) 0 s" .
    moreover have "sort_loop st pt s cs c o1 = sort_loop st pt s cs' c' ?O"
      using True mc by (subst sort_loop.simps) (simp add: Let_def)
    ultimately show ?thesis by simp
  qed
qed


lemma cumulate_prefix:
  "0 < j \<Longrightarrow> l = length cur \<Longrightarrow> length orig = l \<Longrightarrow>
   \<forall>g<j. g < l \<longrightarrow> cur ! g = sum_list (take (Suc g) orig) \<Longrightarrow> \<forall>g\<ge>j. cur ! g = orig ! g \<Longrightarrow>
   length (cumulate l j cur) = l \<and> (\<forall>g<l. cumulate l j cur ! g = sum_list (take (Suc g) orig))"
proof (induction l j cur rule: cumulate.induct)
  case (1 l j counts)
  show ?case
  proof (cases "j < l")
    case False
    then have "cumulate l j counts = counts" by (subst cumulate.simps) simp
    with "1.prems" False show ?thesis by auto
  next
    case True
    let ?new = "counts[j := counts ! j + counts ! (j - 1)]"
    have "counts ! (j - 1) = sum_list (take j orig)"
      using "1.prems"(1,4) True by (cases j) simp_all
    moreover have "counts ! j = orig ! j" using "1.prems"(5) by simp
    ultimately have nj: "?new ! j = sum_list (take (Suc j) orig)"
      using True "1.prems"(2,3) by (simp add: take_Suc_conv_app_nth)
    have a: "\<forall>g<j + 1. g < l \<longrightarrow> ?new ! g = sum_list (take (Suc g) orig)"
    proof (intro allI impI)
      fix g assume "g < j + 1" "g < l"
      then show "?new ! g = sum_list (take (Suc g) orig)"
        using nj "1.prems"(4) by (cases "g = j") (simp_all add: nth_list_update)
    qed
    have b: "\<forall>g\<ge>j + 1. ?new ! g = orig ! g" using "1.prems"(5) by (simp add: nth_list_update)
    from "1.IH" [OF True _ _ "1.prems"(3) a b] "1.prems"(2)
    have "length (cumulate l (j + 1) ?new) = l \<and>
      (\<forall>g<l. cumulate l (j + 1) ?new ! g = sum_list (take (Suc g) orig))" by simp
    then show ?thesis using True by (subst cumulate.simps, subst (2) cumulate.simps) simp
  qed
qed

lemma cumulate_bnd:
  assumes "g \<le> length counts"
  shows "bnd (cumulate (length counts) 1 counts) g = nat (sum_list (take g counts))"
proof (cases g)
  case 0
  then show ?thesis by simp
next
  case (Suc g')
  have "\<forall>g<1. g < length counts \<longrightarrow> counts ! g = sum_list (take (Suc g) counts)"
    by (simp add: take_Suc_conv_app_nth)
  from cumulate_prefix [OF _ _ _ this] Suc assms
  show ?thesis by (simp add: bnd_Suc)
qed

definition buckets_sorted :: "int list \<Rightarrow> int list \<Rightarrow> int list \<Rightarrow> bool" where
  "buckets_sorted st pt counts =
    (\<forall>g<length counts. \<forall>i j.
       nat (sum_list (take g counts)) \<le> i \<and> i < j \<and> j < nat (sum_list (take (Suc g) counts))
         \<longrightarrow> hit_le st pt i j)"

lemma slice_upt: "a \<le> b \<Longrightarrow> b \<le> s \<Longrightarrow> slice [0..<s] a b = [a..<b]"
  by (simp add: slice_def take_upt)

lemma sort_inv_init:
  assumes nn: "\<forall>x\<in>set counts. 0 \<le> x" and tot: "sum_list counts = int (length st)"
    and ne: "counts \<noteq> []" and bs: "buckets_sorted st pt counts"
  shows "sort_inv st pt (length st) [0..<length st] (cumulate (length counts) 1 counts) (length counts)"
proof -
  let ?l = "length counts" and ?s = "length st"
  let ?cs = "cumulate ?l 1 counts"
  have b: "bnd ?cs g = nat (sum_list (take g counts))" if "g \<le> ?l" for g
    by (rule cumulate_bnd [OF that])
  have lcs: "length ?cs = ?l"
    using cumulate_prefix [of 1 ?l counts counts] by (simp add: take_Suc_conv_app_nth)
  have mono: "bnd_mono ?cs ?l"
    unfolding bnd_mono_def
  proof (intro allI impI)
    fix g assume "g < ?l"
    then show "bnd ?cs g \<le> bnd ?cs (Suc g)"
      using b [of g] b [of "Suc g"] sum_take_mono [OF nn, of g "Suc g"] by simp
  qed
  have top: "bnd ?cs ?l = ?s" using b [of ?l] tot by simp
  have runs: "run_ok st pt [0..<?s] (bnd ?cs g) (bnd ?cs (Suc g))" if g: "g < ?l" for g
  proof -
    let ?a = "bnd ?cs g" and ?b = "bnd ?cs (Suc g)"
    have ab: "?a \<le> ?b" using mono g by (simp add: bnd_mono_def)
    have bs': "?b \<le> ?s" using bnd_mono_le [OF mono, of "Suc g" ?l] g top by simp
    have sl: "slice [0..<?s] ?a ?b = [?a..<?b]" by (rule slice_upt [OF ab bs'])
    have "sorted_wrt (hit_before st pt) [?a..<?b]"
      unfolding sorted_wrt_iff_nth_less
    proof (intro allI impI)
      fix i j assume ij: "i < j" "j < length [?a..<?b]"
      then have "?a \<le> ?a + i" "?a + i < ?a + j" "?a + j < ?b" by simp_all
      then have "hit_le st pt (?a + i) (?a + j)"
        using bs g b [of g] b [of "Suc g"] unfolding buckets_sorted_def by auto
      then have "hit_before st pt (?a + i) (?a + j)" using ij by (simp add: hit_le_before)
      then show "hit_before st pt ([?a..<?b] ! i) ([?a..<?b] ! j)" using ij by simp
    qed
    then show ?thesis unfolding run_ok_def sl using ab by simp
  qed
  show ?thesis
    unfolding sort_inv_def using ne lcs mono top runs by simp
qed

lemma merge_sort_run:
  assumes "\<forall>x\<in>set counts. 0 \<le> x" "sum_list counts = int (length st)" "counts \<noteq> []"
    "buckets_sorted st pt counts"
  shows "length (merge_sort st pt counts) = length st"
    "sorted_wrt (hit_before st pt) (merge_sort st pt counts)"
    "set (merge_sort st pt counts) = {0..<length st}"
proof -
  from sort_loop_inv [OF sort_inv_init [OF assms]]
  have l: "length (merge_sort st pt counts) = length st"
    and r: "run_ok st pt (merge_sort st pt counts) 0 (length st)"
    by (simp_all add: merge_sort_def)
  from l show "length (merge_sort st pt counts) = length st" .
  have "slice (merge_sort st pt counts) 0 (length st) = merge_sort st pt counts"
    using slice_all [of "merge_sort st pt counts"] l by simp
  with r show "sorted_wrt (hit_before st pt) (merge_sort st pt counts)"
    "set (merge_sort st pt counts) = {0..<length st}"
    by (simp_all add: run_ok_def)
qed

text \<open>
  Claim C2. Let the hit arrays of a query have equal length and be laid out in per-k-mer
  buckets of the sizes \<open>counts\<close>, each bucket ordered by target id and then target position
  (as the index builder writes them). Then the order \<open>o1\<close> computed by the merge sort is a
  permutation of the hit indices; in the reordered arrays every earlier hit has a smaller
  target id than every later one, or the same id and a target position that is not larger;
  hits that tie on both keys keep their original relative order; and all five hit arrays
  are the original ones read through the same permutation \<open>o1\<close>.
\<close>

theorem merge_sort_sorted_stable:
  assumes nn: "\<forall>x\<in>set counts. 0 \<le> x"
    and tot: "sum_list counts = int (length (rset r))"
    and ne: "counts \<noteq> []"
    and bs: "buckets_sorted (rset r) (rposTarget r) counts"
    and o1: "o1 = merge_sort (rset r) (rposTarget r) counts"
    and r': "r' = reorder o1 r"
  shows "length o1 = length (rset r) \<and> distinct o1 \<and> set o1 = {0..<length (rset r)} \<and>
    (\<forall>j k. j < k \<and> k < length (rset r) \<longrightarrow>
       rset r' ! j < rset r' ! k \<or>
       (rset r' ! j = rset r' ! k \<and> rposTarget r' ! j \<le> rposTarget r' ! k)) \<and>
    (\<forall>j k. j < k \<and> k < length (rset r) \<and> rset r' ! j = rset r' ! k \<and>
       rposTarget r' ! j = rposTarget r' ! k \<longrightarrow> o1 ! j < o1 ! k) \<and>
    rposQuery r' = map (\<lambda>i. rposQuery r ! i) o1 \<and>
    rposTarget r' = map (\<lambda>i. rposTarget r ! i) o1 \<and>
    rset r' = map (\<lambda>i. rset r ! i) o1 \<and>
    rscore r' = map (\<lambda>i. rscore r ! i) o1 \<and>
    raddScore r' = map (\<lambda>i. raddScore r ! i) o1"
proof -
  let ?s = "length (rset r)"
  note m = merge_sort_run [OF nn tot ne bs, folded o1]
  have d: "distinct o1" using m(2) by (rule sorted_hit_before_distinct)
  have before: "hit_before (rset r) (rposTarget r) (o1 ! j) (o1 ! k)" if "j < k" "k < ?s" for j k
    using m(1,2) that by (simp add: sorted_wrt_iff_nth_less)
  have nth: "rset r' ! j = rset r ! (o1 ! j)" "rposTarget r' ! j = rposTarget r ! (o1 ! j)"
    if "j < ?s" for j
    using that m(1) by (simp_all add: r' reorder_def)
  have a: "rset r' ! j < rset r' ! k \<or>
       (rset r' ! j = rset r' ! k \<and> rposTarget r' ! j \<le> rposTarget r' ! k)"
    if "j < k" "k < ?s" for j k
    using before [OF that] nth [of j] nth [of k] that by (auto simp: hit_before_def)
  have b: "o1 ! j < o1 ! k"
    if "j < k" "k < ?s" "rset r' ! j = rset r' ! k" "rposTarget r' ! j = rposTarget r' ! k" for j k
    using before [OF that(1,2)] nth [of j] nth [of k] that by (auto simp: hit_before_def)
  have five: "rposQuery r' = map (\<lambda>i. rposQuery r ! i) o1"
    "rposTarget r' = map (\<lambda>i. rposTarget r ! i) o1"
    "rset r' = map (\<lambda>i. rset r ! i) o1"
    "rscore r' = map (\<lambda>i. rscore r ! i) o1"
    "raddScore r' = map (\<lambda>i. raddScore r ! i) o1"
    by (simp_all add: r' reorder_def)
  from m(1,3) d a b five show ?thesis by blast
qed


definition ex_raw :: raw_hits where
  "ex_raw = \<lparr>rposQuery = [1, 1, 2, 2], rposTarget = [1, 1, 1, 2], rset = [1, 2, 1, 1],
     rscore = [3, 3, 4, 4], raddScore = [1, 1, 2, 2]\<rparr>"

theorem merge_sort_sorted_stable_witness:
  "buckets_sorted (rset ex_raw) (rposTarget ex_raw) [2, 2] \<and>
   merge_sort (rset ex_raw) (rposTarget ex_raw) [2, 2] = [0, 2, 3, 1] \<and>
   distinct (merge_sort (rset ex_raw) (rposTarget ex_raw) [2, 2]) \<and>
   rset (reorder (merge_sort (rset ex_raw) (rposTarget ex_raw) [2, 2]) ex_raw) = [1, 1, 1, 2] \<and>
   rposTarget (reorder (merge_sort (rset ex_raw) (rposTarget ex_raw) [2, 2]) ex_raw) = [1, 1, 2, 1]"
proof -
  have bs: "buckets_sorted (rset ex_raw) (rposTarget ex_raw) [2, 2]"
    unfolding buckets_sorted_def
  proof (intro allI impI)
    fix g i j :: nat
    assume g: "g < length [2, 2 :: int]"
      and b: "nat (sum_list (take g [2, 2])) \<le> i \<and> i < j \<and> j < nat (sum_list (take (Suc g) [2, 2]))"
    from g have "g = 0 \<or> g = 1" by auto
    then show "hit_le (rset ex_raw) (rposTarget ex_raw) i j"
    proof
      assume "g = 0"
      with b have "i = 0" "j = 1" by simp_all
      then show ?thesis by (simp add: hit_le_def ex_raw_def)
    next
      assume "g = 1"
      with b have "i = 2" "j = 3" by simp_all
      then show ?thesis by (simp add: hit_le_def ex_raw_def)
    qed
  qed
  have nn: "\<forall>x\<in>set [2, 2 :: int]. 0 \<le> x" by simp
  have tot: "sum_list [2, 2] = int (length (rset ex_raw))" by (simp add: ex_raw_def)
  have ne: "[2, 2 :: int] \<noteq> []" by simp
  have ev: "merge_sort (rset ex_raw) (rposTarget ex_raw) [2, 2] = [0, 2, 3, 1]" by code_simp
  have rs: "rset (reorder [0, 2, 3, 1] ex_raw) = [1, 1, 1, 2]"
    "rposTarget (reorder [0, 2, 3, 1] ex_raw) = [1, 1, 2, 1]"
    by (simp_all add: reorder_def ex_raw_def)
  from merge_sort_sorted_stable [OF nn tot ne bs refl refl]
  have "distinct (merge_sort (rset ex_raw) (rposTarget ex_raw) [2, 2])" by blast
  with bs ev rs show ?thesis by (simp only: simp_thms)
qed

definition sorted_hits :: "raw_hits \<Rightarrow> bool" where
  "sorted_hits r =
    (\<forall>i j. i < j \<and> j < length (rset r) \<longrightarrow>
       rset r ! i < rset r ! j \<or> (rset r ! i = rset r ! j \<and> rposTarget r ! i \<le> rposTarget r ! j))"

definition adjacent :: "raw_hits \<Rightarrow> int \<Rightarrow> nat \<Rightarrow> nat \<Rightarrow> bool" where
  "adjacent r step j c =
    (rset r ! j = rset r ! c \<and> rposTarget r ! c - rposTarget r ! j = step \<and>
     rposQuery r ! c - rposQuery r ! j = step)"

definition col_inv :: "raw_hits \<Rightarrow> int \<Rightarrow> nat \<Rightarrow> col_state \<Rightarrow> bool" where
  "col_inv r step c st =
    (length (col_keep st) = length (rset r) \<and>
     col_k st \<le> c \<and>
     rset r ! col_k st = rset r ! c \<and>
     (\<forall>j<col_k st. rset r ! j = rset r ! c \<longrightarrow> step < rposTarget r ! c - rposTarget r ! j) \<and>
     (\<forall>c'\<le>c. (\<exists>j<c'. adjacent r step j c') \<longrightarrow> \<not> col_keep st ! c') \<and>
     (\<forall>c'<length (rset r). \<not> col_keep st ! c' \<longrightarrow> (\<exists>j<c'. adjacent r step j c')))"

lemma sorted_hits_lt:
  assumes "sorted_hits r" "i < j" "j < length (rset r)"
  shows "rset r ! i < rset r ! j \<or> (rset r ! i = rset r ! j \<and> rposTarget r ! i \<le> rposTarget r ! j)"
  using assms unfolding sorted_hits_def by blast

lemma sorted_hits_set:
  assumes "sorted_hits r" "i \<le> j" "j < length (rset r)"
  shows "rset r ! i \<le> rset r ! j"
proof (cases "i = j")
  case True
  then show ?thesis by simp
next
  case False
  with assms(2) have "i < j" by simp
  from sorted_hits_lt [OF assms(1) this assms(3)] show ?thesis by auto
qed

lemma sorted_hits_pos:
  assumes "sorted_hits r" "i \<le> j" "j < length (rset r)" "rset r ! i = rset r ! j"
  shows "rposTarget r ! i \<le> rposTarget r ! j"
proof (cases "i = j")
  case True
  then show ?thesis by simp
next
  case False
  with assms(2) have "i < j" by simp
  from sorted_hits_lt [OF assms(1) this assms(3)] assms(4) show ?thesis by auto
qed

lemma sorted_hits_between:
  assumes "sorted_hits r" "i \<le> m" "m \<le> j" "j < length (rset r)" "rset r ! i = rset r ! j"
  shows "rset r ! m = rset r ! j"
  using sorted_hits_set [OF assms(1,2), of ] sorted_hits_set [OF assms(1,3,4)] assms by simp

text \<open>The scan of earlier hits for the current hit \<open>c\<close>.\<close>

lemma col_scan_inv:
  assumes srt: "sorted_hits r" and step: "0 < step" and c: "c < length (rset r)"
  shows "j \<le> c \<Longrightarrow> length (col_keep st) = length (rset r) \<Longrightarrow>
    col_k st \<le> j \<Longrightarrow> rset r ! col_k st = rset r ! c \<Longrightarrow>
    \<forall>j'<col_k st. rset r ! j' = rset r ! c \<longrightarrow> step < rposTarget r ! c - rposTarget r ! j' \<Longrightarrow>
    \<forall>j'<j. \<not> adjacent r step j' c \<Longrightarrow>
    \<forall>c'<c. (\<exists>j<c'. adjacent r step j c') \<longrightarrow> \<not> col_keep st ! c' \<Longrightarrow>
    \<forall>c'<length (rset r). \<not> col_keep st ! c' \<longrightarrow> (\<exists>j<c'. adjacent r step j c') \<Longrightarrow>
    col_inv r step c (col_scan r step c j st)"
proof (induction "c - j" arbitrary: j st rule: less_induct)
  case less
  let ?dT = "rposTarget r ! c - rposTarget r ! j"
  have done_inv: "col_inv r step c st'"
    if keep: "length (col_keep st') = length (rset r)" and k: "col_k st' = col_k st"
      and old: "\<forall>c'<c. col_keep st' ! c' = col_keep st ! c'"
      and cur: "(\<exists>j'<c. adjacent r step j' c) \<longrightarrow> \<not> col_keep st' ! c"
      and conv: "\<forall>c'<length (rset r). \<not> col_keep st' ! c' \<longrightarrow> (\<exists>j<c'. adjacent r step j c')"
    for st'
  proof -
    have "\<not> col_keep st' ! c'" if "c' \<le> c" "\<exists>j<c'. adjacent r step j c'" for c'
    proof (cases "c' = c")
      case True
      with that cur show ?thesis by simp
    next
      case False
      with that have "c' < c" by simp
      with that less.prems(7) old show ?thesis by simp
    qed
    then show ?thesis
      unfolding col_inv_def using keep k less.prems(1,3,4,5) conv by simp
  qed
  show ?case
  proof (cases "j < c")
    case False
    with less.prems(1) have jc: "j = c" by simp
    have "col_scan r step c j st = st" using False by (subst col_scan.simps) simp
    moreover have "col_inv r step c st"
      using less.prems(2,6,8) jc by (intro done_inv) auto
    ultimately show ?thesis by simp
  next
    case True
    show ?thesis
    proof (cases "step < ?dT")
      case far: True
      let ?st = "st\<lparr>col_k := j + 1\<rparr>"
      have sc: "col_scan r step c j st = col_scan r step c (j + 1) ?st"
        using True far by (subst col_scan.simps) (simp add: Let_def)
      have same_j: "rset r ! j = rset r ! c"
        using sorted_hits_between [OF srt less.prems(3) _ c less.prems(4)] True by simp
      have k': "rset r ! (j + 1) = rset r ! c"
        using sorted_hits_between [OF srt _ _ c less.prems(4), of "j + 1"] True less.prems(3)
        by simp
      have w': "\<forall>j'<j + 1. rset r ! j' = rset r ! c \<longrightarrow> step < rposTarget r ! c - rposTarget r ! j'"
      proof (intro allI impI)
        fix j' assume j': "j' < j + 1" "rset r ! j' = rset r ! c"
        have "rposTarget r ! j' \<le> rposTarget r ! j"
          using sorted_hits_pos [OF srt, of j' j] j' True c same_j by simp
        with far show "step < rposTarget r ! c - rposTarget r ! j'" by simp
      qed
      have na: "\<forall>j'<j + 1. \<not> adjacent r step j' c"
      proof (intro allI impI)
        fix j' assume "j' < j + 1"
        show "\<not> adjacent r step j' c"
        proof (cases "j' = j")
          case True
          with far show ?thesis by (simp add: adjacent_def)
        next
          case False
          with \<open>j' < j + 1\<close> less.prems(6) show ?thesis by simp
        qed
      qed
      have "c - (j + 1) < c - j" using True by simp
      from less.hyps [OF this, of ?st] True less.prems(2,7,8) k' w' na
      show ?thesis by (simp add: sc)
    next
      case nfar: False
      show ?thesis
      proof (cases "?dT = step")
        case eq: True
        show ?thesis
        proof (cases "rposQuery r ! c - rposQuery r ! j = step")
          case True
          let ?o = "col_origin st ! j"
          let ?st = "st\<lparr>col_p := col_p st - 1, col_keep := (col_keep st)[c := False],
             col_origin := (col_origin st)[c := ?o],
             col_len := (col_len st)[?o := col_len st ! ?o + step],
             col_score := (col_score st)[?o := col_score st ! ?o + raddScore r ! c]\<rparr>"
          have sc: "col_scan r step c j st = ?st"
            using \<open>j < c\<close> eq True by (subst col_scan.simps) (simp add: Let_def)
          have same_j: "rset r ! j = rset r ! c"
            using sorted_hits_between [OF srt less.prems(3) _ c less.prems(4)] \<open>j < c\<close> by simp
          have adj: "adjacent r step j c" using same_j eq True by (simp add: adjacent_def)
          have "\<forall>c'<length (rset r). \<not> (col_keep st)[c := False] ! c'
              \<longrightarrow> (\<exists>j<c'. adjacent r step j c')"
          proof (intro allI impI)
            fix c' assume c': "c' < length (rset r)" "\<not> (col_keep st)[c := False] ! c'"
            show "\<exists>j<c'. adjacent r step j c'"
            proof (cases "c' = c")
              case True
              with adj \<open>j < c\<close> show ?thesis by blast
            next
              case False
              with c' less.prems(8) show ?thesis by simp
            qed
          qed
          then have "col_inv r step c ?st"
            using less.prems(2) c by (intro done_inv) simp_all
          then show ?thesis by (simp only: sc)
        next
          case False
          have sc: "col_scan r step c j st = col_scan r step c (j + 1) st"
            using \<open>j < c\<close> eq False by (subst col_scan.simps) (simp add: Let_def)
          have na: "\<forall>j'<j + 1. \<not> adjacent r step j' c"
          proof (intro allI impI)
            fix j' assume "j' < j + 1"
            show "\<not> adjacent r step j' c"
            proof (cases "j' = j")
              case True
              with False show ?thesis by (simp add: adjacent_def)
            next
              case False
              with \<open>j' < j + 1\<close> less.prems(6) show ?thesis by simp
            qed
          qed
          have "c - (j + 1) < c - j" using \<open>j < c\<close> by simp
          from less.hyps [OF this, of st] \<open>j < c\<close> less.prems(2,3,4,5,7,8) na
          show ?thesis by (simp add: sc)
        qed
      next
        case near: False
        with nfar have lt: "?dT < step" by simp
        have sc: "col_scan r step c j st = st"
          using \<open>j < c\<close> nfar near by (subst col_scan.simps) (simp add: Let_def)
        have same_j: "rset r ! j = rset r ! c"
          using sorted_hits_between [OF srt less.prems(3) _ c less.prems(4)] \<open>j < c\<close> by simp
        have "\<not> adjacent r step j' c" if j': "j' < c" for j'
        proof (cases "j' < j")
          case True
          with less.prems(6) show ?thesis by simp
        next
          case False
          show ?thesis
          proof
            assume a: "adjacent r step j' c"
            then have s': "rset r ! j' = rset r ! c" by (simp add: adjacent_def)
            have "rposTarget r ! j \<le> rposTarget r ! j'"
              using sorted_hits_pos [OF srt, of j j'] False j' c same_j s' by simp
            with lt a show False by (simp add: adjacent_def)
          qed
        qed
        then have "col_inv r step c st"
          using less.prems(2,8) by (intro done_inv) auto
        then show ?thesis by (simp only: sc)
      qed
    qed
  qed
qed


lemma col_loop_inv:
  assumes srt: "sorted_hits r" and step: "0 < step"
  shows "col_inv r step c st \<Longrightarrow> c < length (rset r) \<Longrightarrow>
    col_inv r step (length (rset r) - 1) (col_loop r step (length (rset r)) c st)"
proof (induction "length (rset r) - c" arbitrary: c st rule: less_induct)
  case less
  let ?s = "length (rset r)"
  show ?case
  proof (cases "int c < int ?s - 1")
    case False
    with less.prems(2) have "c = ?s - 1" by simp
    moreover have "col_loop r step ?s c st = st" using False by (subst col_loop.simps) simp
    ultimately show ?thesis using less.prems(1) by simp
  next
    case True
    then have c1: "c + 1 < ?s" by simp
    from less.prems(1) have len: "length (col_keep st) = ?s" and kc: "col_k st \<le> c"
      and same: "rset r ! col_k st = rset r ! c"
      and win: "\<forall>j<col_k st. rset r ! j = rset r ! c \<longrightarrow> step < rposTarget r ! c - rposTarget r ! j"
      and dropped: "\<forall>c'\<le>c. (\<exists>j<c'. adjacent r step j c') \<longrightarrow> \<not> col_keep st ! c'"
      and conv: "\<forall>c'<?s. \<not> col_keep st ! c' \<longrightarrow> (\<exists>j<c'. adjacent r step j c')"
      by (simp_all add: col_inv_def)
    let ?st = "if rset r ! col_k st = rset r ! (c + 1)
               then col_scan r step (c + 1) (col_k st) st else st\<lparr>col_k := c + 1\<rparr>"
    have inv': "col_inv r step (c + 1) ?st"
    proof (cases "rset r ! col_k st = rset r ! (c + 1)")
      case True
      have cc: "rset r ! c = rset r ! (c + 1)" using same True by simp
      have le: "rposTarget r ! c \<le> rposTarget r ! (c + 1)"
        using sorted_hits_pos [OF srt _ c1 cc] by simp
      have w: "\<forall>j'<col_k st. rset r ! j' = rset r ! (c + 1)
                 \<longrightarrow> step < rposTarget r ! (c + 1) - rposTarget r ! j'"
        using win cc le by auto
      have na: "\<forall>j'<col_k st. \<not> adjacent r step j' (c + 1)"
        using w by (auto simp: adjacent_def)
      have d: "\<forall>c'<c + 1. (\<exists>j<c'. adjacent r step j c') \<longrightarrow> \<not> col_keep st ! c'"
        using dropped by simp
      from col_scan_inv [OF srt step c1 _ len _ True w na d conv] kc True
      show ?thesis by simp
    next
      case False
      have lt: "rset r ! c < rset r ! (c + 1)"
        using sorted_hits_set [OF srt _ c1, of c] same False by simp
      have none: "rset r ! j \<noteq> rset r ! (c + 1)" if "j \<le> c" for j
        using sorted_hits_set [OF srt that, of ] c1 lt by simp
      have "\<not> col_keep st ! c'" if "c' \<le> c + 1" "\<exists>j<c'. adjacent r step j c'" for c'
      proof (cases "c' = c + 1")
        case True
        from that(2) obtain j where "j < c'" "adjacent r step j c'" by blast
        with True none [of j] show ?thesis by (simp add: adjacent_def)
      next
        case False
        with that dropped show ?thesis by simp
      qed
      then show ?thesis
        using False len none conv by (simp add: col_inv_def)
    qed
    have "?s - (c + 1) < ?s - c" using c1 by simp
    from less.hyps [OF this inv' c1]
    show ?thesis using True by (subst col_loop.simps) simp
  qed
qed

lemma collapse_inv:
  assumes "sorted_hits r" "0 < step" "0 < length (rset r)"
  shows "col_inv r step (length (rset r) - 1) (collapse r K step)"
proof -
  let ?s = "length (rset r)"
  let ?init = "\<lparr>col_k = 0, col_p = int ?s, col_keep = replicate ?s True, col_origin = [0..<?s],
        col_len = replicate ?s K, col_score = rscore r\<rparr>"
  have "col_inv r step 0 ?init" by (simp add: col_inv_def)
  from col_loop_inv [OF assms(1,2) this assms(3)] show ?thesis
    by (simp add: collapse_def Let_def)
qed

definition col_merge :: "raw_hits \<Rightarrow> int \<Rightarrow> nat \<Rightarrow> nat \<Rightarrow> col_state \<Rightarrow> col_state" where
  "col_merge r step c j st =
     st\<lparr>col_p := col_p st - 1,
        col_keep := (col_keep st)[c := False],
        col_origin := (col_origin st)[c := col_origin st ! j],
        col_len := (col_len st)[col_origin st ! j := col_len st ! (col_origin st ! j) + step],
        col_score := (col_score st)[col_origin st ! j :=
           col_score st ! (col_origin st ! j) + raddScore r ! c]\<rparr>"

lemma col_k_merge [simp]: "col_k (col_merge r step c j st) = col_k st"
  by (simp add: col_merge_def)

lemma col_scan_cases:
  "col_k st \<le> j \<Longrightarrow> j \<le> c \<Longrightarrow>
   \<exists>k'. col_k st \<le> k' \<and> k' \<le> c \<and>
     (col_scan r step c j st = st\<lparr>col_k := k'\<rparr> \<or>
      (\<exists>j'. j \<le> j' \<and> j' < c \<and> rposTarget r ! c - rposTarget r ! j' = step \<and>
            rposQuery r ! c - rposQuery r ! j' = step \<and>
            col_scan r step c j st = col_merge r step c j' (st\<lparr>col_k := k'\<rparr>)))"
proof (induction "c - j" arbitrary: j st rule: less_induct)
  case less
  have same: "st\<lparr>col_k := col_k st\<rparr> = st" by simp
  have stay: ?case if "col_scan r step c j st = st"
  proof -
    from that same have "col_scan r step c j st = st\<lparr>col_k := col_k st\<rparr>" by simp
    with less.prems show ?thesis by (intro exI [of _ "col_k st"]) simp
  qed
  show ?case
  proof (cases "j < c")
    case False
    then have "col_scan r step c j st = st" by (subst col_scan.simps) simp
    then show ?thesis by (rule stay)
  next
    case True
    let ?dT = "rposTarget r ! c - rposTarget r ! j"
    have dec: "c - (j + 1) < c - j" using True by simp
    show ?thesis
    proof (cases "step < ?dT")
      case far: True
      let ?st = "st\<lparr>col_k := j + 1\<rparr>"
      have sc: "col_scan r step c j st = col_scan r step c (j + 1) ?st"
        using True far by (subst col_scan.simps) (simp add: Let_def)
      from less.hyps [OF dec, of ?st] True
      obtain k' where k': "col_k ?st \<le> k'" "k' \<le> c"
        "col_scan r step c (j + 1) ?st = ?st\<lparr>col_k := k'\<rparr> \<or>
          (\<exists>j'. j + 1 \<le> j' \<and> j' < c \<and> rposTarget r ! c - rposTarget r ! j' = step \<and>
            rposQuery r ! c - rposQuery r ! j' = step \<and>
            col_scan r step c (j + 1) ?st = col_merge r step c j' (?st\<lparr>col_k := k'\<rparr>))"
        by auto
      have upd: "?st\<lparr>col_k := k'\<rparr> = st\<lparr>col_k := k'\<rparr>" by simp
      have kk: "col_k st \<le> k'" using k'(1) less.prems(1) by simp
      from k'(3) show ?thesis
      proof
        assume "col_scan r step c (j + 1) ?st = ?st\<lparr>col_k := k'\<rparr>"
        with sc upd have "col_scan r step c j st = st\<lparr>col_k := k'\<rparr>" by simp
        with kk k'(2) show ?thesis by blast
      next
        assume "\<exists>j'. j + 1 \<le> j' \<and> j' < c \<and> rposTarget r ! c - rposTarget r ! j' = step \<and>
            rposQuery r ! c - rposQuery r ! j' = step \<and>
            col_scan r step c (j + 1) ?st = col_merge r step c j' (?st\<lparr>col_k := k'\<rparr>)"
        then obtain j' where j': "j + 1 \<le> j'" "j' < c"
          "rposTarget r ! c - rposTarget r ! j' = step"
          "rposQuery r ! c - rposQuery r ! j' = step"
          "col_scan r step c (j + 1) ?st = col_merge r step c j' (?st\<lparr>col_k := k'\<rparr>)"
          by blast
        from j'(5) sc upd have "col_scan r step c j st = col_merge r step c j' (st\<lparr>col_k := k'\<rparr>)"
          by simp
        moreover have "j \<le> j'" using j'(1) by simp
        ultimately show ?thesis using kk k'(2) j'(2,3,4) by blast
      qed
    next
      case nfar: False
      show ?thesis
      proof (cases "?dT = step")
        case eq: True
        show ?thesis
        proof (cases "rposQuery r ! c - rposQuery r ! j = step")
          case dq: True
          have "col_scan r step c j st = col_merge r step c j st"
            using True eq dq by (subst col_scan.simps) (simp add: Let_def col_merge_def)
          with same have "col_scan r step c j st = col_merge r step c j (st\<lparr>col_k := col_k st\<rparr>)"
            by simp
          with True eq dq less.prems show ?thesis
            by (intro exI [of _ "col_k st"]) auto
        next
          case False
          have sc: "col_scan r step c j st = col_scan r step c (j + 1) st"
            using True eq False by (subst col_scan.simps) (simp add: Let_def)
          from less.hyps [OF dec, of st] True less.prems(1)
          obtain k' where k': "col_k st \<le> k'" "k' \<le> c"
            "col_scan r step c (j + 1) st = st\<lparr>col_k := k'\<rparr> \<or>
              (\<exists>j'. j + 1 \<le> j' \<and> j' < c \<and> rposTarget r ! c - rposTarget r ! j' = step \<and>
                rposQuery r ! c - rposQuery r ! j' = step \<and>
                col_scan r step c (j + 1) st = col_merge r step c j' (st\<lparr>col_k := k'\<rparr>))"
            by auto
          from k'(3) show ?thesis
          proof
            assume "col_scan r step c (j + 1) st = st\<lparr>col_k := k'\<rparr>"
            with sc k'(1,2) show ?thesis by auto
          next
            assume "\<exists>j'. j + 1 \<le> j' \<and> j' < c \<and> rposTarget r ! c - rposTarget r ! j' = step \<and>
                rposQuery r ! c - rposQuery r ! j' = step \<and>
                col_scan r step c (j + 1) st = col_merge r step c j' (st\<lparr>col_k := k'\<rparr>)"
            then obtain j' where j': "j + 1 \<le> j'" "j' < c"
              "rposTarget r ! c - rposTarget r ! j' = step"
              "rposQuery r ! c - rposQuery r ! j' = step"
              "col_scan r step c (j + 1) st = col_merge r step c j' (st\<lparr>col_k := k'\<rparr>)"
              by blast
            from j'(5) sc have "col_scan r step c j st = col_merge r step c j' (st\<lparr>col_k := k'\<rparr>)"
              by simp
            moreover have "j \<le> j'" using j'(1) by simp
            ultimately show ?thesis using k'(1,2) j'(2,3,4) by blast
          qed
        qed
      next
        case False
        have "col_scan r step c j st = st"
          using True nfar False by (subst col_scan.simps) (simp add: Let_def)
        then show ?thesis by (rule stay)
      qed
    qed
  qed
qed



section \<open>Lengths and scores of merged hits\<close>

text \<open>The hits attributed to a kept hit \<open>a\<close>, in increasing index order, which is the order
  in which the pass merges them.\<close>

definition grp :: "col_state \<Rightarrow> nat \<Rightarrow> nat \<Rightarrow> nat list" where
  "grp st s a = filter (\<lambda>x. x \<noteq> a \<and> col_origin st ! x = a) [0..<s]"

definition ginv :: "raw_hits \<Rightarrow> int \<Rightarrow> int \<Rightarrow> nat \<Rightarrow> col_state \<Rightarrow> bool" where
  "ginv r K step c st =
    (length (col_keep st) = length (rset r) \<and> length (col_origin st) = length (rset r) \<and>
     length (col_len st) = length (rset r) \<and> length (col_score st) = length (rset r) \<and>
     (\<forall>x<length (rset r). c < x \<longrightarrow> col_origin st ! x = x) \<and>
     (\<forall>x<length (rset r). col_origin st ! x \<le> x \<and>
         col_origin st ! (col_origin st ! x) = col_origin st ! x) \<and>
     (\<forall>x<length (rset r). col_keep st ! x = (col_origin st ! x = x)) \<and>
     (\<forall>x<length (rset r). col_origin st ! x \<noteq> x \<longrightarrow>
         (\<exists>j<x. adjacent r step j x \<and> col_origin st ! x = col_origin st ! j)) \<and>
     (\<forall>a<length (rset r). col_origin st ! a = a \<longrightarrow>
         col_len st ! a = K + step * int (length (grp st (length (rset r)) a)) \<and>
         col_score st ! a = foldl (+) (rscore r ! a)
            (map (\<lambda>x. raddScore r ! x) (grp st (length (rset r)) a))))"

lemma grp_col_k [simp]: "grp (st\<lparr>col_k := k\<rparr>) s a = grp st s a"
  by (simp add: grp_def)

lemma ginv_col_k [simp]: "ginv r K step c (st\<lparr>col_k := k\<rparr>) = ginv r K step c st"
  by (simp add: ginv_def)

lemma ginv_mono: "ginv r K step c st \<Longrightarrow> c \<le> c' \<Longrightarrow> ginv r K step c' st"
  unfolding ginv_def by auto

lemma upt_split3: "c < s \<Longrightarrow> [0..<s] = [0..<c] @ c # [Suc c..<s]"
  by (metis le_add1 less_imp_add_positive upt_add_eq_append upt_conv_Cons plus_nat.add_0
      less_or_eq_imp_le)

lemma ginv_merge:
  assumes inv: "ginv r K step c0 st" and c0: "c0 < c" and c: "c < length (rset r)"
    and j: "j < c" and adj: "adjacent r step j c"
  shows "ginv r K step c (col_merge r step c j st)"
proof -
  let ?s = "length (rset r)"
  let ?og = "col_origin st"
  let ?a = "?og ! j"
  let ?st = "col_merge r step c j st"
  from inv have lens: "length (col_keep st) = ?s" "length ?og = ?s" "length (col_len st) = ?s"
      "length (col_score st) = ?s"
    and fresh: "\<And>x. x < ?s \<Longrightarrow> c0 < x \<Longrightarrow> ?og ! x = x"
    and le: "\<And>x. x < ?s \<Longrightarrow> ?og ! x \<le> x"
    and idem: "\<And>x. x < ?s \<Longrightarrow> ?og ! (?og ! x) = ?og ! x"
    and keep: "\<And>x. x < ?s \<Longrightarrow> col_keep st ! x = (?og ! x = x)"
    and pred: "\<And>x. x < ?s \<Longrightarrow> ?og ! x \<noteq> x \<Longrightarrow>
        \<exists>j<x. adjacent r step j x \<and> ?og ! x = ?og ! j"
    and tot: "\<And>a. a < ?s \<Longrightarrow> ?og ! a = a \<Longrightarrow>
        col_len st ! a = K + step * int (length (grp st ?s a)) \<and>
        col_score st ! a = foldl (+) (rscore r ! a) (map (\<lambda>x. raddScore r ! x) (grp st ?s a))"
    unfolding ginv_def by blast+
  have js: "j < ?s" using j c by simp
  have a_le: "?a \<le> j" using le [OF js] .
  have a_c: "?a < c" using a_le j by simp
  have a_s: "?a < ?s" using a_c c by simp
  have a_root: "?og ! ?a = ?a" using idem [OF js] .
  have c_root: "?og ! c = c" using fresh [OF c c0] .
  have only_c: "x = c" if "x < ?s" "?og ! x = c" for x
  proof (rule ccontr)
    assume "x \<noteq> c"
    moreover have "c \<le> x" using le [OF that(1)] that(2) by simp
    ultimately have "c < x" by simp
    then have "c0 < x" using c0 by simp
    from fresh [OF that(1) this] that(2) \<open>x \<noteq> c\<close> show False by simp
  qed
  have og': "col_origin ?st ! x = (if x = c then ?a else ?og ! x)" if "x < ?s" for x
    using that lens by (simp add: col_merge_def nth_list_update)
  have len': "col_len ?st ! x = (if x = ?a then col_len st ! ?a + step else col_len st ! x)"
    if "x < ?s" for x
    using that lens by (simp add: col_merge_def nth_list_update)
  have sc': "col_score ?st ! x
      = (if x = ?a then col_score st ! ?a + raddScore r ! c else col_score st ! x)"
    if "x < ?s" for x
    using that lens by (simp add: col_merge_def nth_list_update)
  have keep': "col_keep ?st ! x = (if x = c then False else col_keep st ! x)" if "x < ?s" for x
    using that lens by (simp add: col_merge_def nth_list_update)
  have sp3: "[0..<?s] = [0..<c] @ c # [Suc c..<?s]" using c by (rule upt_split3)
  have grp_a: "grp ?st ?s ?a = grp st ?s ?a @ [c]"
  proof -
    have lo: "filter (\<lambda>x. x \<noteq> ?a \<and> col_origin ?st ! x = ?a) [0..<c]
        = filter (\<lambda>x. x \<noteq> ?a \<and> ?og ! x = ?a) [0..<c]"
      by (rule filter_cong) (use og' c in auto)
    have hi': "filter (\<lambda>x. x \<noteq> ?a \<and> col_origin ?st ! x = ?a) [Suc c..<?s] = []"
      using og' fresh c0 by (auto simp: filter_empty_conv)
    have hi: "filter (\<lambda>x. x \<noteq> ?a \<and> ?og ! x = ?a) [Suc c..<?s] = []"
      using fresh c0 by (auto simp: filter_empty_conv)
    have mid': "col_origin ?st ! c = ?a \<and> c \<noteq> ?a" using og' [OF c] a_c by simp
    have mid: "\<not> (c \<noteq> ?a \<and> ?og ! c = ?a)" using c_root a_c by simp
    have "filter (\<lambda>x. x \<noteq> ?a \<and> col_origin ?st ! x = ?a) [0..<?s]
        = filter (\<lambda>x. x \<noteq> ?a \<and> col_origin ?st ! x = ?a) ([0..<c] @ c # [Suc c..<?s])"
      using sp3 by simp
    also have "\<dots> = filter (\<lambda>x. x \<noteq> ?a \<and> ?og ! x = ?a) [0..<c] @ [c]"
      using lo hi' mid' by simp
    finally have new: "grp ?st ?s ?a = filter (\<lambda>x. x \<noteq> ?a \<and> ?og ! x = ?a) [0..<c] @ [c]"
      by (simp only: grp_def)
    have "filter (\<lambda>x. x \<noteq> ?a \<and> ?og ! x = ?a) [0..<?s]
        = filter (\<lambda>x. x \<noteq> ?a \<and> ?og ! x = ?a) ([0..<c] @ c # [Suc c..<?s])"
      using sp3 by simp
    also have "\<dots> = filter (\<lambda>x. x \<noteq> ?a \<and> ?og ! x = ?a) [0..<c]"
      using hi mid by simp
    finally have old: "grp st ?s ?a = filter (\<lambda>x. x \<noteq> ?a \<and> ?og ! x = ?a) [0..<c]"
      by (simp only: grp_def)
    from new old show ?thesis by simp
  qed
  have grp_other: "grp ?st ?s b = grp st ?s b" if b: "b < ?s" "b \<noteq> ?a" "b \<noteq> c" for b
    unfolding grp_def
  proof (rule filter_cong [OF refl])
    fix x assume "x \<in> set [0..<?s]"
    then have x: "x < ?s" by simp
    show "(x \<noteq> b \<and> col_origin ?st ! x = b) = (x \<noteq> b \<and> ?og ! x = b)"
      using og' [OF x] b c_root by auto
  qed
  show ?thesis
    unfolding ginv_def
  proof (intro conjI allI impI)
    show "length (col_keep ?st) = ?s" "length (col_origin ?st) = ?s" "length (col_len ?st) = ?s"
      "length (col_score ?st) = ?s"
      using lens by (simp_all add: col_merge_def)
  next
    fix x assume "x < ?s" "c < x"
    then show "col_origin ?st ! x = x" using og' [of x] fresh [of x] c0 by simp
  next
    fix x assume x: "x < ?s"
    show "col_origin ?st ! x \<le> x" using og' [OF x] le [OF x] a_c by simp
    show "col_origin ?st ! (col_origin ?st ! x) = col_origin ?st ! x"
    proof (cases "x = c")
      case True
      then show ?thesis using og' [OF c] og' [OF a_s] a_c a_root by simp
    next
      case False
      have xs: "?og ! x < ?s" using le [OF x] x by simp
      have "?og ! x \<noteq> c" using only_c [OF x] False by blast
      then show ?thesis using og' [OF x] og' [OF xs] False idem [OF x] by simp
    qed
  next
    fix x assume x: "x < ?s"
    show "col_keep ?st ! x = (col_origin ?st ! x = x)"
      using keep' [OF x] og' [OF x] keep [OF x] a_c by auto
  next
    fix x assume x: "x < ?s" and ne: "col_origin ?st ! x \<noteq> x"
    show "\<exists>j<x. adjacent r step j x \<and> col_origin ?st ! x = col_origin ?st ! j"
    proof (cases "x = c")
      case True
      have "col_origin ?st ! j = ?a" using og' [OF js] j by simp
      with True adj j og' [OF c] show ?thesis by (intro exI [of _ j]) simp
    next
      case False
      with ne og' [OF x] have "?og ! x \<noteq> x" by simp
      from pred [OF x this] obtain j0 where j0: "j0 < x" "adjacent r step j0 x"
        "?og ! x = ?og ! j0" by blast
      have j0s: "j0 < ?s" using j0(1) x by simp
      have "j0 \<noteq> c"
      proof
        assume "j0 = c"
        with j0(3) c_root have "?og ! x = c" by simp
        from only_c [OF x this] False show False by simp
      qed
      with og' [OF j0s] og' [OF x] False j0 show ?thesis by (intro exI [of _ j0]) simp
    qed
  next
    fix b assume b: "b < ?s" "col_origin ?st ! b = b"
    have bc: "b \<noteq> c" using b(2) og' [OF c] a_c by auto
    with b og' [OF b(1)] have br: "?og ! b = b" by simp
    note t = tot [OF b(1) br]
    show "col_len ?st ! b = K + step * int (length (grp ?st ?s b))"
    proof (cases "b = ?a")
      case True
      with t len' [OF b(1)] grp_a show ?thesis by (simp add: distrib_left)
    next
      case False
      with t len' [OF b(1)] grp_other [OF b(1) False bc] show ?thesis by simp
    qed
    show "col_score ?st ! b
        = foldl (+) (rscore r ! b) (map (\<lambda>x. raddScore r ! x) (grp ?st ?s b))"
    proof (cases "b = ?a")
      case True
      with t sc' [OF b(1)] grp_a show ?thesis by simp
    next
      case False
      with t sc' [OF b(1)] grp_other [OF b(1) False bc] show ?thesis by simp
    qed
  qed
qed

lemma col_loop_ginv:
  assumes srt: "sorted_hits r"
  shows "ginv r K step c st \<Longrightarrow> col_k st \<le> c \<Longrightarrow> c < length (rset r) \<Longrightarrow>
    ginv r K step (length (rset r) - 1) (col_loop r step (length (rset r)) c st)"
proof (induction "length (rset r) - c" arbitrary: c st rule: less_induct)
  case less
  let ?s = "length (rset r)"
  show ?case
  proof (cases "int c < int ?s - 1")
    case False
    with less.prems(3) have "c = ?s - 1" by simp
    moreover have "col_loop r step ?s c st = st" using False by (subst col_loop.simps) simp
    ultimately show ?thesis using less.prems(1) by simp
  next
    case True
    then have c1: "c + 1 < ?s" by simp
    let ?st = "if rset r ! col_k st = rset r ! (c + 1)
               then col_scan r step (c + 1) (col_k st) st else st\<lparr>col_k := c + 1\<rparr>"
    have inv': "ginv r K step (c + 1) ?st \<and> col_k ?st \<le> c + 1"
    proof (cases "rset r ! col_k st = rset r ! (c + 1)")
      case False
      with ginv_mono [OF less.prems(1), of "c + 1"] show ?thesis by simp
    next
      case same: True
      from col_scan_cases [of st "col_k st" "c + 1" r step] less.prems(2)
      obtain k' where k': "col_k st \<le> k'" "k' \<le> c + 1"
        "col_scan r step (c + 1) (col_k st) st = st\<lparr>col_k := k'\<rparr> \<or>
          (\<exists>j'. col_k st \<le> j' \<and> j' < c + 1 \<and>
            rposTarget r ! (c + 1) - rposTarget r ! j' = step \<and>
            rposQuery r ! (c + 1) - rposQuery r ! j' = step \<and>
            col_scan r step (c + 1) (col_k st) st = col_merge r step (c + 1) j' (st\<lparr>col_k := k'\<rparr>))"
        by auto
      from k'(3) have "ginv r K step (c + 1) (col_scan r step (c + 1) (col_k st) st)
          \<and> col_k (col_scan r step (c + 1) (col_k st) st) \<le> c + 1"
      proof
        assume "col_scan r step (c + 1) (col_k st) st = st\<lparr>col_k := k'\<rparr>"
        with ginv_mono [OF less.prems(1), of "c + 1"] k'(2) show ?thesis by simp
      next
        assume "\<exists>j'. col_k st \<le> j' \<and> j' < c + 1 \<and>
            rposTarget r ! (c + 1) - rposTarget r ! j' = step \<and>
            rposQuery r ! (c + 1) - rposQuery r ! j' = step \<and>
            col_scan r step (c + 1) (col_k st) st = col_merge r step (c + 1) j' (st\<lparr>col_k := k'\<rparr>)"
        then obtain j' where j': "col_k st \<le> j'" "j' < c + 1"
            "rposTarget r ! (c + 1) - rposTarget r ! j' = step"
            "rposQuery r ! (c + 1) - rposQuery r ! j' = step"
            "col_scan r step (c + 1) (col_k st) st = col_merge r step (c + 1) j' (st\<lparr>col_k := k'\<rparr>)"
          by blast
        have "rset r ! j' = rset r ! (c + 1)"
          using sorted_hits_between [OF srt j'(1) _ c1 same] j'(2) by simp
        with j'(3,4) have adj: "adjacent r step j' (c + 1)" by (simp add: adjacent_def)
        have i0: "ginv r K step c (st\<lparr>col_k := k'\<rparr>)" using less.prems(1) by simp
        have "ginv r K step (c + 1) (col_merge r step (c + 1) j' (st\<lparr>col_k := k'\<rparr>))"
          using i0 _ c1 j'(2) adj by (rule ginv_merge) simp
        with j'(5) k'(2) show ?thesis by simp
      qed
      with same show ?thesis by simp
    qed
    have "?s - (c + 1) < ?s - c" using c1 by simp
    from less.hyps [OF this _ _ c1, of ?st] inv'
    show ?thesis using True by (subst col_loop.simps) simp
  qed
qed

lemma collapse_ginv:
  assumes "sorted_hits r" "0 < length (rset r)" "length (rscore r) = length (rset r)"
  shows "ginv r K step (length (rset r) - 1) (collapse r K step)"
proof -
  let ?s = "length (rset r)"
  let ?init = "\<lparr>col_k = 0, col_p = int ?s, col_keep = replicate ?s True, col_origin = [0..<?s],
        col_len = replicate ?s K, col_score = rscore r\<rparr>"
  have "grp ?init ?s a = []" for a
    by (auto simp: grp_def filter_empty_conv)
  then have "ginv r K step 0 ?init" unfolding ginv_def using assms(3) by simp
  from col_loop_ginv [OF assms(1) this _ assms(2)] show ?thesis
    by (simp add: collapse_def Let_def)
qed

definition kept_hits :: "col_state \<Rightarrow> nat \<Rightarrow> nat list" where
  "kept_hits st s = filter (\<lambda>j. col_keep st ! j) [0..<s]"

text \<open>
  Claim C5. For hit arrays sorted by target id and then target position and a positive
  step, the collapse pass drops exactly the hits that have an earlier hit on the same
  target whose target and query positions are both smaller by \<open>step\<close>. Hence, in the
  arrays kept after the pass, no two hits of one target have target positions differing by
  exactly \<open>step\<close> together with query positions differing by exactly \<open>step\<close>.  Every kept
  hit is its own origin; every dropped hit has the origin of an earlier adjacent hit, and
  that origin is kept.  When the score array is as long as the others, the arrays handed
  to the chaining hold, for each kept hit, its target and positions, the length \<open>K\<close> plus
  \<open>step\<close> for every hit merged into it, and its score plus the extension scores of the hits
  merged into it, added in the order of the merges.
\<close>

theorem collapse_no_adjacent:
  assumes srt: "sorted_hits r" and step: "0 < step"
    and h: "h = resize r (collapse r K step)"
  shows "(\<forall>c<length (rset r).
            col_keep (collapse r K step) ! c = (\<not> (\<exists>j<c. adjacent r step j c)))
    \<and> (\<forall>a<length (tset h). \<forall>b<length (tset h).
           \<not> (tset h ! a = tset h ! b \<and> posTarget h ! b - posTarget h ! a = step \<and>
              posQuery h ! b - posQuery h ! a = step))
    \<and> (length (rscore r) = length (rset r) \<longrightarrow>
        (\<forall>c<length (rset r).
           if col_keep (collapse r K step) ! c then col_origin (collapse r K step) ! c = c
           else col_keep (collapse r K step) ! (col_origin (collapse r K step) ! c) \<and>
                (\<exists>j<c. adjacent r step j c \<and>
                   col_origin (collapse r K step) ! c = col_origin (collapse r K step) ! j)) \<and>
        length (tset h) = length (kept_hits (collapse r K step) (length (rset r))) \<and>
        (\<forall>i<length (tset h).
           tset h ! i = rset r ! (kept_hits (collapse r K step) (length (rset r)) ! i) \<and>
           posQuery h ! i = rposQuery r ! (kept_hits (collapse r K step) (length (rset r)) ! i) \<and>
           posTarget h ! i = rposTarget r ! (kept_hits (collapse r K step) (length (rset r)) ! i) \<and>
           len h ! i = K + step * int (length (grp (collapse r K step) (length (rset r))
                          (kept_hits (collapse r K step) (length (rset r)) ! i))) \<and>
           score0 h ! i = foldl (+) (rscore r ! (kept_hits (collapse r K step) (length (rset r)) ! i))
              (map (\<lambda>x. raddScore r ! x)
                 (grp (collapse r K step) (length (rset r))
                    (kept_hits (collapse r K step) (length (rset r)) ! i)))))"
proof (cases "length (rset r) = 0")
  case True
  then show ?thesis by (simp add: h resize_def kept_hits_def)
next
  case False
  let ?s = "length (rset r)"
  let ?st = "collapse r K step"
  let ?kept = "filter (\<lambda>j. col_keep ?st ! j) [0..<?s]"
  from collapse_inv [OF srt step] False
  have d: "\<And>c'. c' < ?s \<Longrightarrow> \<exists>j<c'. adjacent r step j c' \<Longrightarrow> \<not> col_keep ?st ! c'"
    and cv: "\<And>c'. c' < ?s \<Longrightarrow> \<not> col_keep ?st ! c' \<Longrightarrow> \<exists>j<c'. adjacent r step j c'"
    by (auto simp: col_inv_def)
  have first: "\<forall>c<?s. col_keep ?st ! c = (\<not> (\<exists>j<c. adjacent r step j c))"
    using d cv by blast
  have kept: "?kept ! a < ?s \<and> col_keep ?st ! (?kept ! a)" if "a < length ?kept" for a
    using nth_mem [OF that] by auto
  have hn: "tset h ! a = rset r ! (?kept ! a)" "posTarget h ! a = rposTarget r ! (?kept ! a)"
    "posQuery h ! a = rposQuery r ! (?kept ! a)" "len h ! a = col_len ?st ! (?kept ! a)"
    "score0 h ! a = col_score ?st ! (?kept ! a)" if "a < length ?kept" for a
    using that by (simp_all add: h resize_def Let_def)
  have lh: "length (tset h) = length ?kept" by (simp add: h resize_def Let_def)
  have second: "\<not> (tset h ! a = tset h ! b \<and> posTarget h ! b - posTarget h ! a = step \<and>
              posQuery h ! b - posQuery h ! a = step)"
    if a: "a < length (tset h)" and b: "b < length (tset h)" for a b
  proof
    assume adj: "tset h ! a = tset h ! b \<and> posTarget h ! b - posTarget h ! a = step \<and>
              posQuery h ! b - posQuery h ! a = step"
    let ?x = "?kept ! a" and ?y = "?kept ! b"
    from a b lh kept have x: "?x < ?s" "col_keep ?st ! ?x" and y: "?y < ?s" "col_keep ?st ! ?y"
      by simp_all
    from adj a b lh hn have ad: "adjacent r step ?x ?y" by (simp add: adjacent_def)
    have "?x < ?y"
    proof (rule ccontr)
      assume "\<not> ?x < ?y"
      then have "?y \<le> ?x" by simp
      from sorted_hits_pos [OF srt this x(1)] ad step show False by (simp add: adjacent_def)
    qed
    with ad d [OF y(1)] y(2) show False by blast
  qed
  have third: "(\<forall>c<?s.
           if col_keep ?st ! c then col_origin ?st ! c = c
           else col_keep ?st ! (col_origin ?st ! c) \<and>
                (\<exists>j<c. adjacent r step j c \<and> col_origin ?st ! c = col_origin ?st ! j)) \<and>
        length (tset h) = length (kept_hits ?st ?s) \<and>
        (\<forall>i<length (tset h).
           tset h ! i = rset r ! (kept_hits ?st ?s ! i) \<and>
           posQuery h ! i = rposQuery r ! (kept_hits ?st ?s ! i) \<and>
           posTarget h ! i = rposTarget r ! (kept_hits ?st ?s ! i) \<and>
           len h ! i = K + step * int (length (grp ?st ?s (kept_hits ?st ?s ! i))) \<and>
           score0 h ! i = foldl (+) (rscore r ! (kept_hits ?st ?s ! i))
              (map (\<lambda>x. raddScore r ! x) (grp ?st ?s (kept_hits ?st ?s ! i))))"
    if ls: "length (rscore r) = ?s"
  proof -
    from False have pos: "0 < ?s" by simp
    from collapse_ginv [OF srt pos ls, of K step]
    have le: "\<And>x. x < ?s \<Longrightarrow> col_origin ?st ! x \<le> x"
      and idem: "\<And>x. x < ?s \<Longrightarrow> col_origin ?st ! (col_origin ?st ! x) = col_origin ?st ! x"
      and keep: "\<And>x. x < ?s \<Longrightarrow> col_keep ?st ! x = (col_origin ?st ! x = x)"
      and pred: "\<And>x. x < ?s \<Longrightarrow> col_origin ?st ! x \<noteq> x \<Longrightarrow>
          \<exists>j<x. adjacent r step j x \<and> col_origin ?st ! x = col_origin ?st ! j"
      and tot: "\<And>a. a < ?s \<Longrightarrow> col_origin ?st ! a = a \<Longrightarrow>
          col_len ?st ! a = K + step * int (length (grp ?st ?s a)) \<and>
          col_score ?st ! a = foldl (+) (rscore r ! a) (map (\<lambda>x. raddScore r ! x) (grp ?st ?s a))"
      unfolding ginv_def by blast+
    have org: "if col_keep ?st ! c then col_origin ?st ! c = c
           else col_keep ?st ! (col_origin ?st ! c) \<and>
                (\<exists>j<c. adjacent r step j c \<and> col_origin ?st ! c = col_origin ?st ! j)"
      if c: "c < ?s" for c
    proof (cases "col_keep ?st ! c")
      case True
      with keep [OF c] show ?thesis by simp
    next
      case nk: False
      with keep [OF c] have ne: "col_origin ?st ! c \<noteq> c" by simp
      have os: "col_origin ?st ! c < ?s" using le [OF c] c by simp
      have "col_keep ?st ! (col_origin ?st ! c)" using keep [OF os] idem [OF c] by simp
      with pred [OF c ne] nk show ?thesis by simp
    qed
    have vals: "tset h ! i = rset r ! (kept_hits ?st ?s ! i) \<and>
           posQuery h ! i = rposQuery r ! (kept_hits ?st ?s ! i) \<and>
           posTarget h ! i = rposTarget r ! (kept_hits ?st ?s ! i) \<and>
           len h ! i = K + step * int (length (grp ?st ?s (kept_hits ?st ?s ! i))) \<and>
           score0 h ! i = foldl (+) (rscore r ! (kept_hits ?st ?s ! i))
              (map (\<lambda>x. raddScore r ! x) (grp ?st ?s (kept_hits ?st ?s ! i)))"
      if i: "i < length (tset h)" for i
    proof -
      have il: "i < length ?kept" using i lh by simp
      from kept [OF il] have a: "?kept ! i < ?s" "col_keep ?st ! (?kept ! i)" by simp_all
      from keep [OF a(1)] a(2) have "col_origin ?st ! (?kept ! i) = ?kept ! i" by simp
      from tot [OF a(1) this] hn [OF il] show ?thesis by (simp add: kept_hits_def)
    qed
    from org vals lh show ?thesis by (simp add: kept_hits_def)
  qed
  from first second third show ?thesis by blast
qed

definition ex_sorted :: raw_hits where
  "ex_sorted = \<lparr>rposQuery = [1, 2, 1, 3], rposTarget = [1, 2, 2, 3], rset = [1, 1, 1, 1],
     rscore = [3, 5, 7, 11], raddScore = [1, 2, 4, 8]\<rparr>"

lemma ex_sorted_collapse:
  "collapse ex_sorted 3 1 = \<lparr>col_k = 1, col_p = 2, col_keep = [True, False, True, False],
     col_origin = [0, 0, 2, 0], col_len = [5, 3, 3, 3], col_score = [13, 5, 7, 11]\<rparr>"
  by code_simp

theorem collapse_no_adjacent_witness:
  "sorted_hits ex_sorted \<and>
   col_keep (collapse ex_sorted 3 1) = [True, False, True, False] \<and>
   col_origin (collapse ex_sorted 3 1) = [0, 0, 2, 0] \<and>
   adjacent ex_sorted 1 0 1 \<and> adjacent ex_sorted 1 1 3 \<and>
   grp (collapse ex_sorted 3 1) 4 0 = [1, 3] \<and>
   posQuery (resize ex_sorted (collapse ex_sorted 3 1)) = [1, 1] \<and>
   posTarget (resize ex_sorted (collapse ex_sorted 3 1)) = [1, 2] \<and>
   len (resize ex_sorted (collapse ex_sorted 3 1)) ! 0 = 3 + 1 * 2 \<and>
   score0 (resize ex_sorted (collapse ex_sorted 3 1)) ! 0 = 3 + 2 + 8 \<and>
   \<not> (tset (resize ex_sorted (collapse ex_sorted 3 1)) ! 0
        = tset (resize ex_sorted (collapse ex_sorted 3 1)) ! 1 \<and>
      posTarget (resize ex_sorted (collapse ex_sorted 3 1)) ! 1
        - posTarget (resize ex_sorted (collapse ex_sorted 3 1)) ! 0 = 1 \<and>
      posQuery (resize ex_sorted (collapse ex_sorted 3 1)) ! 1
        - posQuery (resize ex_sorted (collapse ex_sorted 3 1)) ! 0 = 1)"
proof -
  have srt: "sorted_hits ex_sorted"
    by (auto simp: sorted_hits_def ex_sorted_def less_Suc_eq numeral_3_eq_3 nth_Cons')
  have adj: "adjacent ex_sorted 1 0 1" "adjacent ex_sorted 1 1 3"
    by (simp_all add: adjacent_def ex_sorted_def)
  have ls: "length (rscore ex_sorted) = length (rset ex_sorted)" by (simp add: ex_sorted_def)
  have l4: "length (rset ex_sorted) = 4" by (simp add: ex_sorted_def)
  have up: "[0..<4] = [0, 1, 2, 3]" by code_simp
  have g: "grp (collapse ex_sorted 3 1) 4 0 = [1, 3]"
    by (simp add: grp_def ex_sorted_collapse up)
  have kh: "kept_hits (collapse ex_sorted 3 1) 4 = [0, 2]"
    by (simp add: kept_hits_def ex_sorted_collapse up)
  have rs: "length (tset (resize ex_sorted (collapse ex_sorted 3 1))) = 2"
    "posTarget (resize ex_sorted (collapse ex_sorted 3 1)) = [1, 2]"
    "posQuery (resize ex_sorted (collapse ex_sorted 3 1)) = [1, 1]"
    by (simp_all add: ex_sorted_collapse resize_def Let_def up l4, simp_all add: ex_sorted_def)
  note t = collapse_no_adjacent [OF srt _ refl, of 1 3]
  from t rs(1)
  have na: "\<not> (tset (resize ex_sorted (collapse ex_sorted 3 1)) ! 0
        = tset (resize ex_sorted (collapse ex_sorted 3 1)) ! 1 \<and>
      posTarget (resize ex_sorted (collapse ex_sorted 3 1)) ! 1
        - posTarget (resize ex_sorted (collapse ex_sorted 3 1)) ! 0 = 1 \<and>
      posQuery (resize ex_sorted (collapse ex_sorted 3 1)) ! 1
        - posQuery (resize ex_sorted (collapse ex_sorted 3 1)) ! 0 = 1)"
    by simp
  from t ls rs(1) have "len (resize ex_sorted (collapse ex_sorted 3 1)) ! 0
        = 3 + 1 * int (length (grp (collapse ex_sorted 3 1) (length (rset ex_sorted))
                          (kept_hits (collapse ex_sorted 3 1) (length (rset ex_sorted)) ! 0)))"
    "score0 (resize ex_sorted (collapse ex_sorted 3 1)) ! 0
        = foldl (+) (rscore ex_sorted ! (kept_hits (collapse ex_sorted 3 1) (length (rset ex_sorted)) ! 0))
              (map (\<lambda>x. raddScore ex_sorted ! x)
                 (grp (collapse ex_sorted 3 1) (length (rset ex_sorted))
                    (kept_hits (collapse ex_sorted 3 1) (length (rset ex_sorted)) ! 0)))"
    by simp_all
  then have ln: "len (resize ex_sorted (collapse ex_sorted 3 1)) ! 0 = 3 + 1 * 2"
    and sc: "score0 (resize ex_sorted (collapse ex_sorted 3 1)) ! 0 = 3 + 2 + 8"
    by (simp_all add: l4 kh g, simp_all add: ex_sorted_def)
  from srt adj g rs(2,3) ln sc na show ?thesis by (simp add: ex_sorted_collapse)
qed

definition hit_total :: "int list \<Rightarrow> int list \<Rightarrow> int" where
  "hit_total num0 w = sum_list (map (\<lambda>c. num0 ! nat c) (filter (\<lambda>c. c \<noteq> NA_INTEGER) w))"

definition counts_ok :: "int list \<Rightarrow> int list \<Rightarrow> bool" where
  "counts_ok num0 w =
    (\<forall>c\<in>set w. c \<noteq> NA_INTEGER \<longrightarrow> 0 \<le> num0 ! nat c \<and> num0 ! nat c \<le> 2147483647)"

lemma wrap32_neg: "2147483647 < x \<Longrightarrow> x < 4294967296 \<Longrightarrow> wrap32 x < 0"
proof -
  assume a: "2147483647 < x" "x < 4294967296"
  have "x + 2147483648 = (x - 2147483648) + 4294967296" by simp
  then have "(x + 2147483648) mod 4294967296 = (x - 2147483648) mod 4294967296"
    by (simp only: mod_add_self2)
  also have "\<dots> = x - 2147483648" using a by (intro mod_pos_pos_trivial) simp_all
  finally show ?thesis using a by (simp add: wrap32_def)
qed

lemma hit_total_take_mono:
  assumes "counts_ok num0 w"
  shows "hit_total num0 (take j w) \<le> hit_total num0 w"
proof -
  have "w = take j w @ drop j w" by simp
  then have "hit_total num0 w = hit_total num0 (take j w) + hit_total num0 (drop j w)"
    unfolding hit_total_def by (metis filter_append map_append sum_list.append)
  moreover have "0 \<le> hit_total num0 (drop j w)"
    unfolding hit_total_def using assms
    by (intro sum_list_nonneg) (auto simp: counts_ok_def dest: in_set_dropD)
  ultimately show ?thesis by simp
qed

lemma hit_total_take_Suc:
  "j < length w \<Longrightarrow> hit_total num0 (take (Suc j) w) =
     hit_total num0 (take j w) + (if w ! j \<noteq> NA_INTEGER then num0 ! nat (w ! j) else 0)"
  by (simp add: hit_total_def take_Suc_conv_app_nth)

lemma count_loop_overflow:
  assumes ok: "counts_ok num0 w"
  shows "s = hit_total num0 (take j w) \<Longrightarrow> s \<le> 2147483647 \<Longrightarrow> j \<le> length w \<Longrightarrow>
    count_loop w num0 j counts s = (counts', s', abort) \<Longrightarrow>
    abort = (2147483647 < hit_total num0 w) \<and> (\<not> abort \<longrightarrow> s' = hit_total num0 w)"
proof (induction "length w - j" arbitrary: j counts s rule: less_induct)
  case less
  have s0: "0 \<le> s"
    unfolding less.prems(1) hit_total_def using ok
    by (intro sum_list_nonneg) (auto simp: counts_ok_def dest: in_set_takeD)
  show ?case
  proof (cases "j < length w")
    case False
    with less.prems(3) have "take j w = w" by simp
    moreover have "(counts', s', abort) = (counts, s, False)"
      using less.prems(4) False by (subst (asm) count_loop.simps) simp
    ultimately show ?thesis using less.prems(1,2) by simp
  next
    case True
    have dec: "length w - (j + 1) < length w - j" using True by simp
    show ?thesis
    proof (cases "w ! j = NA_INTEGER")
      case na: True
      have rec: "count_loop w num0 (j + 1) (counts @ [0]) s = (counts', s', abort)"
        using less.prems(4) True na by (subst (asm) count_loop.simps) simp
      have "s = hit_total num0 (take (j + 1) w)"
        using less.prems(1) hit_total_take_Suc [OF True, of num0] na by simp
      from less.hyps [OF dec this less.prems(2) _ rec] True show ?thesis by simp
    next
      case False
      let ?cj = "num0 ! nat (w ! j)"
      have cj: "0 \<le> ?cj" "?cj \<le> 2147483647"
        using ok True False by (auto simp: counts_ok_def)
      have nxt: "hit_total num0 (take (j + 1) w) = s + ?cj"
        using less.prems(1) hit_total_take_Suc [OF True, of num0] False by simp
      show ?thesis
      proof (cases "2147483647 < s + ?cj")
        case over: True
        have "wrap32 (s + ?cj) < 0" using over less.prems(2) cj by (intro wrap32_neg) simp_all
        then have "(counts', s', abort) = (counts @ [?cj], wrap32 (s + ?cj), True)"
          using less.prems(4) True False by (subst (asm) count_loop.simps) (simp add: Let_def)
        moreover have "2147483647 < hit_total num0 w"
          using hit_total_take_mono [OF ok, of "j + 1"] nxt over by simp
        ultimately show ?thesis by simp
      next
        case fits: False
        have w: "wrap32 (s + ?cj) = s + ?cj" using fits s0 cj by (intro wrap32_small) simp_all
        have rec: "count_loop w num0 (j + 1) (counts @ [?cj]) (s + ?cj) = (counts', s', abort)"
          using less.prems(4) True False fits s0 cj w
          by (subst (asm) count_loop.simps) (simp add: Let_def)
        from less.hyps [OF dec nxt [symmetric] _ _ rec] fits True show ?thesis by simp
      qed
    qed
  qed
qed

lemma perQuery_overflow:
  assumes "counts_ok (ix_num ix) w" "2147483647 < hit_total (ix_num ix) w"
  shows "perQuery pr ix w = Some Overflow"
proof -
  obtain counts s abort where c: "count_loop w (ix_num ix) 0 [] 0 = (counts, s, abort)"
    by (cases "count_loop w (ix_num ix) 0 [] 0") auto
  from count_loop_overflow [OF assms(1) _ _ _ c] assms(2) have "abort"
    by (simp add: hit_total_def)
  with c show ?thesis by (simp add: perQuery_def Let_def)
qed

section \<open>Query width and covered letters\<close>

definition unmasked :: "int list \<Rightarrow> int \<Rightarrow> bool" where
  "unmasked w j = (0 \<le> j \<and> j < int (length w) \<and> w ! nat j \<noteq> NA_INTEGER)"

text \<open>The letters (1-based) covered by the unmasked k-mers with index below \<open>n\<close>.\<close>

definition letters :: "int list \<Rightarrow> int \<Rightarrow> int \<Rightarrow> int set" where
  "letters w K n = {x. \<exists>j. unmasked w j \<and> j < n \<and> j + 1 \<le> x \<and> x < j + 1 + K}"

lemma letters_bounded: "letters w K n \<subseteq> {1..<int (length w) + K + 1}"
  by (auto simp: letters_def unmasked_def)

lemma finite_letters [simp]: "finite (letters w K n)"
  by (rule finite_subset [OF letters_bounded]) simp











section \<open>Coverage of a chain\<close>






section \<open>The hits merged into an anchor\<close>

definition distinct_hits :: "raw_hits \<Rightarrow> bool" where
  "distinct_hits r =
    (\<forall>x y. x < length (rset r) \<and> y < length (rset r) \<and> rset r ! x = rset r ! y \<and>
       rposQuery r ! x = rposQuery r ! y \<and> rposTarget r ! x = rposTarget r ! y \<longrightarrow> x = y)"

text \<open>Hit \<open>x\<close> lies \<open>n\<close> steps down the diagonal of hit \<open>a\<close>.\<close>

definition diag :: "raw_hits \<Rightarrow> int \<Rightarrow> nat \<Rightarrow> nat \<Rightarrow> nat \<Rightarrow> bool" where
  "diag r step a x n =
    (rset r ! x = rset r ! a \<and> rposQuery r ! x = rposQuery r ! a + step * int n \<and>
     rposTarget r ! x = rposTarget r ! a + step * int n)"

definition tip :: "raw_hits \<Rightarrow> int \<Rightarrow> int \<Rightarrow> col_state \<Rightarrow> nat \<Rightarrow> nat \<Rightarrow> bool" where
  "tip r K step st a n =
    (col_len st ! a = K + step * int n \<and>
     (\<forall>i\<le>n. \<exists>x<length (rset r). col_origin st ! x = a \<and> diag r step a x i) \<and>
     (\<forall>x<length (rset r). col_origin st ! x = a \<longrightarrow> (\<exists>i\<le>n. diag r step a x i)))"

definition oinv :: "raw_hits \<Rightarrow> int \<Rightarrow> int \<Rightarrow> nat \<Rightarrow> col_state \<Rightarrow> bool" where
  "oinv r K step c st =
    (length (col_keep st) = length (rset r) \<and> length (col_origin st) = length (rset r) \<and>
     length (col_len st) = length (rset r) \<and>
     (\<forall>x<length (rset r). c < x \<longrightarrow> col_origin st ! x = x) \<and>
     (\<forall>x<length (rset r). col_origin st ! x \<le> x \<and>
         col_origin st ! (col_origin st ! x) = col_origin st ! x) \<and>
     (\<forall>x<length (rset r). col_keep st ! x = (col_origin st ! x = x)) \<and>
     (\<forall>a<length (rset r). col_origin st ! a = a \<longrightarrow> (\<exists>n. tip r K step st a n)))"

lemma tip_col_k [simp]: "tip r K step (st\<lparr>col_k := k\<rparr>) a n = tip r K step st a n"
  by (simp add: tip_def)

lemma oinv_col_k [simp]: "oinv r K step c (st\<lparr>col_k := k\<rparr>) = oinv r K step c st"
  by (simp add: oinv_def)

lemma oinv_mono: "oinv r K step c st \<Longrightarrow> c \<le> c' \<Longrightarrow> oinv r K step c' st"
  unfolding oinv_def by auto

lemma diag_unique:
  assumes "distinct_hits r" "x < length (rset r)" "y < length (rset r)"
    "diag r step a x i" "diag r step a y i"
  shows "x = y"
  using assms unfolding distinct_hits_def diag_def by (metis (no_types, lifting))

lemma oinv_merge:
  assumes dist: "distinct_hits r"
    and inv: "oinv r K step c0 st" and c0: "c0 < c" and c: "c < length (rset r)"
    and j: "j < c" and adj: "adjacent r step j c"
  shows "oinv r K step c (col_merge r step c j st)"
proof -
  let ?s = "length (rset r)"
  let ?og = "col_origin st"
  let ?a = "?og ! j"
  let ?st = "col_merge r step c j st"
  from inv have lens: "length (col_keep st) = ?s" "length ?og = ?s" "length (col_len st) = ?s"
    and fresh: "\<And>x. x < ?s \<Longrightarrow> c0 < x \<Longrightarrow> ?og ! x = x"
    and le: "\<And>x. x < ?s \<Longrightarrow> ?og ! x \<le> x"
    and idem: "\<And>x. x < ?s \<Longrightarrow> ?og ! (?og ! x) = ?og ! x"
    and keep: "\<And>x. x < ?s \<Longrightarrow> col_keep st ! x = (?og ! x = x)"
    and tips: "\<And>a. a < ?s \<Longrightarrow> ?og ! a = a \<Longrightarrow> \<exists>n. tip r K step st a n"
    unfolding oinv_def by blast+
  have js: "j < ?s" using j c by simp
  have a_le: "?a \<le> j" using le [OF js] .
  have a_c: "?a < c" using a_le j by simp
  have a_s: "?a < ?s" using a_c c by simp
  have a_root: "?og ! ?a = ?a" using idem [OF js] .
  have c_root: "?og ! c = c" using fresh [OF c c0] .
  have only_c: "x = c" if "x < ?s" "?og ! x = c" for x
  proof (rule ccontr)
    assume "x \<noteq> c"
    moreover have "c \<le> x" using le [OF that(1)] that(2) by simp
    ultimately have "c < x" by simp
    then have "c0 < x" using c0 by simp
    from fresh [OF that(1) this] that(2) \<open>x \<noteq> c\<close> show False by simp
  qed
  have og': "col_origin ?st ! x = (if x = c then ?a else ?og ! x)" if "x < ?s" for x
    using that lens by (simp add: col_merge_def nth_list_update)
  have len': "col_len ?st ! x = (if x = ?a then col_len st ! ?a + step else col_len st ! x)"
    if "x < ?s" for x
    using that lens by (simp add: col_merge_def nth_list_update)
  have keep': "col_keep ?st ! x = (if x = c then False else col_keep st ! x)" if "x < ?s" for x
    using that lens by (simp add: col_merge_def nth_list_update)
  from tips [OF a_s a_root] obtain n where n: "tip r K step st ?a n" ..
  then have n_len: "col_len st ! ?a = K + step * int n"
    and n_all: "\<And>i. i \<le> n \<Longrightarrow> \<exists>x<?s. ?og ! x = ?a \<and> diag r step ?a x i"
    and n_mem: "\<And>x. x < ?s \<Longrightarrow> ?og ! x = ?a \<Longrightarrow> \<exists>i\<le>n. diag r step ?a x i"
    unfolding tip_def by blast+
  from n_mem [OF js refl] obtain i where i: "i \<le> n" "diag r step ?a j i" by blast
  have dc: "diag r step ?a c (i + 1)"
    using i(2) adj by (simp add: diag_def adjacent_def distrib_left)
  have "i = n"
  proof (rule ccontr)
    assume "i \<noteq> n"
    with i(1) have "i + 1 \<le> n" by simp
    from n_all [OF this] obtain x where x: "x < ?s" "?og ! x = ?a" "diag r step ?a x (i + 1)"
      by blast
    from diag_unique [OF dist x(1) c x(3) dc] have "x = c" .
    with x(2) c_root a_c show False by simp
  qed
  with dc have dcn: "diag r step ?a c (n + 1)" by simp
  have tip_a: "tip r K step ?st ?a (n + 1)"
    unfolding tip_def
  proof (intro conjI allI impI)
    show "col_len ?st ! ?a = K + step * int (n + 1)"
      using len' [OF a_s] n_len by (simp add: distrib_left)
  next
    fix i' assume i': "i' \<le> n + 1"
    show "\<exists>x<?s. col_origin ?st ! x = ?a \<and> diag r step ?a x i'"
    proof (cases "i' = n + 1")
      case True
      with dcn og' [OF c] c show ?thesis by (intro exI [of _ c]) simp
    next
      case False
      with i' have "i' \<le> n" by simp
      from n_all [OF this] obtain x where x: "x < ?s" "?og ! x = ?a" "diag r step ?a x i'"
        by blast
      have "x \<noteq> c" using x(2) c_root a_c by auto
      with x og' [OF x(1)] show ?thesis by (intro exI [of _ x]) simp
    qed
  next
    fix x assume x: "x < ?s" "col_origin ?st ! x = ?a"
    show "\<exists>i\<le>n + 1. diag r step ?a x i"
    proof (cases "x = c")
      case True
      with dcn show ?thesis by (intro exI [of _ "n + 1"]) simp
    next
      case False
      with x og' [OF x(1)] have "?og ! x = ?a" by simp
      from n_mem [OF x(1) this] obtain i' where "i' \<le> n" "diag r step ?a x i'" by blast
      then show ?thesis by (intro exI [of _ i']) simp
    qed
  qed
  have tip_other: "\<exists>n'. tip r K step ?st b n'"
    if b: "b < ?s" "col_origin ?st ! b = b" "b \<noteq> ?a" for b
  proof -
    have bc: "b \<noteq> c" using b(2) og' [OF c] a_c by auto
    with b og' [OF b(1)] have "?og ! b = b" by simp
    from tips [OF b(1) this] obtain n' where n': "tip r K step st b n'" ..
    have "tip r K step ?st b n'"
      unfolding tip_def
    proof (intro conjI allI impI)
      show "col_len ?st ! b = K + step * int n'"
        using len' [OF b(1)] b(3) n' by (simp add: tip_def)
    next
      fix i' assume "i' \<le> n'"
      with n' obtain x where x: "x < ?s" "?og ! x = b" "diag r step b x i'"
        unfolding tip_def by blast
      have "x \<noteq> c" using x(2) c_root bc by auto
      with x og' [OF x(1)] show "\<exists>x<?s. col_origin ?st ! x = b \<and> diag r step b x i'"
        by (intro exI [of _ x]) simp
    next
      fix x assume x: "x < ?s" "col_origin ?st ! x = b"
      have "x \<noteq> c" using x(2) og' [OF c] b(3) by auto
      with x og' [OF x(1)] have "?og ! x = b" by simp
      with n' x(1) show "\<exists>i\<le>n'. diag r step b x i" unfolding tip_def by blast
    qed
    then show ?thesis ..
  qed
  show ?thesis
    unfolding oinv_def
  proof (intro conjI allI impI)
    show "length (col_keep ?st) = ?s" "length (col_origin ?st) = ?s" "length (col_len ?st) = ?s"
      using lens by (simp_all add: col_merge_def)
  next
    fix x assume "x < ?s" "c < x"
    then show "col_origin ?st ! x = x" using og' [of x] fresh [of x] c0 by simp
  next
    fix x assume x: "x < ?s"
    show "col_origin ?st ! x \<le> x" using og' [OF x] le [OF x] a_c by simp
    show "col_origin ?st ! (col_origin ?st ! x) = col_origin ?st ! x"
    proof (cases "x = c")
      case True
      then show ?thesis using og' [OF c] og' [OF a_s] a_c a_root by simp
    next
      case False
      have xs: "?og ! x < ?s" using le [OF x] x by simp
      have "?og ! x \<noteq> c" using only_c [OF x] False by blast
      then show ?thesis using og' [OF x] og' [OF xs] False idem [OF x] by simp
    qed
  next
    fix x assume x: "x < ?s"
    show "col_keep ?st ! x = (col_origin ?st ! x = x)"
      using keep' [OF x] og' [OF x] keep [OF x] a_c by auto
  next
    fix b assume b: "b < ?s" "col_origin ?st ! b = b"
    show "\<exists>n. tip r K step ?st b n"
    proof (cases "b = ?a")
      case True
      with tip_a show ?thesis by blast
    next
      case False
      with b show ?thesis by (rule tip_other)
    qed
  qed
qed


lemma col_loop_oinv:
  assumes srt: "sorted_hits r" and dist: "distinct_hits r"
  shows "oinv r K step c st \<Longrightarrow> col_k st \<le> c \<Longrightarrow> c < length (rset r) \<Longrightarrow>
    oinv r K step (length (rset r) - 1) (col_loop r step (length (rset r)) c st)"
proof (induction "length (rset r) - c" arbitrary: c st rule: less_induct)
  case less
  let ?s = "length (rset r)"
  show ?case
  proof (cases "int c < int ?s - 1")
    case False
    with less.prems(3) have "c = ?s - 1" by simp
    moreover have "col_loop r step ?s c st = st" using False by (subst col_loop.simps) simp
    ultimately show ?thesis using less.prems(1) by simp
  next
    case True
    then have c1: "c + 1 < ?s" by simp
    let ?st = "if rset r ! col_k st = rset r ! (c + 1)
               then col_scan r step (c + 1) (col_k st) st else st\<lparr>col_k := c + 1\<rparr>"
    have inv': "oinv r K step (c + 1) ?st \<and> col_k ?st \<le> c + 1"
    proof (cases "rset r ! col_k st = rset r ! (c + 1)")
      case False
      with oinv_mono [OF less.prems(1), of "c + 1"] show ?thesis by simp
    next
      case same: True
      from col_scan_cases [of st "col_k st" "c + 1" r step] less.prems(2)
      obtain k' where k': "col_k st \<le> k'" "k' \<le> c + 1"
        "col_scan r step (c + 1) (col_k st) st = st\<lparr>col_k := k'\<rparr> \<or>
          (\<exists>j'. col_k st \<le> j' \<and> j' < c + 1 \<and>
            rposTarget r ! (c + 1) - rposTarget r ! j' = step \<and>
            rposQuery r ! (c + 1) - rposQuery r ! j' = step \<and>
            col_scan r step (c + 1) (col_k st) st = col_merge r step (c + 1) j' (st\<lparr>col_k := k'\<rparr>))"
        by auto
      from k'(3) have "oinv r K step (c + 1) (col_scan r step (c + 1) (col_k st) st)
          \<and> col_k (col_scan r step (c + 1) (col_k st) st) \<le> c + 1"
      proof
        assume "col_scan r step (c + 1) (col_k st) st = st\<lparr>col_k := k'\<rparr>"
        with oinv_mono [OF less.prems(1), of "c + 1"] k'(2) show ?thesis by simp
      next
        assume "\<exists>j'. col_k st \<le> j' \<and> j' < c + 1 \<and>
            rposTarget r ! (c + 1) - rposTarget r ! j' = step \<and>
            rposQuery r ! (c + 1) - rposQuery r ! j' = step \<and>
            col_scan r step (c + 1) (col_k st) st = col_merge r step (c + 1) j' (st\<lparr>col_k := k'\<rparr>)"
        then obtain j' where j': "col_k st \<le> j'" "j' < c + 1"
            "rposTarget r ! (c + 1) - rposTarget r ! j' = step"
            "rposQuery r ! (c + 1) - rposQuery r ! j' = step"
            "col_scan r step (c + 1) (col_k st) st = col_merge r step (c + 1) j' (st\<lparr>col_k := k'\<rparr>)"
          by blast
        have "rset r ! j' = rset r ! (c + 1)"
          using sorted_hits_between [OF srt j'(1) _ c1 same] j'(2) by simp
        with j'(3,4) have adj: "adjacent r step j' (c + 1)" by (simp add: adjacent_def)
        have i0: "oinv r K step c (st\<lparr>col_k := k'\<rparr>)" using less.prems(1) by simp
        have "oinv r K step (c + 1) (col_merge r step (c + 1) j' (st\<lparr>col_k := k'\<rparr>))"
          using dist i0 _ c1 j'(2) adj by (rule oinv_merge) simp
        with j'(5) k'(2) show ?thesis by simp
      qed
      with same show ?thesis by simp
    qed
    have "?s - (c + 1) < ?s - c" using c1 by simp
    from less.hyps [OF this _ _ c1, of ?st] inv'
    show ?thesis using True by (subst col_loop.simps) simp
  qed
qed

lemma collapse_oinv:
  assumes "sorted_hits r" "distinct_hits r" "0 < length (rset r)"
  shows "oinv r K step (length (rset r) - 1) (collapse r K step)"
proof -
  let ?s = "length (rset r)"
  let ?init = "\<lparr>col_k = 0, col_p = int ?s, col_keep = replicate ?s True, col_origin = [0..<?s],
        col_len = replicate ?s K, col_score = rscore r\<rparr>"
  have "tip r K step ?init a 0" if "a < ?s" for a
    using that by (auto simp: tip_def diag_def)
  then have "oinv r K step 0 ?init" unfolding oinv_def by auto
  from col_loop_oinv [OF assms(1,2) this _ assms(3)] show ?thesis
    by (simp add: collapse_def Let_def)
qed

definition hits_unmasked :: "int list \<Rightarrow> raw_hits \<Rightarrow> bool" where
  "hits_unmasked w r = (\<forall>x<length (rset r). unmasked w (rposQuery r ! x - 1))"

lemma wf_hits_resize: "wf_hits (resize r st)"
  by (simp add: wf_hits_def resize_def Let_def)



section \<open>The gathered hits\<close>

text \<open>The hits of query k-mer \<open>j\<close>, as pairs of \<open>j\<close> and a position in the index arrays, and
  the hits of the whole query in the order the gather loop writes them.\<close>

definition bucket :: "int list \<Rightarrow> int list \<Rightarrow> int list \<Rightarrow> nat \<Rightarrow> (nat \<times> nat) list" where
  "bucket w counts offset j =
     map (\<lambda>i. (j, nat (offset ! nat (w ! j)) + i)) [0..<nat (counts ! j)]"

definition gathered :: "int list \<Rightarrow> int list \<Rightarrow> int list \<Rightarrow> (nat \<times> nat) list" where
  "gathered w counts offset = concat (map (bucket w counts offset) [0..<length w])"

definition holds :: "int list \<Rightarrow> int list \<Rightarrow> raw_hits \<Rightarrow> (nat \<times> nat) list \<Rightarrow> bool" where
  "holds loc ind r G =
    (rposQuery r = map (\<lambda>(j, P). int j + 1) G \<and> rposTarget r = map (\<lambda>(j, P). loc ! P) G \<and>
     rset r = map (\<lambda>(j, P). ind ! P) G)"

lemma gather_inner_holds:
  "holds loc ind r G \<Longrightarrow>
   holds loc ind (gather_inner loc ind (int j + 1) sc ad cnt k P r)
     (G @ map (\<lambda>i. (j, P + i)) [0..<nat (cnt - k)])"
proof (induction "nat (cnt - k)" arbitrary: k P r G)
  case 0
  then have "\<not> k < cnt" by simp
  then have "gather_inner loc ind (int j + 1) sc ad cnt k P r = r"
    by (subst gather_inner.simps) simp
  with 0 show ?case by simp
next
  case (Suc n)
  then have lt: "k < cnt" by simp
  let ?r = "r\<lparr>rposQuery := rposQuery r @ [int j + 1], rposTarget := rposTarget r @ [loc ! P],
            rset := rset r @ [ind ! P], rscore := rscore r @ [sc],
            raddScore := raddScore r @ [ad]\<rparr>"
  have n: "n = nat (cnt - (k + 1))" using Suc.hyps(2) by simp
  have h: "holds loc ind ?r (G @ [(j, P)])" using Suc.prems by (simp add: holds_def)
  have sc: "gather_inner loc ind (int j + 1) sc ad cnt k P r
      = gather_inner loc ind (int j + 1) sc ad cnt (k + 1) (P + 1) ?r"
    using lt by (subst gather_inner.simps) simp
  have "map (\<lambda>i. (j, P + i)) [0..<nat (cnt - k)]
      = (j, P) # map (\<lambda>i. (j, P + 1 + i)) [0..<nat (cnt - (k + 1))]"
    using Suc.hyps(2) [symmetric] n [symmetric] by (simp add: map_upt_Suc del: upt_Suc)
  with Suc.hyps(1) [OF n h, where P = "P + 1"] sc show ?case by simp
qed

lemma gather_loop_holds:
  "holds loc ind r G \<Longrightarrow>
   holds loc ind (gather_loop w counts offset loc ind scores addScores j r)
     (G @ concat (map (bucket w counts offset) [j..<length w]))"
proof (induction "length w - j" arbitrary: j r G rule: less_induct)
  case less
  show ?case
  proof (cases "j < length w")
    case False
    then have "gather_loop w counts offset loc ind scores addScores j r = r"
      by (subst gather_loop.simps) simp
    with False less.prems show ?thesis by simp
  next
    case True
    let ?r = "if counts ! j > 0
          then gather_inner loc ind (int j + 1) (scores ! nat (w ! j)) (addScores ! nat (w ! j))
                 (counts ! j) 0 (nat (offset ! nat (w ! j))) r
          else r"
    have sc: "gather_loop w counts offset loc ind scores addScores j r
        = gather_loop w counts offset loc ind scores addScores (j + 1) ?r"
      using True by (subst gather_loop.simps) simp
    have h: "holds loc ind ?r (G @ bucket w counts offset j)"
    proof (cases "counts ! j > 0")
      case True
      from gather_inner_holds [OF less.prems, of j _ _ "counts ! j" 0 "nat (offset ! nat (w ! j))"]
      show ?thesis using True by (simp add: bucket_def)
    next
      case False
      with less.prems show ?thesis by (simp add: bucket_def)
    qed
    have "length w - (j + 1) < length w - j" using True by simp
    from less.hyps [OF this h] sc True show ?thesis by (simp add: upt_conv_Cons)
  qed
qed

lemma gather_holds:
  "holds loc ind (gather w counts offset loc ind scores addScores) (gathered w counts offset)"
proof -
  have "holds loc ind \<lparr>rposQuery = [], rposTarget = [], rset = [], rscore = [], raddScore = []\<rparr> []"
    by (simp add: holds_def)
  from gather_loop_holds [OF this, of w counts offset scores addScores 0]
  show ?thesis by (simp add: gather_def gathered_def)
qed

lemma concat_nth_split:
  "x < length (concat xss) \<Longrightarrow>
   \<exists>g i. g < length xss \<and> i < length (xss ! g) \<and> x = length (concat (take g xss)) + i"
proof (induction xss rule: rev_induct)
  case Nil
  then show ?case by simp
next
  case (snoc ys xss)
  show ?case
  proof (cases "x < length (concat xss)")
    case True
    from snoc.IH [OF this] obtain g i where
      "g < length xss" "i < length (xss ! g)" "x = length (concat (take g xss)) + i" by blast
    then show ?thesis
      by (intro exI [of _ g] exI [of _ i]) (simp add: nth_append)
  next
    case False
    with snoc.prems show ?thesis
      by (intro exI [of _ "length xss"] exI [of _ "x - length (concat xss)"]) simp
  qed
qed

lemma concat_nth_at:
  assumes "g < length xss" "i < length (xss ! g)"
  shows "concat xss ! (length (concat (take g xss)) + i) = xss ! g ! i"
proof -
  have "concat xss = concat (take g xss) @ xss ! g @ concat (drop (Suc g) xss)"
    using id_take_nth_drop [OF assms(1)] by (metis concat.simps(2) concat_append)
  then show ?thesis using assms(2) by (simp add: nth_append)
qed

lemma concat_nth_bound:
  assumes "g < length xss" "i < length (xss ! g)"
  shows "length (concat (take g xss)) + i < length (concat xss)"
proof -
  have "concat xss = concat (take g xss) @ xss ! g @ concat (drop (Suc g) xss)"
    using id_take_nth_drop [OF assms(1)] by (metis concat.simps(2) concat_append)
  then have "length (concat xss)
      = length (concat (take g xss)) + (length (xss ! g) + length (concat (drop (Suc g) xss)))"
    by (metis length_append)
  with assms(2) show ?thesis by linarith
qed

lemma bucket_start:
  assumes "\<forall>x\<in>set counts. 0 \<le> x"
  shows "g \<le> length counts \<Longrightarrow>
    length (concat (map (bucket w counts offset) [0..<g])) = nat (sum_list (take g counts))"
proof (induction g)
  case 0
  then show ?case by simp
next
  case (Suc g)
  then have g: "g < length counts" by simp
  have nn: "0 \<le> sum_list (take g counts)"
    using assms by (intro sum_list_nonneg) (auto dest: in_set_takeD)
  have cg: "0 \<le> counts ! g" using assms g by simp
  have "sum_list (take (Suc g) counts) = sum_list (take g counts) + counts ! g"
    using g by (simp add: take_Suc_conv_app_nth)
  with Suc.IH g nn cg show ?case by (simp add: bucket_def nat_add_distrib)
qed

definition cnt_of :: "int list \<Rightarrow> int \<Rightarrow> int" where
  "cnt_of num0 c = (if c = NA_INTEGER then 0 else num0 ! nat c)"

lemma count_loop_counts:
  "count_loop w num0 j counts s = (counts', s', False) \<Longrightarrow>
   counts' = counts @ map (\<lambda>j. cnt_of num0 (w ! j)) [j..<length w]"
proof (induction "length w - j" arbitrary: j counts s rule: less_induct)
  case less
  show ?case
  proof (cases "j < length w")
    case False
    with less.prems show ?thesis by (subst (asm) count_loop.simps) simp
  next
    case True
    have dec: "length w - (j + 1) < length w - j" using True by simp
    show ?thesis
    proof (cases "w ! j = NA_INTEGER")
      case na: True
      have "count_loop w num0 (j + 1) (counts @ [0]) s = (counts', s', False)"
        using less.prems True na by (subst (asm) count_loop.simps) simp
      from less.hyps [OF dec this] True na show ?thesis
        by (simp add: upt_conv_Cons cnt_of_def)
    next
      case False
      let ?cj = "num0 ! nat (w ! j)"
      have neg: "\<not> wrap32 (s + ?cj) < 0"
      proof
        assume "wrap32 (s + ?cj) < 0"
        then have "count_loop w num0 j counts s = (counts @ [?cj], wrap32 (s + ?cj), True)"
          using True False by (subst count_loop.simps) (simp add: Let_def)
        with less.prems show False by simp
      qed
      have "count_loop w num0 (j + 1) (counts @ [?cj]) (wrap32 (s + ?cj)) = (counts', s', False)"
        using less.prems True False neg by (subst (asm) count_loop.simps) (simp add: Let_def)
      from less.hyps [OF dec this] True False show ?thesis
        by (simp add: upt_conv_Cons cnt_of_def)
    qed
  qed
qed

lemma count_loop_map:
  assumes "count_loop w num0 0 [] 0 = (counts, s, False)"
  shows "counts = map (cnt_of num0) w"
proof -
  from count_loop_counts [OF assms]
  have "counts = map (\<lambda>j. cnt_of num0 (w ! j)) [0..<length w]" by simp
  also have "\<dots> = map (cnt_of num0) (map ((!) w) [0..<length w])" by simp
  also have "\<dots> = map (cnt_of num0) w" by (simp only: map_nth)
  finally show ?thesis .
qed

lemma hit_total_cnt_of: "hit_total num0 w = sum_list (map (cnt_of num0) w)"
  by (induction w) (simp_all add: hit_total_def cnt_of_def)

text \<open>A query fits the index when every unmasked k-mer code addresses a bucket and every
  bucket size is a non-negative 32-bit integer.  An index is sorted when every bucket lists
  its (target, position) pairs in strictly increasing order, as the builder writes them.\<close>

definition query_ok :: "int list \<Rightarrow> int list \<Rightarrow> bool" where
  "query_ok num0 w =
    (\<forall>c\<in>set w. c \<noteq> NA_INTEGER \<longrightarrow>
       0 \<le> c \<and> nat c < length num0 \<and> 0 \<le> num0 ! nat c \<and> num0 ! nat c \<le> 2147483647)"

definition index_sorted :: "index \<Rightarrow> bool" where
  "index_sorted ix =
    (\<forall>c<length (ix_num ix). \<forall>P P'.
       nat (offsets (ix_num ix) ! c) \<le> P \<and> P < P' \<and>
       P' < nat (offsets (ix_num ix) ! c) + nat (ix_num ix ! c) \<longrightarrow>
         ix_ind ix ! P < ix_ind ix ! P' \<or>
         (ix_ind ix ! P = ix_ind ix ! P' \<and> ix_loc ix ! P < ix_loc ix ! P'))"

lemma query_ok_counts_ok: "query_ok num0 w \<Longrightarrow> counts_ok num0 w"
  unfolding query_ok_def counts_ok_def by blast

lemma query_ok_nonneg:
  assumes "query_ok num0 w"
  shows "\<forall>x\<in>set (map (cnt_of num0) w). 0 \<le> x"
  using assms unfolding query_ok_def cnt_of_def by auto

lemma gathered_at:
  assumes nn: "\<forall>x\<in>set counts. 0 \<le> x" and len: "length counts = length w"
    and x: "x < length (gathered w counts offset)"
  shows "\<exists>g i. g < length w \<and> i < nat (counts ! g) \<and>
    x = nat (sum_list (take g counts)) + i \<and>
    gathered w counts offset ! x = (g, nat (offset ! nat (w ! g)) + i)"
proof -
  let ?xss = "map (bucket w counts offset) [0..<length w]"
  have "x < length (concat ?xss)" using x by (simp only: gathered_def)
  from concat_nth_split [OF this] obtain g i where
    g: "g < length ?xss" and i: "i < length (?xss ! g)"
    and xe: "x = length (concat (take g ?xss)) + i"
    by blast
  have gl: "g < length w" using g by simp
  have il: "i < nat (counts ! g)" using i gl by (simp add: bucket_def)
  have tk: "take g ?xss = map (bucket w counts offset) [0..<g]"
    using gl by (simp add: take_map take_upt)
  have st: "length (concat (take g ?xss)) = nat (sum_list (take g counts))"
    unfolding tk using gl len by (intro bucket_start [OF nn]) simp
  have "gathered w counts offset ! x = ?xss ! g ! i"
    unfolding gathered_def xe by (rule concat_nth_at [OF g i])
  also have "\<dots> = (g, nat (offset ! nat (w ! g)) + i)" using gl il by (simp add: bucket_def)
  finally have at: "gathered w counts offset ! x = (g, nat (offset ! nat (w ! g)) + i)" .
  have xe': "x = nat (sum_list (take g counts)) + i" using xe st by simp
  from gl il xe' at show ?thesis by (intro exI [of _ g] exI [of _ i] conjI)
qed

lemma gathered_in_bucket:
  assumes nn: "\<forall>x\<in>set counts. 0 \<le> x" and len: "length counts = length w"
    and g: "g < length w" and i: "i < nat (counts ! g)"
  shows "nat (sum_list (take g counts)) + i < length (gathered w counts offset)"
    "gathered w counts offset ! (nat (sum_list (take g counts)) + i)
       = (g, nat (offset ! nat (w ! g)) + i)"
proof -
  let ?xss = "map (bucket w counts offset) [0..<length w]"
  have gx: "g < length ?xss" using g by simp
  have ix: "i < length (?xss ! g)" using g i by (simp add: bucket_def)
  have tk: "take g ?xss = map (bucket w counts offset) [0..<g]"
    using g by (simp add: take_map take_upt)
  have st: "length (concat (take g ?xss)) = nat (sum_list (take g counts))"
    unfolding tk using g len by (intro bucket_start [OF nn]) simp
  have "gathered w counts offset ! (length (concat (take g ?xss)) + i) = ?xss ! g ! i"
    unfolding gathered_def by (rule concat_nth_at [OF gx ix])
  then show "gathered w counts offset ! (nat (sum_list (take g counts)) + i)
       = (g, nat (offset ! nat (w ! g)) + i)"
    using st g i by (simp add: bucket_def)
  have "length (concat (take g ?xss)) + i < length (concat ?xss)"
    by (rule concat_nth_bound [OF gx ix])
  then show "nat (sum_list (take g counts)) + i < length (gathered w counts offset)"
    using st unfolding gathered_def by simp
qed

lemma gathered_length:
  assumes nn: "\<forall>x\<in>set counts. 0 \<le> x" and len: "length counts = length w"
  shows "int (length (gathered w counts offset)) = sum_list counts"
proof -
  have "length (gathered w counts offset) = nat (sum_list (take (length w) counts))"
    unfolding gathered_def using len by (intro bucket_start [OF nn]) simp
  moreover have "take (length w) counts = counts" using len [symmetric] by simp
  moreover have "0 \<le> sum_list counts" using nn by (intro sum_list_nonneg) simp
  ultimately show ?thesis by simp
qed


lemma holds_nth:
  assumes "holds loc ind r G" "x < length G" "G ! x = (g, P)"
  shows "rposQuery r ! x = int g + 1" "rposTarget r ! x = loc ! P" "rset r ! x = ind ! P"
  using assms by (simp_all add: holds_def)

lemma holds_length: "holds loc ind r G \<Longrightarrow> length (rset r) = length G"
  by (simp add: holds_def)

lemma bucket_strict:
  assumes q: "query_ok (ix_num ix) w" and ix: "index_sorted ix"
    and g: "g < length w" and i: "i < i'" "i' < nat (cnt_of (ix_num ix) (w ! g))"
  shows "ix_ind ix ! (nat (offsets (ix_num ix) ! nat (w ! g)) + i)
        < ix_ind ix ! (nat (offsets (ix_num ix) ! nat (w ! g)) + i') \<or>
     (ix_ind ix ! (nat (offsets (ix_num ix) ! nat (w ! g)) + i)
        = ix_ind ix ! (nat (offsets (ix_num ix) ! nat (w ! g)) + i') \<and>
      ix_loc ix ! (nat (offsets (ix_num ix) ! nat (w ! g)) + i)
        < ix_loc ix ! (nat (offsets (ix_num ix) ! nat (w ! g)) + i'))"
proof -
  let ?c = "nat (w ! g)"
  let ?off = "nat (offsets (ix_num ix) ! ?c)"
  have na: "w ! g \<noteq> NA_INTEGER" using i by (auto simp: cnt_of_def)
  have "w ! g \<in> set w" using g by simp
  with q na have c: "?c < length (ix_num ix)" unfolding query_ok_def by blast
  have n: "cnt_of (ix_num ix) (w ! g) = ix_num ix ! ?c" using na by (simp add: cnt_of_def)
  have "?off \<le> ?off + i \<and> ?off + i < ?off + i' \<and> ?off + i' < ?off + nat (ix_num ix ! ?c)"
    using i n by simp
  with ix c show ?thesis unfolding index_sorted_def by blast
qed

lemma gather_unmasked:
  assumes q: "query_ok num0 w" and h: "holds loc ind r (gathered w (map (cnt_of num0) w) offset)"
  shows "hits_unmasked w r"
  unfolding hits_unmasked_def
proof (intro allI impI)
  let ?counts = "map (cnt_of num0) w"
  let ?G = "gathered w ?counts offset"
  fix x assume "x < length (rset r)"
  then have x: "x < length ?G" using holds_length [OF h] by simp
  from gathered_at [OF query_ok_nonneg [OF q] _ x] obtain g i where
    g: "g < length w" and i: "i < nat (?counts ! g)"
    and at: "?G ! x = (g, nat (offset ! nat (w ! g)) + i)" by auto
  have "w ! g \<noteq> NA_INTEGER" using i g by (auto simp: cnt_of_def)
  moreover have "rposQuery r ! x = int g + 1" using h x at by (rule holds_nth)
  ultimately show "unmasked w (rposQuery r ! x - 1)" using g by (simp add: unmasked_def)
qed

lemma gather_distinct:
  assumes q: "query_ok (ix_num ix) w" and ix: "index_sorted ix"
    and h: "holds (ix_loc ix) (ix_ind ix) r
              (gathered w (map (cnt_of (ix_num ix)) w) (offsets (ix_num ix)))"
  shows "distinct_hits r"
  unfolding distinct_hits_def
proof (intro allI impI)
  let ?counts = "map (cnt_of (ix_num ix)) w"
  let ?off = "offsets (ix_num ix)"
  let ?G = "gathered w ?counts ?off"
  fix x y
  assume a: "x < length (rset r) \<and> y < length (rset r) \<and> rset r ! x = rset r ! y \<and>
       rposQuery r ! x = rposQuery r ! y \<and> rposTarget r ! x = rposTarget r ! y"
  then have x: "x < length ?G" and y: "y < length ?G" using holds_length [OF h] by simp_all
  from gathered_at [OF query_ok_nonneg [OF q] _ x] obtain g i where
    g: "g < length w" and i: "i < nat (?counts ! g)"
    and xe: "x = nat (sum_list (take g ?counts)) + i"
    and xat: "?G ! x = (g, nat (?off ! nat (w ! g)) + i)" by auto
  from gathered_at [OF query_ok_nonneg [OF q] _ y] obtain g' i' where
    g': "g' < length w" and i': "i' < nat (?counts ! g')"
    and ye: "y = nat (sum_list (take g' ?counts)) + i'"
    and yat: "?G ! y = (g', nat (?off ! nat (w ! g')) + i')" by auto
  note hx = holds_nth [OF h x xat] and hy = holds_nth [OF h y yat]
  from a hx(1) hy(1) have gg: "g' = g" by simp
  have ci: "i < nat (cnt_of (ix_num ix) (w ! g))" using i g by simp
  have ci': "i' < nat (cnt_of (ix_num ix) (w ! g))" using i' g gg by simp
  have "i = i'"
  proof (rule ccontr)
    assume "i \<noteq> i'"
    then consider "i < i'" | "i' < i" by linarith
    then show False
    proof cases
      case 1
      from bucket_strict [OF q ix g 1 ci'] a hx(2,3) hy(2,3) gg show False by simp
    next
      case 2
      from bucket_strict [OF q ix g 2 ci] a hx(2,3) hy(2,3) gg show False by simp
    qed
  qed
  with xe ye gg show "x = y" by simp
qed

lemma gather_buckets_sorted:
  assumes q: "query_ok (ix_num ix) w" and ix: "index_sorted ix"
    and h: "holds (ix_loc ix) (ix_ind ix) r
              (gathered w (map (cnt_of (ix_num ix)) w) (offsets (ix_num ix)))"
  shows "buckets_sorted (rset r) (rposTarget r) (map (cnt_of (ix_num ix)) w)"
  unfolding buckets_sorted_def
proof (intro allI impI)
  let ?counts = "map (cnt_of (ix_num ix)) w"
  let ?off = "offsets (ix_num ix)"
  let ?G = "gathered w ?counts ?off"
  fix g x y
  assume g: "g < length ?counts"
    and b: "nat (sum_list (take g ?counts)) \<le> x \<and> x < y \<and>
            y < nat (sum_list (take (Suc g) ?counts))"
  let ?B = "nat (sum_list (take g ?counts))"
  have gl: "g < length w" using g by simp
  note nn = query_ok_nonneg [OF q]
  have s0: "0 \<le> sum_list (take g ?counts)"
  proof (rule sum_list_nonneg)
    fix x assume "x \<in> set (take g ?counts)"
    then have "x \<in> set ?counts" by (rule in_set_takeD)
    with nn show "0 \<le> x" by blast
  qed
  have "?counts ! g \<in> set ?counts" using g by (rule nth_mem)
  with nn have c0: "0 \<le> ?counts ! g" by blast
  have "sum_list (take (Suc g) ?counts) = sum_list (take g ?counts) + ?counts ! g"
    using g by (simp add: take_Suc_conv_app_nth)
  then have nxt: "nat (sum_list (take (Suc g) ?counts)) = ?B + nat (?counts ! g)"
    using s0 c0 by (simp add: nat_add_distrib)
  define i where "i = x - ?B"
  define i' where "i' = y - ?B"
  have ii: "i < i'" "i' < nat (?counts ! g)" and xe: "x = ?B + i" and ye: "y = ?B + i'"
    unfolding i_def i'_def using b nxt by linarith+
  have il: "i < nat (?counts ! g)" using ii by simp
  note gx = gathered_in_bucket [OF nn _ gl il, of ?off] and gy = gathered_in_bucket [OF nn _ gl ii(2), of ?off]
  have xl: "x < length ?G" and xat: "?G ! x = (g, nat (?off ! nat (w ! g)) + i)"
    using gx unfolding xe by simp_all
  have yl: "y < length ?G" and yat: "?G ! y = (g, nat (?off ! nat (w ! g)) + i')"
    using gy unfolding ye by simp_all
  note hx = holds_nth [OF h xl xat] and hy = holds_nth [OF h yl yat]
  have ci': "i' < nat (cnt_of (ix_num ix) (w ! g))" using ii(2) gl by simp
  from bucket_strict [OF q ix gl ii(1) ci'] hx(2,3) hy(2,3)
  show "hit_le (rset r) (rposTarget r) x y" by (auto simp: hit_le_def)
qed

section \<open>The sorted hits\<close>

lemma reorder_sorted:
  assumes len: "length o1 = length (rset r0)"
    and srt: "sorted_wrt (hit_before (rset r0) (rposTarget r0)) o1"
    and perm: "set o1 = {0..<length (rset r0)}"
  shows "length (rset (reorder o1 r0)) = length (rset r0)"
    and "sorted_hits (reorder o1 r0)"
    and "distinct_hits r0 \<Longrightarrow> distinct_hits (reorder o1 r0)"
    and "hits_unmasked w r0 \<Longrightarrow> hits_unmasked w (reorder o1 r0)"
proof -
  let ?s = "length (rset r0)"
  let ?r = "reorder o1 r0"
  show l: "length (rset ?r) = ?s" using len by (simp add: reorder_def)
  have nth: "rset ?r ! j = rset r0 ! (o1 ! j)" "rposTarget ?r ! j = rposTarget r0 ! (o1 ! j)"
    "rposQuery ?r ! j = rposQuery r0 ! (o1 ! j)" if "j < ?s" for j
    using that len by (simp_all add: reorder_def)
  have rng: "o1 ! j < ?s" if "j < ?s" for j
    using nth_mem [of j o1] that len perm by auto
  have d: "distinct o1" using srt by (rule sorted_hit_before_distinct)
  show "sorted_hits ?r"
    unfolding sorted_hits_def
  proof (intro allI impI)
    fix i j assume ij: "i < j \<and> j < length (rset ?r)"
    then have "hit_before (rset r0) (rposTarget r0) (o1 ! i) (o1 ! j)"
      using srt len l by (simp add: sorted_wrt_iff_nth_less)
    with ij l nth [of i] nth [of j]
    show "rset ?r ! i < rset ?r ! j \<or>
       (rset ?r ! i = rset ?r ! j \<and> rposTarget ?r ! i \<le> rposTarget ?r ! j)"
      by (auto simp: hit_before_def)
  qed
  show "distinct_hits ?r" if dh: "distinct_hits r0"
    unfolding distinct_hits_def
  proof (intro allI impI)
    fix x y
    assume a: "x < length (rset ?r) \<and> y < length (rset ?r) \<and> rset ?r ! x = rset ?r ! y \<and>
       rposQuery ?r ! x = rposQuery ?r ! y \<and> rposTarget ?r ! x = rposTarget ?r ! y"
    then have x: "x < ?s" and y: "y < ?s" using l by simp_all
    from a nth [OF x] nth [OF y]
    have "rset r0 ! (o1 ! x) = rset r0 ! (o1 ! y) \<and>
       rposQuery r0 ! (o1 ! x) = rposQuery r0 ! (o1 ! y) \<and>
       rposTarget r0 ! (o1 ! x) = rposTarget r0 ! (o1 ! y)" by simp
    with dh rng [OF x] rng [OF y] have "o1 ! x = o1 ! y" unfolding distinct_hits_def by blast
    with d x y len show "x = y" by (simp add: nth_eq_iff_index_eq)
  qed
  show "hits_unmasked w ?r" if um: "hits_unmasked w r0"
    unfolding hits_unmasked_def
  proof (intro allI impI)
    fix x assume "x < length (rset ?r)"
    then have x: "x < ?s" using l by simp
    from um rng [OF x] have "unmasked w (rposQuery r0 ! (o1 ! x) - 1)"
      unfolding hits_unmasked_def by blast
    with nth(3) [OF x] show "unmasked w (rposQuery ?r ! x - 1)" by simp
  qed
qed


section \<open>Coverage stays below the query width\<close>

lemma query_hits_collapsed:
  assumes q: "query_ok (ix_num ix) w"
    and ix: "index_sorted ix"
    and cnt: "count_loop w (ix_num ix) 0 [] 0 = (counts, s, False)"
    and s: "s \<noteq> 0"
  shows "\<exists>r. query_hits pr ix counts w = resize r (collapse r (p_wordSize pr) (p_stepSize pr)) \<and>
    0 < length (rset r) \<and> hits_unmasked w r \<and>
    oinv r (p_wordSize pr) (p_stepSize pr) (length (rset r) - 1)
      (collapse r (p_wordSize pr) (p_stepSize pr))"
proof -
  obtain scores addScores where
    sc: "score_tables (p_logFreqs pr) (length (ix_num ix)) (nat (p_wordSize pr)) (p_stepSize pr)
          = (scores, addScores)"
    by (cases "score_tables (p_logFreqs pr) (length (ix_num ix)) (nat (p_wordSize pr))
          (p_stepSize pr)") auto
  define r0 where
    "r0 = gather w counts (offsets (ix_num ix)) (ix_loc ix) (ix_ind ix) scores addScores"
  define r where "r = reorder (merge_sort (rset r0) (rposTarget r0) counts) r0"
  have qh: "query_hits pr ix counts w
      = resize r (collapse r (p_wordSize pr) (p_stepSize pr))"
    by (simp add: query_hits_def Let_def sc r0_def r_def)
  have cm: "counts = map (cnt_of (ix_num ix)) w" using cnt by (rule count_loop_map)
  have "s = hit_total (ix_num ix) w"
    using count_loop_overflow [OF query_ok_counts_ok [OF q] _ _ _ cnt]
    by (simp add: hit_total_def)
  then have ssum: "s = sum_list counts" by (simp add: hit_total_cnt_of cm)
  have h: "holds (ix_loc ix) (ix_ind ix) r0
      (gathered w (map (cnt_of (ix_num ix)) w) (offsets (ix_num ix)))"
    unfolding r0_def cm by (rule gather_holds)
  have nn: "\<forall>x\<in>set counts. 0 \<le> x" unfolding cm using q by (rule query_ok_nonneg)
  have "int (length (rset r0)) = sum_list counts"
    using gathered_length [OF nn, of w "offsets (ix_num ix)"] holds_length [OF h]
    by (simp add: cm)
  then have tot: "sum_list counts = int (length (rset r0))" by simp
  have pos: "0 < length (rset r0)" using tot ssum s by simp
  have ne: "counts \<noteq> []" using ssum s by auto
  have bs: "buckets_sorted (rset r0) (rposTarget r0) counts"
    unfolding cm using q ix h by (rule gather_buckets_sorted)
  note m = merge_sort_run [OF nn tot ne bs]
  note ro = reorder_sorted [OF m, folded r_def]
  have d0: "distinct_hits r0" using q ix h by (rule gather_distinct)
  have u0: "hits_unmasked w r0" using q h by (rule gather_unmasked)
  have pos': "0 < length (rset r)" using ro(1) pos by simp
  have inv: "oinv r (p_wordSize pr) (p_stepSize pr) (length (rset r) - 1)
      (collapse r (p_wordSize pr) (p_stepSize pr))"
    using ro(2) ro(3) [OF d0] pos' by (rule collapse_oinv)
  from qh pos' ro(4) [OF u0] inv show ?thesis by blast
qed


lemma query_hits_nonempty:
  assumes q: "query_ok (ix_num ix) w"
    and ix: "index_sorted ix"
    and cnt: "count_loop w (ix_num ix) 0 [] 0 = (counts, s, False)"
    and s: "s \<noteq> 0"
  shows "0 < length (tset (query_hits pr ix counts w))"
proof -
  from query_hits_collapsed [OF q ix cnt s, of pr] obtain r where
    qh: "query_hits pr ix counts w = resize r (collapse r (p_wordSize pr) (p_stepSize pr))"
    and pos: "0 < length (rset r)"
    and inv: "oinv r (p_wordSize pr) (p_stepSize pr) (length (rset r) - 1)
      (collapse r (p_wordSize pr) (p_stepSize pr))"
    by blast
  let ?st = "collapse r (p_wordSize pr) (p_stepSize pr)"
  from inv pos have "col_origin ?st ! 0 \<le> 0" "col_keep ?st ! 0 = (col_origin ?st ! 0 = 0)"
    unfolding oinv_def by blast+
  then have "col_keep ?st ! 0" by simp
  with pos have "0 \<in> set (filter (\<lambda>j. col_keep ?st ! j) [0..<length (rset r)])" by simp
  then have "filter (\<lambda>j. col_keep ?st ! j) [0..<length (rset r)] \<noteq> []" by force
  then show ?thesis unfolding qh by (simp add: resize_def Let_def)
qed















section \<open>Every query that does not overflow returns\<close>

lemma those_map_Some:
  "(\<And>x. x \<in> set xs \<Longrightarrow> \<exists>y. f x = Some y) \<Longrightarrow> \<exists>ys. those (map f xs) = Some ys"
proof (induction xs)
  case Nil
  then show ?case by simp
next
  case (Cons x xs)
  from Cons.prems [of x] obtain y where y: "f x = Some y" by auto
  from Cons.IH Cons.prems obtain ys where "those (map f xs) = Some ys" by auto
  with y show ?case by simp
qed

lemma top_loop_bound: "best < length sc \<Longrightarrow> top_loop sc j best < length sc"
proof (induction "length sc - j" arbitrary: j best rule: less_induct)
  case less
  show ?case
  proof (cases "j < length sc")
    case False
    then have "top_loop sc j best = best" by (subst top_loop.simps) simp
    with less.prems show ?thesis by simp
  next
    case True
    have dec: "length sc - (j + 1) < length sc - j" using True by simp
    have b: "(if sc ! j > sc ! best then j else best) < length sc"
      using True less.prems by simp
    from less.hyps [OF dec b] True show ?thesis by (subst top_loop.simps) simp
  qed
qed

lemma candidates_in_range:
  assumes wf: "wf_hits h" and pos: "0 < length (tset h)"
    and lsc: "length sc = length (tset h)"
  shows "\<exists>res c. candidates otype (tset h) sc (origin (chainDP h cs)) = Some (res, c) \<and>
    (\<forall>r\<in>set res. r < length (tset h))"
proof -
  let ?org = "origin (chainDP h cs)"
  have lo: "length ?org = length (tset h)" using wf by (rule chainDP_lengths)
  consider "otype = 1" | "otype \<noteq> 1" "otype = 2" | "otype \<noteq> 1" "otype \<noteq> 2" by blast
  then show ?thesis
  proof cases
    case 1
    have ok: "origin_ok ?org"
      unfolding origin_ok_def using chainDP_origin [OF wf, of _ cs] lo by simp
    have len: "length sc = length ?org" using lsc lo by simp
    from all_hits_result [OF ok len] 1 lo show ?thesis by (simp add: candidates_def)
  next
    case 2
    obtain keep c where "target_loop (tset h) sc 0 NA_INTEGER 0 (replicate (length (tset h)) False) 0
        = (keep, c)"
      by (cases "target_loop (tset h) sc 0 NA_INTEGER 0 (replicate (length (tset h)) False) 0") auto
    with 2 show ?thesis by (simp add: candidates_def hit_per_target_def Let_def)
  next
    case 3
    have "top_loop sc 1 0 < length sc" using pos lsc by (intro top_loop_bound) simp
    with 3 lsc show ?thesis by (simp add: candidates_def top_hit_def)
  qed
qed

lemma perQuery_cases:
  assumes q: "query_ok (ix_num ix) w" and ix: "index_sorted ix"
    and fits: "hit_total (ix_num ix) w \<le> 2147483647"
  shows "(if query_width w (p_wordSize pr) = 0 \<or> hit_total (ix_num ix) w = 0
          then perQuery pr ix w = Some NoHits
          else (\<exists>set2 score2 anchors. perQuery pr ix w = Some (Result set2 score2 anchors)))"
proof -
  obtain counts s abort where c: "count_loop w (ix_num ix) 0 [] 0 = (counts, s, abort)"
    by (cases "count_loop w (ix_num ix) 0 [] 0") auto
  from count_loop_overflow [OF query_ok_counts_ok [OF q] _ _ _ c] fits
  have "\<not> abort" and sv: "s = hit_total (ix_num ix) w"
    by (simp_all add: hit_total_def)
  with c have c': "count_loop w (ix_num ix) 0 [] 0 = (counts, s, False)" by simp
  show ?thesis
  proof (cases "query_width w (p_wordSize pr) = 0 \<or> s = 0")
    case True
    then have "perQuery pr ix w = Some NoHits" by (auto simp: perQuery_def Let_def c')
    with True sv show ?thesis by simp
  next
    case False
    then have s: "s \<noteq> 0" by simp
    let ?h = "query_hits pr ix counts w"
    let ?cs = "mk_costs (length (ix_num ix)) (p_sepC pr) (p_gapC pr)"
    let ?st = "chainDP ?h ?cs"
    let ?sc = "correct_scores ?h (ix_pos ix) (p_stepSize pr) (query_width w (p_wordSize pr)) ?st"
    have wf: "wf_hits ?h" by (simp add: query_hits_def Let_def split_def wf_hits_resize)
    have pos: "0 < length (tset ?h)" using q ix c' s by (rule query_hits_nonempty)
    have lsc: "length ?sc = length (tset ?h)" by (simp add: correct_scores_def)
    from candidates_in_range [OF wf pos lsc, of "p_out_type pr" ?cs]
    obtain res c where cand: "candidates (p_out_type pr) (tset ?h) ?sc (origin ?st) = Some (res, c)"
      and rng: "\<forall>r\<in>set res. r < length (tset ?h)" by blast
    let ?res' = "min_filter (p_minScore pr) (p_total pr) (ix_pos ix) (p_stepSize pr)
                    (tset ?h) ?sc res c"
    have sub: "set ?res' \<subseteq> set res"
      unfolding min_filter_def using set_take_subset [of "nat c" res] by auto
    have anc: "\<exists>y. anchor_of ?h (chain ?st) r = Some y" if "r \<in> set ?res'" for r
    proof -
      from that sub rng have r: "r < length (tset ?h)" by blast
      have "\<forall>i\<le>r. chain ?st ! i \<le> i"
        using dp_inv_chain_le [OF chainDP_inv' [OF wf, of ?cs]] r by simp
      from anchor_of_path [OF this] show ?thesis by blast
    qed
    from those_map_Some [of ?res' "anchor_of ?h (chain ?st)", OF anc]
    obtain anchors where th: "those (map (anchor_of ?h (chain ?st)) ?res') = Some anchors"
      by blast
    have "\<exists>set2 score2 anchors. perQuery pr ix w = Some (Result set2 score2 anchors)"
    proof (cases "p_scoreOnly pr = 0")
      case True
      with False th cand show ?thesis by (simp add: perQuery_def Let_def c')
    next
      case so: False
      with False cand show ?thesis by (simp add: perQuery_def Let_def c')
    qed
    with False sv show ?thesis by simp
  qed
qed

lemma perQuery_returns:
  assumes q: "query_ok (ix_num ix) w" and ix: "index_sorted ix"
    and fits: "hit_total (ix_num ix) w \<le> 2147483647"
  shows "\<exists>r. perQuery pr ix w = Some r \<and> r \<noteq> Overflow"
  using perQuery_cases [OF assms, of pr] by (auto split: if_splits)

section \<open>Overflow of the hit count\<close>

text \<open>A query runs clean when its own processing returns without overflow and the master
  thread's interrupt check after it, if one is made, reports nothing.\<close>

definition clean_query ::
  "(nat \<Rightarrow> int option) \<Rightarrow> params \<Rightarrow> index \<Rightarrow> int list list \<Rightarrow> nat \<Rightarrow> bool" where
  "clean_query poll pr ix query i =
    (case perQuery pr ix (query ! i) of
       None \<Rightarrow> False
     | Some Overflow \<Rightarrow> False
     | Some NoHits \<Rightarrow> True
     | Some (Result set2 score2 anchors) \<Rightarrow> poll i = None \<or> poll i = Some 0)"

lemma search_loop_aborted:
  "abort \<noteq> 0 \<Longrightarrow> search_loop poll pr ix query j abort out = Some (abort, out)"
proof (induction "length query - j" arbitrary: j rule: less_induct)
  case less
  show ?case
  proof (cases "j < length query")
    case False
    then show ?thesis by (subst search_loop.simps) simp
  next
    case True
    then have "length query - (j + 1) < length query - j" by simp
    from less.hyps [OF this less.prems] True less.prems show ?thesis
      by (subst search_loop.simps) simp
  qed
qed

lemma search_loop_overflow:
  assumes i: "i < length query"
    and over: "perQuery pr ix (query ! i) = Some Overflow"
  shows "j \<le> i \<Longrightarrow> \<forall>i'. j \<le> i' \<and> i' < i \<longrightarrow> clean_query poll pr ix query i' \<Longrightarrow>
    \<exists>out'. search_loop poll pr ix query j 0 out = Some (int i + 1, out')"
proof (induction "i - j" arbitrary: j out rule: less_induct)
  case less
  show ?case
  proof (cases "j = i")
    case True
    have "search_loop poll pr ix query i 0 out = search_loop poll pr ix query (i + 1) (int i + 1) out"
      using i over by (subst search_loop.simps) simp
    also have "\<dots> = Some (int i + 1, out)" by (rule search_loop_aborted) simp
    finally show ?thesis using True by simp
  next
    case False
    with less.prems(1) have ji: "j < i" by simp
    then have jl: "j < length query" using i by simp
    have dec: "i - (j + 1) < i - j" using ji by simp
    have le: "j + 1 \<le> i" using ji by simp
    have rest: "\<forall>i'. j + 1 \<le> i' \<and> i' < i \<longrightarrow> clean_query poll pr ix query i'"
      using less.prems(2) by simp
    have cl: "clean_query poll pr ix query j" using less.prems(2) ji by simp
    show ?thesis
    proof (cases "perQuery pr ix (query ! j)")
      case None
      with cl show ?thesis by (simp add: clean_query_def)
    next
      case (Some r)
      show ?thesis
      proof (cases r)
        case Overflow
        with cl Some show ?thesis by (simp add: clean_query_def)
      next
        case NoHits
        have "search_loop poll pr ix query j 0 out = search_loop poll pr ix query (j + 1) 0 out"
          using jl Some NoHits by (subst search_loop.simps) simp
        with less.hyps [OF dec le rest, of out] show ?thesis by simp
      next
        case (Result set2 score2 anchors)
        with cl Some have "(case poll j of None \<Rightarrow> 0 | Some a \<Rightarrow> a) = 0"
          by (auto simp: clean_query_def)
        then have "\<exists>out1. search_loop poll pr ix query j 0 out
             = search_loop poll pr ix query (j + 1) 0 out1"
          using jl Some Result by (subst search_loop.simps) (simp, blast)
        then obtain out1 where
          "search_loop poll pr ix query j 0 out = search_loop poll pr ix query (j + 1) 0 out1" ..
        with less.hyps [OF dec le rest, of out1] show ?thesis by simp
      qed
    qed
  qed
qed


lemma clean_queryI:
  assumes "\<exists>r. perQuery pr ix (query ! i) = Some r \<and> r \<noteq> Overflow"
    and "poll i = None \<or> poll i = Some 0"
  shows "clean_query poll pr ix query i"
proof -
  from assms(1) obtain r where r: "perQuery pr ix (query ! i) = Some r" "r \<noteq> Overflow"
    by blast
  with assms(2) show ?thesis by (cases r) (simp_all add: clean_query_def)
qed

text \<open>On one thread the overflow of query \<open>i\<close> ends the call with the error naming query
  \<open>i + 1\<close>, provided the index is sorted, the queries up to \<open>i\<close> fit it, no earlier query
  overflows and no interrupt is reported before.\<close>

lemma overflow_aborts_sequential:
  assumes "i < length query"
    and "index_sorted ix"
    and "\<forall>i'\<le>i. query_ok (ix_num ix) (query ! i')"
    and "2147483647 < hit_total (ix_num ix) (query ! i)"
    and "\<forall>i'<i. hit_total (ix_num ix) (query ! i') \<le> 2147483647"
    and "\<forall>i'<i. poll i' = None \<or> poll i' = Some 0"
  shows "searchIndex poll pr ix query = Some (Inl (TooManyHits (int i + 1)))"
proof -
  have "counts_ok (ix_num ix) (query ! i)" using assms(3) by (intro query_ok_counts_ok) simp
  then have over: "perQuery pr ix (query ! i) = Some Overflow"
    using assms(4) by (rule perQuery_overflow)
  have clean: "\<forall>i'. 0 \<le> i' \<and> i' < i \<longrightarrow> clean_query poll pr ix query i'"
  proof (intro allI impI)
    fix i' assume i': "0 \<le> i' \<and> i' < i"
    have "\<exists>r. perQuery pr ix (query ! i') = Some r \<and> r \<noteq> Overflow"
      using assms(2,3,5) i' by (intro perQuery_returns) simp_all
    then show "clean_query poll pr ix query i'" using assms(6) i' by (intro clean_queryI) simp_all
  qed
  from search_loop_overflow [OF assms(1) over _ clean]
  obtain out' where "search_loop poll pr ix query 0 0
      \<lparr>queryId = [], targetId = [], out_score = [], out_anchors = []\<rparr> = Some (int i + 1, out')"
    by auto
  then show ?thesis by (simp add: searchIndex_def)
qed

section \<open>The overflow flag on several threads\<close>

definition ex_big_index :: index where
  "ex_big_index = \<lparr>ix_num = [2147483647, 1], ix_loc = map int [0..<2147483648],
     ix_ind = replicate 2147483648 1, ix_pos = [0, 2147483648]\<rparr>"

definition ex_params :: params where
  "ex_params = \<lparr>p_wordSize = 1, p_stepSize = 1, p_logFreqs = [0, 0], p_sepC = 0, p_gapC = 0,
     p_out_type = 1, p_total = 1, p_minScore = None, p_scoreOnly = 0\<rparr>"

lemma ex_big_sorted: "index_sorted ex_big_index"
  unfolding index_sorted_def
proof (intro allI impI)
  fix c P P'
  assume c: "c < length (ix_num ex_big_index)"
    and b: "nat (offsets (ix_num ex_big_index) ! c) \<le> P \<and> P < P' \<and>
       P' < nat (offsets (ix_num ex_big_index) ! c) + nat (ix_num ex_big_index ! c)"
  have off: "offsets [2147483647, 1] = [0, 2147483647]" by code_simp
  from c have "c = 0 \<or> c = 1" by (auto simp: ex_big_index_def)
  then have "P < P' \<and> P' < 2147483648"
  proof
    assume "c = 0"
    with b off show ?thesis by (simp add: ex_big_index_def)
  next
    assume "c = 1"
    with b off show ?thesis by (simp add: ex_big_index_def)
  qed
  then have P: "P < P'" "P' < 2147483648" by simp_all
  then have "P < 2147483648" by simp
  with P have "ix_ind ex_big_index ! P = ix_ind ex_big_index ! P'"
    "ix_loc ex_big_index ! P < ix_loc ex_big_index ! P'"
    by (simp_all add: ex_big_index_def)
  then show "ix_ind ex_big_index ! P < ix_ind ex_big_index ! P' \<or>
         (ix_ind ex_big_index ! P = ix_ind ex_big_index ! P' \<and>
          ix_loc ex_big_index ! P < ix_loc ex_big_index ! P')" by simp
qed

lemma ex_first_query:
  "\<exists>set2 score2 anchors.
     perQuery ex_params ex_big_index [1] = Some (Result set2 score2 anchors)"
proof -
  have q: "query_ok (ix_num ex_big_index) [1]"
    by (simp add: query_ok_def ex_big_index_def NA_INTEGER_def)
  have h: "hit_total (ix_num ex_big_index) [1] = 1"
    by (simp add: hit_total_def ex_big_index_def NA_INTEGER_def)
  have w: "query_width [1] (p_wordSize ex_params) = 1"
    by (simp add: query_width_def width_loop.simps ex_params_def NA_INTEGER_def)
  from perQuery_cases [OF q ex_big_sorted, of ex_params] h w show ?thesis by simp
qed

lemma ex_second_query: "perQuery ex_params ex_big_index [0, 1] = Some Overflow"
proof (rule perQuery_overflow)
  show "counts_ok (ix_num ex_big_index) [0, 1]"
    by (simp add: counts_ok_def ex_big_index_def NA_INTEGER_def)
  show "2147483647 < hit_total (ix_num ex_big_index) [0, 1]"
    by (simp add: hit_total_def ex_big_index_def NA_INTEGER_def)
qed

text \<open>Claim C4, on two threads.  Query 1 has one hit; the bucket sizes of query 2 sum to
  \<open>2\<^sup>3\<^sup>1\<close>, so its hit count overflows.  Thread 0 takes query 1 and thread 1 takes query 2,
  both reading \<open>abort = 0\<close>; thread 1 ends first and stores \<open>abort = 2\<close>; then the master thread
  ends query 1, its timer has run out, and it stores \<open>abort = checkInterrupt() = 0\<close>.  The call
  returns result arrays and no error, although the hit count of query 2 overflowed; run
  on one thread, the same call fails with the error naming query 2.\<close>

theorem overflow_lost_in_parallel:
  "2147483647 < hit_total (ix_num ex_big_index) ([[1], [0, 1]] ! 1) \<and>
   perQuery ex_params ex_big_index ([[1], [0, 1]] ! 1) = Some Overflow \<and>
   (\<exists>out. searchIndex_par 2 (\<lambda>i. Some 0) ex_params ex_big_index [[1], [0, 1]]
            [Take 0, Take 1, Done 1, Done 0] = Some (Inr out)) \<and>
   searchIndex (\<lambda>i. Some 0) ex_params ex_big_index [[1], [0, 1]] = Some (Inl (TooManyHits 2))"
proof -
  have over: "2147483647 < hit_total (ix_num ex_big_index) ([[1], [0, 1]] ! 1)"
    by (simp add: hit_total_def ex_big_index_def NA_INTEGER_def)
  from ex_first_query obtain set2 score2 anchors where
    r0: "perQuery ex_params ex_big_index [1] = Some (Result set2 score2 anchors)" by blast
  note r1 = ex_second_query
  have two: "replicate 2 x = [x, x]" for x :: 'a by (simp add: numeral_2_eq_2)
  have par: "\<exists>out. searchIndex_par 2 (\<lambda>i. Some 0) ex_params ex_big_index [[1], [0, 1]]
            [Take 0, Take 1, Done 1, Done 0] = Some (Inr out)"
    by (simp add: searchIndex_par_def par_step_def two r0 r1)
  have q0: "query_ok (ix_num ex_big_index) ([[1], [0, 1]] ! 0)"
    by (simp add: query_ok_def ex_big_index_def NA_INTEGER_def)
  have q1: "query_ok (ix_num ex_big_index) ([[1], [0, 1]] ! 1)"
    by (simp add: query_ok_def ex_big_index_def NA_INTEGER_def)
  have fits: "hit_total (ix_num ex_big_index) ([[1], [0, 1]] ! 0) \<le> 2147483647"
    by (simp add: hit_total_def ex_big_index_def NA_INTEGER_def)
  have q: "\<forall>i'\<le>1. query_ok (ix_num ex_big_index) ([[1], [0, 1]] ! i')"
    using q0 q1 by (auto simp: le_Suc_eq)
  have f: "\<forall>i'<1. hit_total (ix_num ex_big_index) ([[1], [0, 1]] ! i') \<le> 2147483647"
    using fits by simp
  have "searchIndex (\<lambda>i. Some 0) ex_params ex_big_index [[1], [0, 1]]
       = Some (Inl (TooManyHits (int 1 + 1)))"
    using _ ex_big_sorted q over f by (rule overflow_aborts_sequential) simp_all
  with over r1 par show ?thesis by simp
qed

end
